(* ===== verification/Zest_Prelude.thy ===== *)
theory Zest_Prelude
  imports
    Main
    "HOL-Library.Word"
    "HOL-Library.AList"
    "HOL-Library.Char_ord"
    "HOL-Library.List_Lexorder"
    "HOL-Library.Multiset"
begin

text \<open>
  Shared vocabulary of the development: the machine integers of the source, byte strings and
  their fixed-width encodings, association lists for \<open>std::unordered_map\<close>, decimal
  printing and parsing (\<open>std::format\<close>, \<open>std::to_string\<close>, \<open>std::from_chars\<close>), and the
  script of I/O outcomes that stands for the operating system.

  Conventions.
  \<^item> \<open>uint32_t\<close> and \<open>unsigned int\<close> are \<open>u32\<close>; \<open>uint64_t\<close>, \<open>unsigned long\<close> and
    \<open>size_t\<close> are \<open>u64\<close> where their arithmetic matters (LP64, little-endian target).
  \<^item> \<open>std::string\<close> and file contents are lists of 8-bit characters.
  \<^item> \<open>std::unordered_map\<close> is an association list with distinct keys; its order stands for
    the container's iteration order.
\<close>

type_synonym u16 = "16 word"
type_synonym u32 = "32 word"
type_synonym u64 = "64 word"
type_synonym bytes = string

named_theorems codec_simps \<open>length and round-trip rules of the byte encodings\<close>
named_theorems calm \<open>operations that consume no failure from a script without failures\<close>
named_theorems io_simps \<open>one-step rules of the stream operations\<close>

section \<open>I/O outcomes\<close>

text \<open>
  Every call that can fail for an external reason consumes one outcome of a script. A script is
  arbitrary: theorems about all scripts cover every failure pattern. An exhausted script means
  that everything succeeds. \<open>IoFail k\<close> is a failure after \<open>k\<close> bytes.
\<close>

datatype io = IoOk | IoFail nat

type_synonym ios = "io list"

fun io_next :: "ios \<Rightarrow> io \<times> ios" where
  "io_next [] = (IoOk, [])"
| "io_next (x # xs) = (x, xs)"

fun io_ok :: "io \<Rightarrow> bool" where
  "io_ok IoOk = True"
| "io_ok (IoFail k) = False"

text \<open>A script with no failure in it.\<close>

definition all_ok :: "ios \<Rightarrow> bool" where
  "all_ok xs = list_all io_ok xs"

lemma all_ok_Nil [simp]: "all_ok []"
  by (simp add: all_ok_def)

lemma all_ok_io_next:
  assumes "all_ok xs" and "io_next xs = (r, xs')"
  shows "r = IoOk \<and> all_ok xs'"
proof (cases xs)
  case Nil
  with assms show ?thesis by simp
next
  case (Cons y ys)
  with assms show ?thesis by (cases y) (auto simp: all_ok_def)
qed

lemma io_next_calm [calm]: "io_next s = (r, s') \<Longrightarrow> all_ok s \<Longrightarrow> all_ok s'"
  using all_ok_io_next by blast

section \<open>Fixed-width integers as bytes\<close>

fun le_bytes :: "nat \<Rightarrow> nat \<Rightarrow> bytes" where
  "le_bytes 0 x = []"
| "le_bytes (Suc n) x = char_of (x mod 256) # le_bytes n (x div 256)"

fun le_nat :: "bytes \<Rightarrow> nat" where
  "le_nat [] = 0"
| "le_nat (c # cs) = of_char c + 256 * le_nat cs"

lemma length_le_bytes [simp, codec_simps]: "length (le_bytes n x) = n"
  by (induction n arbitrary: x) auto

lemma le_nat_le_bytes: "le_nat (le_bytes n x) = x mod 256 ^ n"
proof (induction n arbitrary: x)
  case 0
  show ?case by simp
next
  case (Suc n)
  have "x mod 256 ^ Suc n = 256 * (x div 256 mod 256 ^ n) + x mod 256"
    using mod_mult2_eq [of x 256 "256 ^ n"] by simp
  with Suc show ?case by simp
qed

lemma le_bytes_inj:
  assumes "le_bytes n x = le_bytes n y" and "x < 256 ^ n" and "y < 256 ^ n"
  shows "x = y"
proof -
  have "x mod 256 ^ n = y mod 256 ^ n"
    using arg_cong [OF assms(1), of le_nat] by (simp only: le_nat_le_bytes)
  with assms(2,3) show ?thesis by (simp only: mod_less)
qed

lemma unat_u32_less: "unat (w :: u32) < 2 ^ 32"
  by (rule order_less_le_trans [OF unsigned_less]) simp

lemma unat_u64_less: "unat (w :: u64) < 2 ^ 64"
  by (rule order_less_le_trans [OF unsigned_less]) simp

lemma unat_of_nat_u32: "n < 2 ^ 32 \<Longrightarrow> unat (of_nat n :: u32) = n"
  by (simp add: unat_of_nat)

lemma unat_of_nat_u64: "n < 2 ^ 64 \<Longrightarrow> unat (of_nat n :: u64) = n"
  by (simp add: unat_of_nat)

lemma unat_Suc_id:
  fixes x :: u32
  shows "unat x + 1 < 2 ^ 32 \<Longrightarrow> unat (x + 1) = unat x + 1"
  by (simp add: unat_word_ariths)

lemma unat_ucast_u64: "unat (ucast (w :: u32) :: u64) = unat w"
  using unat_u32_less [of w] by (simp add: unsigned_ucast_eq take_bit_nat_eq_self)

lemma unat_minus_one_u32: "unat (- 1 :: u32) = 4294967295"
  by (simp add: unsigned_minus_1_eq_mask mask_eq_exp_minus_1)

lemma unat_plus_one_neq:
  fixes x y :: u64
  assumes "unat x \<le> unat y" and "unat y < 2 ^ 64 - 1"
  shows "x \<noteq> y + 1"
proof
  assume "x = y + 1"
  moreover have "unat (y + 1) = unat y + 1"
    using assms(2) by (simp add: unat_word_ariths)
  ultimately show False using assms(1) by simp
qed

definition put_u32 :: "u32 \<Rightarrow> bytes" where
  "put_u32 w = le_bytes 4 (unat w)"

definition get_u32 :: "bytes \<Rightarrow> u32" where
  "get_u32 bs = word_of_nat (le_nat bs)"

definition put_u64 :: "u64 \<Rightarrow> bytes" where
  "put_u64 w = le_bytes 8 (unat w)"

definition get_u64 :: "bytes \<Rightarrow> u64" where
  "get_u64 bs = word_of_nat (le_nat bs)"

lemma length_put_u32 [simp, codec_simps]: "length (put_u32 w) = 4"
  by (simp add: put_u32_def)

lemma length_put_u64 [simp, codec_simps]: "length (put_u64 w) = 8"
  by (simp add: put_u64_def)

lemma get_put_u32 [simp, codec_simps]: "get_u32 (put_u32 w) = w"
proof -
  have "unat w mod 256 ^ 4 = unat w"
    using unat_u32_less [of w] by simp
  then show ?thesis
    by (simp add: get_u32_def put_u32_def le_nat_le_bytes)
qed

lemma get_put_u64 [simp, codec_simps]: "get_u64 (put_u64 w) = w"
proof -
  have "unat w mod 256 ^ 8 = unat w"
    using unat_u64_less [of w] by simp
  then show ?thesis
    by (simp add: get_u64_def put_u64_def le_nat_le_bytes)
qed

text \<open>Network byte order, as \<open>ntohl\<close> reads it.\<close>

definition put_be32 :: "u32 \<Rightarrow> bytes" where
  "put_be32 w = rev (put_u32 w)"

definition get_be32 :: "bytes \<Rightarrow> u32" where
  "get_be32 bs = get_u32 (rev bs)"

lemma length_put_be32 [simp, codec_simps]: "length (put_be32 w) = 4"
  by (simp add: put_be32_def)

lemma get_put_be32 [simp, codec_simps]: "get_be32 (put_be32 w) = w"
  by (simp add: get_be32_def put_be32_def)

text \<open>Reading exactly \<open>n\<close> bytes from a stream, with the rest of the stream.\<close>

definition take_bytes :: "nat \<Rightarrow> bytes \<Rightarrow> (bytes \<times> bytes) option" where
  "take_bytes n bs = (if n \<le> length bs then Some (take n bs, drop n bs) else None)"

lemma take_bytes_append [simp, codec_simps]:
  "length xs = n \<Longrightarrow> take_bytes n (xs @ ys) = Some (xs, ys)"
  by (auto simp: take_bytes_def)

lemma take_bytes_short [simp, codec_simps]: "length bs < n \<Longrightarrow> take_bytes n bs = None"
  by (simp add: take_bytes_def)

lemma take_bytes_Some:
  "take_bytes n bs = Some (xs, ys) \<longleftrightarrow> bs = xs @ ys \<and> length xs = n"
  by (auto simp: take_bytes_def)

section \<open>Association lists\<close>

declare map_of_eq_Some_iff [simp del]

lemmas alist_map_simps [simp] = update_conv' delete_conv'

lemma distinct_fst_update [intro, simp]:
  "distinct (map fst al) \<Longrightarrow> distinct (map fst (AList.update k v al))"
  by (rule distinct_update)

lemma distinct_fst_delete [intro, simp]:
  "distinct (map fst al) \<Longrightarrow> distinct (map fst (AList.delete k al))"
  by (rule distinct_delete)

lemma map_of_take: "map_of (take n al) k = Some v \<Longrightarrow> map_of al k = Some v"
proof (induction al arbitrary: n)
  case Nil
  then show ?case by simp
next
  case (Cons p al)
  then show ?case by (cases n) (auto split: if_splits)
qed

lemma map_of_others: "map_of (filter (\<lambda>p. fst p \<noteq> k) al) = (map_of al)(k := None)"
  by (induction al) (auto simp: fun_eq_iff)

lemma set_concat_nth: "x \<in> set (concat xss) \<longleftrightarrow> (\<exists>i < length xss. x \<in> set (xss ! i))"
  unfolding set_concat by (metis UN_iff in_set_conv_nth)

lemma set_update_subset: "set (AList.update k v al) \<subseteq> insert (k, v) (set al)"
  by (induction al) auto

lemma set_delete_subset: "set (AList.delete k al) \<subseteq> set al"
  by (auto simp: AList.delete_eq)

lemma length_update_absent:
  "map_of al k = None \<Longrightarrow> length (AList.update k v al) = Suc (length al)"
  by (induction al) (auto split: if_splits)

lemma length_delete_present:
  assumes "distinct (map fst al)" and "map_of al k = Some v"
  shows "Suc (length (AList.delete k al)) = length al"
  using assms
proof (induction al)
  case Nil
  then show ?case by simp
next
  case (Cons p al)
  obtain a b where p: "p = (a, b)" by (cases p)
  show ?case
  proof (cases "a = k")
    case True
    with Cons.prems p have "k \<notin> fst ` set al" by auto
    with True p show ?thesis by simp
  next
    case False
    with Cons p show ?thesis by auto
  qed
qed

section \<open>Decimal integers\<close>

text \<open>
  \<open>std::format("{}", n)\<close> and \<open>std::to_string\<close> of a non-negative integer, and
  \<open>std::from_chars\<close> for an unsigned type followed by the test that every character was used:
  at least one digit, digits only, and a value below the type's bound.
\<close>

definition digit_char :: "nat \<Rightarrow> char" where
  "digit_char d = char_of (48 + d)"

definition digit_val :: "char \<Rightarrow> nat option" where
  "digit_val c = (if 48 \<le> (of_char c :: nat) \<and> (of_char c :: nat) \<le> 57
                  then Some (of_char c - 48) else None)"

fun show_nat :: "nat \<Rightarrow> string" where
  "show_nat n = (if n < 10 then [digit_char n] else show_nat (n div 10) @ [digit_char (n mod 10)])"

declare show_nat.simps [simp del]

definition show_int :: "int \<Rightarrow> string" where
  "show_int i = (if i < 0 then ''-'' @ show_nat (nat (- i)) else show_nat (nat i))"

fun digits_val :: "nat \<Rightarrow> string \<Rightarrow> nat option" where
  "digits_val acc [] = Some acc"
| "digits_val acc (c # cs) =
     (case digit_val c of None \<Rightarrow> None | Some d \<Rightarrow> digits_val (10 * acc + d) cs)"

definition parse_unsigned :: "nat \<Rightarrow> string \<Rightarrow> nat option" where
  "parse_unsigned bound s =
     (if s = [] then None
      else case digits_val 0 s of
             None \<Rightarrow> None
           | Some n \<Rightarrow> if n < bound then Some n else None)"

lemma digit_val_digit_char [simp]: "d < 10 \<Longrightarrow> digit_val (digit_char d) = Some d"
  by (simp add: digit_val_def digit_char_def)

lemma digits_val_append:
  "digits_val acc (xs @ ys) =
     (case digits_val acc xs of None \<Rightarrow> None | Some a \<Rightarrow> digits_val a ys)"
  by (induction xs arbitrary: acc) (auto split: option.splits)

lemma show_nat_nonempty [simp]: "show_nat n \<noteq> []"
  by (subst show_nat.simps) simp

lemma digits_val_show_nat: "digits_val 0 (show_nat n) = Some n"
proof (induction n rule: show_nat.induct)
  case (1 n)
  show ?case
  proof (cases "n < 10")
    case True
    then show ?thesis by (simp add: show_nat.simps [of n])
  next
    case False
    with 1 have "digits_val 0 (show_nat (n div 10)) = Some (n div 10)" by simp
    with False show ?thesis
      by (simp add: show_nat.simps [of n] digits_val_append)
  qed
qed

lemma parse_show_nat: "n < bound \<Longrightarrow> parse_unsigned bound (show_nat n) = Some n"
  by (simp add: parse_unsigned_def digits_val_show_nat)

lemma parse_unsigned_bound: "parse_unsigned bound s = Some n \<Longrightarrow> n < bound"
  by (auto simp: parse_unsigned_def split: if_splits option.splits)

lemma show_nat_inj: "show_nat m = show_nat n \<Longrightarrow> m = n"
  by (metis digits_val_show_nat option.inject)

lemma show_nat_digits: "c \<in> set (show_nat n) \<Longrightarrow> digit_val c \<noteq> None"
proof (induction n rule: show_nat.induct)
  case (1 n)
  then show ?case
    by (cases "n < 10") (auto simp: show_nat.simps [of n])
qed

end
