(* ===== verification/Settings.thy ===== *)
theory Settings
  imports Zest_Prelude
begin

text \<open>
  \<open>Settings.hpp\<close>: roles, results, the message texts, the configuration record, and the rule that
  the bulk commands pass down to the shards. Paths that no operation of the model opens under
  another name (\<open>IndexPath\<close>, \<open>WalPath\<close>) are kept as strings, since \<open>reloadConfig\<close> compares them.
\<close>

datatype Role = Read | Write | Admin

text \<open>The order in which the enumerators are declared, used to compare privileges.\<close>

fun role_rank :: "Role \<Rightarrow> nat" where
  "role_rank Read = 0"
| "role_rank Write = 1"
| "role_rank Admin = 2"

lemma role_rank_inj: "role_rank a = role_rank b \<Longrightarrow> a = b"
  by (cases a; cases b) auto

instantiation Role :: linorder
begin

definition less_eq_Role :: "Role \<Rightarrow> Role \<Rightarrow> bool" where
  "less_eq_Role a b \<longleftrightarrow> role_rank a \<le> role_rank b"

definition less_Role :: "Role \<Rightarrow> Role \<Rightarrow> bool" where
  "less_Role a b \<longleftrightarrow> role_rank a < role_rank b"

instance
  by standard (auto simp: less_eq_Role_def less_Role_def role_rank_inj)

end

datatype Code = Success | Error

record ResultType =
  code :: Code
  response :: string
  affectedRows :: int

abbreviation res :: "Code \<Rightarrow> string \<Rightarrow> int \<Rightarrow> ResultType" where
  "res c r n \<equiv> \<lparr>code = c, response = r, affectedRows = n\<rparr>"

section \<open>Messages\<close>

definition KEY_NOT_FOUND :: string where "KEY_NOT_FOUND = ''Key not found''"
definition VALUE_EMPTY :: string where "VALUE_EMPTY = ''The value cannot be empty !''"
definition SUCCESS_SET :: string where "SUCCESS_SET = ''Key successfully set''"
definition SUCCESS_DEL :: string where "SUCCESS_DEL = ''Key successfully deleted''"
definition INVALID_REGEX :: string where
  "INVALID_REGEX = ''Invalid search mode or invalid regex pattern''"
definition MISSING_KEY :: string where "MISSING_KEY = ''Error: missing key''"
definition MISSING_VALUE :: string where "MISSING_VALUE = ''Error: missing value''"
definition MISSING_PATTERN :: string where "MISSING_PATTERN = ''Error: missing pattern''"
definition CMD_NOT_FOUND :: string where "CMD_NOT_FOUND = ''Command not found''"
definition FLUSH_SUCCESSFUL :: string where "FLUSH_SUCCESSFUL = ''Flush successful !''"
definition JSON_ONLY_ERROR :: string where
  "JSON_ONLY_ERROR = ''Invalid format, only json data allowed !''"
definition READ_ONLY_ERROR :: string where
  "READ_ONLY_ERROR = ''Modification not allowed ! The database is in read-only mode !''"
definition NO_COMMAND_GIVEN :: string where "NO_COMMAND_GIVEN = ''No command were given !''"
definition MALFORMED_BATCH :: string where "MALFORMED_BATCH = ''Batch format not correct !''"
definition AUTH_SUCCESS :: string where "AUTH_SUCCESS = ''Successfuly authenticated !''"
definition AUTH_FAILED :: string where "AUTH_FAILED = ''Authentication failed !''"
definition INVALID_KEY :: string where
  "INVALID_KEY = ''The key does not respect the key validation rule !''"
definition INVALID_VALUE :: string where
  "INVALID_VALUE = ''The value does not respect the value validation rule !''"
definition MISSING_ARGUMENTS :: string where
  "MISSING_ARGUMENTS = ''Not enough arguments provided !''"
definition UPDATE_SUCCESSFUL :: string where
  "UPDATE_SUCCESSFUL = ''Values successfuly updated !''"
definition PERMISSION_DENIED :: string where
  "PERMISSION_DENIED = ''Permission denied for this user !''"
definition SESSION_REVOKED :: string where
  "SESSION_REVOKED = ''Session revoked: the user no longer exists !''"
definition INTERNAL_ERROR :: string where
  "INTERNAL_ERROR = ''Internal error while executing the command !''"
definition READ_FAILED :: string where "READ_FAILED = ''Failed to read the value from disk !''"
definition WAL_WRITE_FAILED :: string where
  "WAL_WRITE_FAILED = ''The write was applied but could not be logged in the WAL !''"
definition PAYLOAD_TOO_LARGE :: string where "PAYLOAD_TOO_LARGE = ''Payload too large !''"
definition INVALID_LIMIT :: string where
  "INVALID_LIMIT = ''Invalid limit ! lim expects a positive integer''"
definition INVALID_MODE :: string where
  "INVALID_MODE = ''Invalid mode ! Use a mode between re, sw, ct, ew''"

section \<open>The configuration\<close>

record Settings =
  DbPath :: string
  IndexPath :: string
  WalPath :: string
  SSLCertPath :: string
  SSLKeyPath :: string
  ArchiveStoragePath :: string
  SegSize :: u64
  MaxKeySize :: u32
  MaxValueSize :: u32
  CacheSize :: u32
  CompactingInterval :: u32
  FlushInterval :: u32
  DBPort :: u16
  WebPort :: u16
  NetworkValidationStr :: string
  ArchiveCreationDelay :: u32
  ArchiveRetention :: u32
  MaxConnections :: u32
  AuthTimeout :: u32
  IdleTimeout :: u32
  AutoArchiveSaving :: bool
  isDebug :: bool
  useSSL :: bool
  jsonOnly :: bool
  readOnly :: bool
  fsyncOnWrite :: bool

abbreviation UINT_MAX :: u32 where "UINT_MAX \<equiv> - 1"

text \<open>
  \<open>ValidationRule\<close>: the predicate on keys and the limit. The pointer \<open>globalMatchCount\<close> to the
  counter shared by the shards of one bulk command is passed and returned beside the rule.
\<close>

record ValidationRule =
  func :: "string \<Rightarrow> bool"
  limit :: u32

end
