(* ===== verification/KeyValue.thy ===== *)
theory KeyValue
  imports Settings
begin

text \<open>
  The contract of a key-value store, and how it is kept when the keys are spread over several
  stores. The locale \<open>key_map\<close> knows a state only through the map it stands for and its invariant; the
  locale \<open>kv_store\<close> adds the three operations and what they promise. A shard is one instance, the shard
  manager, which is a list of shards with a hash, is another.
\<close>

section \<open>Answers\<close>

text \<open>What a read answers for a key that has the value \<open>v\<close>.\<close>

definition get_answer :: "string option \<Rightarrow> ResultType \<Rightarrow> bool" where
  "get_answer v r \<longleftrightarrow>
     (case v of None \<Rightarrow> r = res Error KEY_NOT_FOUND 0
      | Some x \<Rightarrow> r = res Success x 1 \<or> r = res Error READ_FAILED 0)"

section \<open>Homes\<close>

text \<open>The number of the store, among \<open>n\<close>, that a key belongs to.\<close>

definition home :: "(string \<Rightarrow> u64) \<Rightarrow> nat \<Rightarrow> string \<Rightarrow> nat" where
  "home hash n k = unat (hash k mod of_nat n)"

lemma home_less:
  assumes "0 < n" and "n < 2 ^ 32"
  shows "home hash n k < n"
proof -
  have "unat (of_nat n :: u64) = n" using assms(2) by (intro unat_of_nat_u64) simp
  with assms(1) show ?thesis by (simp add: home_def unat_mod mod_less_divisor)
qed

section \<open>A map in parts\<close>

locale key_map =
  fixes view :: "'s \<Rightarrow> string \<Rightarrow> string option"
    and invar :: "'s \<Rightarrow> bool"
begin

text \<open>The map of a list of stores, and that each of them holds only keys that belong to it.\<close>

definition whole_view :: "(string \<Rightarrow> u64) \<Rightarrow> 's list \<Rightarrow> string \<Rightarrow> string option" where
  "whole_view hash ss k = view (ss ! home hash (length ss) k) k"

definition whole_invar :: "(string \<Rightarrow> u64) \<Rightarrow> 's list \<Rightarrow> bool" where
  "whole_invar hash ss \<longleftrightarrow> ss \<noteq> [] \<and> length ss < 2 ^ 32
     \<and> (\<forall>i < length ss. invar (ss ! i) \<and> (\<forall>k. view (ss ! i) k \<noteq> None \<longrightarrow> home hash (length ss) k = i))"

lemma home_in_range: "whole_invar hash ss \<Longrightarrow> home hash (length ss) k < length ss"
  by (simp add: whole_invar_def home_less)

lemma part_invar: "whole_invar hash ss \<Longrightarrow> i < length ss \<Longrightarrow> invar (ss ! i)"
  by (simp add: whole_invar_def)

text \<open>Replacing the home of \<open>k\<close> by a state whose map differs at \<open>k\<close> only.\<close>

lemma replace_home:
  assumes "whole_invar hash ss" and "invar s'"
    and "\<And>q. q \<noteq> k \<Longrightarrow> view s' q = view (ss ! home hash (length ss) k) q"
  shows "whole_invar hash (ss[home hash (length ss) k := s'])"
    and "whole_view hash (ss[home hash (length ss) k := s']) = (whole_view hash ss)(k := view s' k)"
proof -
  let ?i = "home hash (length ss) k"
  note i = home_in_range [OF assms(1), of k]
  have "home hash (length ss) q = ?i" if "view s' q \<noteq> None" for q
    using that assms(1,3) i by (cases "q = k") (auto simp: whole_invar_def)
  with assms(1,2) i show "whole_invar hash (ss[?i := s'])" by (simp add: whole_invar_def nth_list_update)
  show "whole_view hash (ss[?i := s']) = (whole_view hash ss)(k := view s' k)"
    using assms(3) i by (auto simp: whole_view_def nth_list_update fun_eq_iff)
qed

text \<open>Replacing all stores by states that have no new keys.\<close>

lemma replace_all:
  assumes "whole_invar hash ss" and "length ss' = length ss" and "\<And>i. i < length ss \<Longrightarrow> invar (ss' ! i)"
    and "\<And>i k. i < length ss \<Longrightarrow> view (ss' ! i) k \<noteq> None \<Longrightarrow> view (ss ! i) k \<noteq> None"
  shows "whole_invar hash ss'" and "whole_view hash ss' k = view (ss' ! home hash (length ss) k) k"
proof -
  have "ss' \<noteq> []" "length ss' < 2 ^ 32" using assms(1,2) by (auto simp: whole_invar_def)
  moreover have "home hash (length ss) k = i" if "i < length ss" "view (ss' ! i) k \<noteq> None" for i k
    using that assms(1) assms(4) [OF that] by (simp add: whole_invar_def)
  ultimately show "whole_invar hash ss'" using assms(2,3) by (simp add: whole_invar_def)
  show "whole_view hash ss' k = view (ss' ! home hash (length ss) k) k" by (simp add: whole_view_def assms(2))
qed

end

section \<open>The contract\<close>

text \<open>\<open>fits k v s\<close>: the store can take the value \<open>v\<close> for \<open>k\<close>, unless a file call fails.\<close>

locale kv_store = key_map view invar
  for view :: "'s \<Rightarrow> string \<Rightarrow> string option" and invar :: "'s \<Rightarrow> bool" +
  fixes fits :: "string \<Rightarrow> string \<Rightarrow> 's \<Rightarrow> bool"
    and kget :: "string \<Rightarrow> 's \<Rightarrow> ResultType \<times> 's"
    and kset :: "string \<Rightarrow> string \<Rightarrow> 's \<Rightarrow> ResultType \<times> 's"
    and kdel :: "string \<Rightarrow> 's \<Rightarrow> ResultType \<times> 's"
  assumes kget: "invar s \<Longrightarrow> kget k s = (r, s') \<Longrightarrow> invar s' \<and> view s' = view s \<and> get_answer (view s k) r"
    and kset: "invar s \<Longrightarrow> fits k v s \<Longrightarrow> kset k v s = (r, s') \<Longrightarrow>
       invar s' \<and> view s' = (if code r = Success then (view s)(k \<mapsto> v) else view s)"
    and kdel: "invar s \<Longrightarrow> kdel k s = (r, s') \<Longrightarrow> invar s' \<and> view s' = (view s)(k := None)
       \<and> r = (if view s k = None then res Error KEY_NOT_FOUND 0 else res Success SUCCESS_DEL 1)"
begin

text \<open>Each operation, sent to the home of its key, keeps the same promise on the whole.\<close>

lemma home_get:
  assumes "whole_invar hash ss" and "kget k (ss ! home hash (length ss) k) = (r, s')"
  shows "whole_invar hash (ss[home hash (length ss) k := s'])"
    and "whole_view hash (ss[home hash (length ss) k := s']) = whole_view hash ss"
    and "get_answer (whole_view hash ss k) r"
proof -
  note g = kget [OF part_invar [OF assms(1) home_in_range [OF assms(1)]] assms(2)]
  note h = replace_home [OF assms(1) conjunct1 [OF g], of k]
  show "whole_invar hash (ss[home hash (length ss) k := s'])" using h(1) g by simp
  show "whole_view hash (ss[home hash (length ss) k := s']) = whole_view hash ss"
    using h(2) g by (simp add: whole_view_def [of hash ss k] fun_upd_idem)
  show "get_answer (whole_view hash ss k) r" using g by (simp add: whole_view_def)
qed

lemma home_set:
  assumes "whole_invar hash ss" and "fits k v (ss ! home hash (length ss) k)"
    and "kset k v (ss ! home hash (length ss) k) = (r, s')"
  shows "whole_invar hash (ss[home hash (length ss) k := s'])"
    and "whole_view hash (ss[home hash (length ss) k := s'])
           = (if code r = Success then (whole_view hash ss)(k \<mapsto> v) else whole_view hash ss)"
proof -
  note g = kset [OF part_invar [OF assms(1) home_in_range [OF assms(1)]] assms(2,3)]
  note h = replace_home [OF assms(1) conjunct1 [OF g], of k]
  show "whole_invar hash (ss[home hash (length ss) k := s'])" using h(1) g by simp
  show "whole_view hash (ss[home hash (length ss) k := s'])
      = (if code r = Success then (whole_view hash ss)(k \<mapsto> v) else whole_view hash ss)"
    using h(2) g by (simp add: whole_view_def [of hash ss k] fun_upd_idem)
qed

lemma home_del:
  assumes "whole_invar hash ss" and "kdel k (ss ! home hash (length ss) k) = (r, s')"
  shows "whole_invar hash (ss[home hash (length ss) k := s'])"
    and "whole_view hash (ss[home hash (length ss) k := s']) = (whole_view hash ss)(k := None)"
    and "r = (if whole_view hash ss k = None then res Error KEY_NOT_FOUND 0 else res Success SUCCESS_DEL 1)"
proof -
  note g = kdel [OF part_invar [OF assms(1) home_in_range [OF assms(1)]] assms(2)]
  note h = replace_home [OF assms(1) conjunct1 [OF g], of k]
  show "whole_invar hash (ss[home hash (length ss) k := s'])" using h(1) g by simp
  show "whole_view hash (ss[home hash (length ss) k := s']) = (whole_view hash ss)(k := None)" using h(2) g by simp
  show "r = (if whole_view hash ss k = None then res Error KEY_NOT_FOUND 0 else res Success SUCCESS_DEL 1)"
    using g by (simp add: whole_view_def)
qed

text \<open>A value that was stored is read back, whatever was read, stored and deleted under other keys since.\<close>

inductive elsewhere :: "string \<Rightarrow> 's \<Rightarrow> 's \<Rightarrow> bool" for k where
  same: "elsewhere k s s"
| get_any: "elsewhere k s t \<Longrightarrow> kget q t = (r, t') \<Longrightarrow> elsewhere k s t'"
| set_other: "elsewhere k s t \<Longrightarrow> q \<noteq> k \<Longrightarrow> fits q v t \<Longrightarrow> kset q v t = (r, t') \<Longrightarrow> elsewhere k s t'"
| del_other: "elsewhere k s t \<Longrightarrow> q \<noteq> k \<Longrightarrow> kdel q t = (r, t') \<Longrightarrow> elsewhere k s t'"

lemma elsewhere_keeps: "elsewhere k s t \<Longrightarrow> invar s \<Longrightarrow> invar t \<and> view t k = view s k"
proof (induction rule: elsewhere.induct)
  case (get_any s t q r t')
  then show ?case using kget [of t q r t'] by simp
next
  case (set_other s t q v r t')
  then show ?case using kset [of t q v r t'] by (simp split: if_splits)
next
  case (del_other s t q r t')
  then show ?case using kdel [of t q r t'] by simp
qed simp

lemma read_your_write:
  assumes "invar s" and "fits k v s" and "kset k v s = (res Success m n, s1)" and "elsewhere k s1 s2"
    and "kget k s2 = (r, s3)"
  shows "r = res Success v 1 \<or> r = res Error READ_FAILED 0"
proof -
  have 1: "invar s1" "view s1 k = Some v" using kset [OF assms(1-3)] by auto
  have "invar s2" "view s2 k = Some v" using elsewhere_keeps [OF assms(4) 1(1)] 1(2) by auto
  then show ?thesis using kget [OF _ assms(5)] by (simp add: get_answer_def)
qed

end

end
