(* ===== verification/FileIO.thy ===== *)
theory FileIO
  imports Zest_Prelude
begin

text \<open>
  \<open>File.hpp\<close> and the part of \<open>std::fstream\<close> the storage engine uses. A stream has the contents
  the process sees (buffered writes included), the contents known to be on the disk (the last
  successful sync), whether it is open, and its \<open>good()\<close> state. A write on a stream that is
  closed or not good does nothing and leaves it not good, as the sentry object of the library
  makes it. A failing write may leave a prefix of its bytes behind.
\<close>

record fstream =
  fs_data :: bytes
  fs_disk :: bytes
  fs_open :: bool
  fs_good :: bool

definition fs_fresh :: "bool \<Rightarrow> bytes \<Rightarrow> bytes \<Rightarrow> fstream" where
  "fs_fresh opened d k = \<lparr>fs_data = d, fs_disk = k, fs_open = opened, fs_good = opened\<rparr>"

definition fs_clear :: "fstream \<Rightarrow> fstream" where
  "fs_clear f = f\<lparr>fs_good := True\<rparr>"

text \<open>Bytes written at a position: they replace what is there; a gap is filled with zero bytes.\<close>

definition overlay :: "nat \<Rightarrow> bytes \<Rightarrow> bytes \<Rightarrow> bytes" where
  "overlay pos bs d =
     take pos d @ replicate (pos - length d) (char_of (0::nat)) @ bs @ drop (pos + length bs) d"

definition fs_seek :: "ios \<Rightarrow> fstream \<Rightarrow> fstream \<times> ios" where
  "fs_seek s f =
     (case io_next s of (r, s') \<Rightarrow>
        (if fs_open f \<and> io_ok r then f else f\<lparr>fs_good := False\<rparr>, s'))"

definition fs_write_at :: "ios \<Rightarrow> nat \<Rightarrow> bytes \<Rightarrow> fstream \<Rightarrow> fstream \<times> ios" where
  "fs_write_at s pos bs f =
     (if \<not> fs_open f \<or> \<not> fs_good f then (f\<lparr>fs_good := False\<rparr>, s)
      else case io_next s of
             (IoOk, s') \<Rightarrow> (f\<lparr>fs_data := overlay pos bs (fs_data f)\<rparr>, s')
           | (IoFail k, s') \<Rightarrow>
               (f\<lparr>fs_data := overlay pos (take k bs) (fs_data f), fs_good := False\<rparr>, s'))"

definition fs_append :: "ios \<Rightarrow> bytes \<Rightarrow> fstream \<Rightarrow> fstream \<times> ios" where
  "fs_append s bs f = fs_write_at s (length (fs_data f)) bs f"

text \<open>
  \<open>istream::read\<close> of \<open>n\<close> bytes at a position: the bytes obtained (\<open>gcount\<close> is their number).
  The stream stays good exactly when all \<open>n\<close> bytes came.
\<close>

definition fs_read_at :: "ios \<Rightarrow> nat \<Rightarrow> nat \<Rightarrow> fstream \<Rightarrow> bytes \<times> fstream \<times> ios" where
  "fs_read_at s pos n f =
     (if \<not> fs_open f \<or> \<not> fs_good f then ([], f\<lparr>fs_good := False\<rparr>, s)
      else case io_next s of (r, s') \<Rightarrow>
        let got = (case r of IoOk \<Rightarrow> take n (drop pos (fs_data f))
                   | IoFail k \<Rightarrow> take (min k (n - 1)) (drop pos (fs_data f)))
        in (got, f\<lparr>fs_good := (length got = n)\<rparr>, s'))"

definition fs_flush :: "ios \<Rightarrow> fstream \<Rightarrow> fstream \<times> ios" where
  "fs_flush s f =
     (if \<not> fs_open f \<or> \<not> fs_good f then (f\<lparr>fs_good := False\<rparr>, s)
      else case io_next s of (r, s') \<Rightarrow> (f\<lparr>fs_good := io_ok r\<rparr>, s'))"

text \<open>\<open>sync_to_disk\<close>: opens the file again (one outcome) and syncs it (a second one).\<close>

definition sync_to_disk :: "ios \<Rightarrow> fstream \<Rightarrow> bool \<times> fstream \<times> ios" where
  "sync_to_disk s f =
     (case io_next s of (r, s1) \<Rightarrow>
        if \<not> io_ok r then (False, f, s1)
        else case io_next s1 of (q, s2) \<Rightarrow>
          if io_ok q then (True, f\<lparr>fs_disk := fs_data f\<rparr>, s2) else (False, f, s2))"

definition flush_and_fsync :: "ios \<Rightarrow> fstream \<Rightarrow> bool \<times> fstream \<times> ios" where
  "flush_and_fsync s f =
     (if \<not> fs_open f then (False, f, s)
      else case fs_flush s f of (f1, s1) \<Rightarrow>
        if \<not> fs_good f1 then (False, f1, s1) else sync_to_disk s1 f1)"

section \<open>Rules\<close>

lemma overlay_end [simp, io_simps]: "overlay (length d) bs d = d @ bs"
  by (simp add: overlay_def)

lemma take_overlay [io_simps]: "n \<le> pos \<Longrightarrow> n \<le> length d \<Longrightarrow> take n (overlay pos bs d) = take n d"
  by (simp add: overlay_def min_def)

lemma length_overlay: "length (overlay pos bs d) = max (pos + length bs) (length d)"
  by (simp add: overlay_def)

lemma overlay_content:
  "pos \<le> length d \<Longrightarrow> take (length bs) (drop pos (overlay pos bs d)) = bs"
  by (simp add: overlay_def)

lemma fs_clear_simps [simp]:
  "fs_data (fs_clear f) = fs_data f" "fs_disk (fs_clear f) = fs_disk f"
  "fs_open (fs_clear f) = fs_open f" "fs_good (fs_clear f) = True"
  by (simp_all add: fs_clear_def)

lemma fs_seek_data:
  assumes "fs_seek s f = (f', s')"
  shows "fs_data f' = fs_data f \<and> fs_disk f' = fs_disk f \<and> fs_open f' = fs_open f"
  using assms by (auto simp: fs_seek_def split: prod.splits if_splits)

lemma fs_seek_good:
  assumes "fs_seek s f = (f', s')" and "fs_good f'"
  shows "f' = f \<and> fs_open f"
  using assms by (auto simp: fs_seek_def split: prod.splits if_splits)

lemma fs_seek_ok:
  assumes "fs_open f" and "all_ok s"
  shows "\<exists>s'. fs_seek s f = (f, s') \<and> all_ok s'"
  using assms all_ok_io_next [of s]
  by (auto simp: fs_seek_def split: prod.splits)

lemma fs_write_at_data:
  assumes "fs_write_at s pos bs f = (f', s')"
  shows "fs_disk f' = fs_disk f" and "fs_open f' = fs_open f"
    and "fs_good f' \<Longrightarrow> fs_data f' = overlay pos bs (fs_data f) \<and> fs_open f"
  using assms
  by (auto simp: fs_write_at_def split: prod.splits if_splits io.splits)

lemma fs_write_at_partial:
  assumes "fs_write_at s pos bs f = (f', s')"
  obtains "fs_data f' = fs_data f"
  | n where "fs_data f' = overlay pos (take n bs) (fs_data f)"
proof (cases "fs_open f \<and> fs_good f")
  case True
  obtain r s1 where r: "io_next s = (r, s1)" by (cases "io_next s")
  show ?thesis
  proof (cases r)
    case IoOk
    with True r assms have "fs_data f' = overlay pos (take (length bs) bs) (fs_data f)"
      by (auto simp: fs_write_at_def)
    then show ?thesis by (rule that(2))
  next
    case (IoFail k)
    with True r assms have "fs_data f' = overlay pos (take k bs) (fs_data f)"
      by (auto simp: fs_write_at_def)
    then show ?thesis by (rule that(2))
  qed
next
  case False
  with assms have "fs_data f' = fs_data f" by (auto simp: fs_write_at_def)
  then show ?thesis by (rule that(1))
qed

lemma fs_write_at_ok:
  assumes "fs_open f" and "fs_good f" and "all_ok s"
  shows "\<exists>s'. fs_write_at s pos bs f = (f\<lparr>fs_data := overlay pos bs (fs_data f)\<rparr>, s') \<and> all_ok s'"
  using assms all_ok_io_next [of s]
  by (auto simp: fs_write_at_def split: prod.splits io.splits)

lemma fs_append_ok:
  assumes "fs_open f" and "fs_good f" and "all_ok s"
  shows "\<exists>s'. fs_append s bs f = (f\<lparr>fs_data := fs_data f @ bs\<rparr>, s') \<and> all_ok s'"
  using fs_write_at_ok [OF assms, of "length (fs_data f)" bs] by (simp add: fs_append_def)

lemma fs_read_at_data:
  assumes "fs_read_at s pos n f = (got, f', s')"
  shows "fs_data f' = fs_data f \<and> fs_disk f' = fs_disk f \<and> fs_open f' = fs_open f"
  using assms
  by (auto simp: fs_read_at_def Let_def split: prod.splits if_splits io.splits)

lemma fs_read_at_full:
  assumes "fs_read_at s pos n f = (got, f', s')" and "length got = n" and "0 < n"
  shows "got = take n (drop pos (fs_data f))"
proof (cases "fs_open f \<and> fs_good f")
  case True
  obtain r s1 where r: "io_next s = (r, s1)" by (cases "io_next s")
  show ?thesis
  proof (cases r)
    case IoOk
    with True r assms(1) show ?thesis by (simp add: fs_read_at_def Let_def)
  next
    case (IoFail k)
    with True r assms(1) have "length got \<le> n - 1" by (auto simp: fs_read_at_def Let_def)
    with assms(2,3) show ?thesis by simp
  qed
next
  case False
  with assms show ?thesis by (auto simp: fs_read_at_def)
qed

lemma fs_read_at_ok:
  assumes "fs_open f" and "fs_good f" and "all_ok s"
  shows "\<exists>f' s'. fs_read_at s pos n f = (take n (drop pos (fs_data f)), f', s') \<and> all_ok s'"
  using assms all_ok_io_next [of s]
  by (auto simp: fs_read_at_def Let_def split: prod.splits io.splits)

lemma fs_flush_data:
  assumes "fs_flush s f = (f', s')"
  shows "fs_data f' = fs_data f \<and> fs_disk f' = fs_disk f \<and> fs_open f' = fs_open f"
  using assms by (auto simp: fs_flush_def split: prod.splits if_splits)

lemma flush_and_fsync_frame:
  assumes "flush_and_fsync s f = (b, f', s')"
  shows "fs_data f' = fs_data f" and "fs_open f' = fs_open f"
    and "b \<Longrightarrow> fs_disk f' = fs_data f \<and> fs_good f' \<and> fs_open f"
    and "\<not> b \<Longrightarrow> fs_disk f' = fs_disk f"
  using assms
  by (auto simp: flush_and_fsync_def sync_to_disk_def fs_flush_def split: prod.splits if_splits)

lemma flush_and_fsync_not_good:
  assumes "\<not> fs_good f"
  shows "fst (flush_and_fsync s f) = False"
  using assms by (simp add: flush_and_fsync_def fs_flush_def)

lemma flush_and_fsync_ok:
  assumes "fs_open f" and "fs_good f" and "all_ok s"
  shows "\<exists>s'. flush_and_fsync s f = (True, f\<lparr>fs_disk := fs_data f\<rparr>, s') \<and> all_ok s'"
proof -
  obtain r s1 where 1: "io_next s = (r, s1)" by (cases "io_next s")
  obtain q s2 where 2: "io_next s1 = (q, s2)" by (cases "io_next s1")
  obtain p s3 where 3: "io_next s2 = (p, s3)" by (cases "io_next s2")
  have "r = IoOk \<and> all_ok s1" using all_ok_io_next [OF assms(3) 1] .
  moreover from this 2 have "q = IoOk \<and> all_ok s2" using all_ok_io_next by blast
  moreover from this 3 have "p = IoOk \<and> all_ok s3" using all_ok_io_next by blast
  ultimately show ?thesis
    using assms 1 2 3 by (simp add: flush_and_fsync_def fs_flush_def sync_to_disk_def)
qed

section \<open>Crashes\<close>

text \<open>
  What a crash may leave of an append-only file: at least the synced bytes, and of the bytes
  appended since then any prefix.
\<close>

definition crash_prefix :: "fstream \<Rightarrow> bytes \<Rightarrow> bool" where
  "crash_prefix f d \<longleftrightarrow> (\<exists>n. length (fs_disk f) \<le> n \<and> d = take n (fs_data f))"

section \<open>Scripts without failures\<close>

lemma fs_seek_calm [calm]: "fs_seek s f = (f', s') \<Longrightarrow> all_ok s \<Longrightarrow> all_ok s'"
  by (auto simp: fs_seek_def split: prod.splits dest: calm)

lemma fs_write_at_calm [calm]: "fs_write_at s p b f = (f', s') \<Longrightarrow> all_ok s \<Longrightarrow> all_ok s'"
  by (auto simp: fs_write_at_def split: prod.splits io.splits if_splits dest: calm)

lemma fs_append_calm [calm]: "fs_append s b f = (f', s') \<Longrightarrow> all_ok s \<Longrightarrow> all_ok s'"
  by (auto simp: fs_append_def dest: calm)

lemma fs_read_at_calm [calm]: "fs_read_at s p n f = (x, f', s') \<Longrightarrow> all_ok s \<Longrightarrow> all_ok s'"
  by (auto simp: fs_read_at_def Let_def split: prod.splits if_splits dest: calm)

lemma fs_flush_calm [calm]: "fs_flush s f = (f', s') \<Longrightarrow> all_ok s \<Longrightarrow> all_ok s'"
  by (auto simp: fs_flush_def split: prod.splits if_splits dest: calm)

lemma flush_and_fsync_calm [calm]: "flush_and_fsync s f = (b, f', s') \<Longrightarrow> all_ok s \<Longrightarrow> all_ok s'"
  by (auto simp: flush_and_fsync_def sync_to_disk_def split: prod.splits if_splits dest: calm)

end
