(* ===== verification/IndexManager.thy ===== *)
theory IndexManager
  imports Settings FileIO
begin

text \<open>
  \<open>IndexManager.hpp\<close> and \<open>IndexManager.cpp\<close>: the packed record format of the INDEX file, the
  in-memory tree of live keys, the append-only log that mirrors it, loading with truncation of an
  unreadable tail, and compaction through \<open>INDEX.tmp\<close>. The locale \<open>key_index\<close> is the contract a
  shard relies on; it is interpreted on the operations of this theory.
\<close>

definition MAX_KEY_SIZE :: nat where "MAX_KEY_SIZE = 256"

abbreviation INVALID_SEGMENT_ID :: u32 where "INVALID_SEGMENT_ID \<equiv> - 1"
abbreviation INVALID_OFFSET :: u64 where "INVALID_OFFSET \<equiv> - 1"

record IndexEntry =
  ie_key :: string
  ie_offset :: u64
  ie_segmentId :: u32
  ie_size :: u32
  ie_isTombstone :: bool

record Location =
  loc_offset :: u64
  loc_segmentId :: u32
  loc_size :: u32

definition invalid_entry :: IndexEntry where
  "invalid_entry = \<lparr>ie_key = '''', ie_offset = INVALID_OFFSET, ie_segmentId = INVALID_SEGMENT_ID,
                    ie_size = 0, ie_isTombstone = False\<rparr>"

section \<open>The record format\<close>

text \<open>The packed header (21 bytes) and the key, the two writes of \<open>serialize\<close>.\<close>

definition klen :: "IndexEntry \<Rightarrow> u32" where
  "klen e = of_nat (length (ie_key e))"

definition header_bytes :: "IndexEntry \<Rightarrow> bytes" where
  "header_bytes e =
     put_u32 (klen e) @ put_u64 (ie_offset e) @ put_u32 (ie_segmentId e) @ put_u32 (ie_size e)
       @ [char_of (if ie_isTombstone e then 1 else 0 :: nat)]"

definition key_bytes :: "IndexEntry \<Rightarrow> bytes" where
  "key_bytes e = take (unat (klen e)) (ie_key e)"

definition record_bytes :: "IndexEntry \<Rightarrow> bytes" where
  "record_bytes e = header_bytes e @ key_bytes e"

definition serialize :: "ios \<Rightarrow> IndexEntry \<Rightarrow> fstream \<Rightarrow> fstream \<times> ios" where
  "serialize s e f =
     (case fs_append s (header_bytes e) f of (f1, s1) \<Rightarrow>
        if 0 < klen e then fs_append s1 (key_bytes e) f1 else (f1, s1))"

definition entry_of_header :: "bytes \<Rightarrow> string \<Rightarrow> IndexEntry" where
  "entry_of_header h k =
     \<lparr>ie_key = k, ie_offset = get_u64 (take 8 (drop 4 h)),
      ie_segmentId = get_u32 (take 4 (drop 12 h)), ie_size = get_u32 (take 4 (drop 16 h)),
      ie_isTombstone = (of_char (h ! 20) \<noteq> (0::nat))\<rparr>"

definition deserialize :: "bytes \<Rightarrow> (IndexEntry \<times> bytes) option" where
  "deserialize bs =
     (case take_bytes 21 bs of
        None \<Rightarrow> None
      | Some (h, rest) \<Rightarrow>
          let kl = unat (get_u32 (take 4 h)) in
          if kl > MAX_KEY_SIZE then None
          else case take_bytes kl rest of
                 None \<Rightarrow> None
               | Some (k, rest') \<Rightarrow> Some (entry_of_header h k, rest'))"

lemma deserialize_Some:
  "deserialize bs = Some (e, rest) \<longleftrightarrow>
     (\<exists>h k. bs = h @ k @ rest \<and> length h = 21 \<and> length k = unat (get_u32 (take 4 h))
           \<and> length k \<le> MAX_KEY_SIZE \<and> e = entry_of_header h k)"
proof
  assume "deserialize bs = Some (e, rest)"
  then obtain h k rest1 where "take_bytes 21 bs = Some (h, rest1)"
    and "\<not> MAX_KEY_SIZE < unat (get_u32 (take 4 h))"
    and "take_bytes (unat (get_u32 (take 4 h))) rest1 = Some (k, rest)"
    and "e = entry_of_header h k"
    unfolding deserialize_def Let_def by (auto split: option.splits if_splits)
  then show "\<exists>h k. bs = h @ k @ rest \<and> length h = 21 \<and> length k = unat (get_u32 (take 4 h))
           \<and> length k \<le> MAX_KEY_SIZE \<and> e = entry_of_header h k"
    unfolding take_bytes_Some by (metis leI)
next
  assume "\<exists>h k. bs = h @ k @ rest \<and> length h = 21 \<and> length k = unat (get_u32 (take 4 h))
           \<and> length k \<le> MAX_KEY_SIZE \<and> e = entry_of_header h k"
  then obtain h k where *: "bs = h @ k @ rest" "length h = 21"
      "length k = unat (get_u32 (take 4 h))" "length k \<le> MAX_KEY_SIZE" "e = entry_of_header h k"
    by blast
  have "take_bytes 21 bs = Some (h, k @ rest)"
    using * by simp
  moreover have "take_bytes (unat (get_u32 (take 4 h))) (k @ rest) = Some (k, rest)"
    using * by simp
  ultimately show "deserialize bs = Some (e, rest)"
    using * unfolding deserialize_def Let_def by simp
qed

lemma deserialize_shrinks [simp]:
  "deserialize bs = Some (e, rest) \<Longrightarrow> length rest < length bs"
  by (auto simp: deserialize_Some)

lemma deserialize_append:
  assumes "deserialize bs = Some (e, rest)"
  shows "deserialize (bs @ ys) = Some (e, rest @ ys)"
  using assms unfolding deserialize_Some by (metis append.assoc)

section \<open>State and operations\<close>

type_synonym tree = "(string \<times> Location) list"

record IndexManager =
  im_index :: fstream
  memoryTree :: tree
  im_canFlush :: bool

definition toEntry :: "string \<Rightarrow> Location \<Rightarrow> IndexEntry" where
  "toEntry k loc = \<lparr>ie_key = k, ie_offset = loc_offset loc, ie_segmentId = loc_segmentId loc,
                    ie_size = loc_size loc, ie_isTombstone = False\<rparr>"

definition loc_of :: "IndexEntry \<Rightarrow> Location" where
  "loc_of e = \<lparr>loc_offset = ie_offset e, loc_segmentId = ie_segmentId e, loc_size = ie_size e\<rparr>"

text \<open>One iteration of the loading loop: a tombstone erases, any other record stores.\<close>

definition apply_record :: "IndexEntry \<Rightarrow> tree \<Rightarrow> tree" where
  "apply_record e t =
     (if ie_isTombstone e then AList.delete (ie_key e) t
      else AList.update (ie_key e) (loc_of e) t)"

function load_loop :: "bytes \<Rightarrow> tree \<Rightarrow> tree \<times> bytes" where
  "load_loop bs t =
     (case deserialize bs of
        None \<Rightarrow> (t, bs)
      | Some (e, rest) \<Rightarrow> load_loop rest (apply_record e t))"
  by pat_completeness auto
termination
  by (relation "measure (\<lambda>(bs, t). length bs)") auto

declare load_loop.simps [simp del]

datatype fs_error = FilesystemError

text \<open>
  \<open>loadIndexIntoMemory\<close>. The first outcome is that of the reads (a failure after \<open>k\<close> bytes makes
  the rest unreadable); an unreadable tail is cut off with \<open>resize_file\<close>, which throws on
  failure, and the file is opened again.
\<close>

definition loadIndexIntoMemory :: "ios \<Rightarrow> IndexManager \<Rightarrow> fs_error + (IndexManager \<times> ios)" where
  "loadIndexIntoMemory s im =
     (let f = im_index im; d = fs_data f in
      if \<not> fs_open f then Inr (im, s)
      else case io_next s of (r, s1) \<Rightarrow>
        let vis = (case r of IoOk \<Rightarrow> d | IoFail k \<Rightarrow> take k d) in
        case load_loop vis (memoryTree im) of (t, rest) \<Rightarrow>
          let position = length vis - length rest in
          if position < length d
          then (case io_next s1 of
                  (IoFail k, s2) \<Rightarrow> Inl FilesystemError
                | (IoOk, s2) \<Rightarrow>
                    (case io_next s2 of (q, s3) \<Rightarrow>
                       Inr (im\<lparr>im_index := fs_fresh (io_ok q) (take position d) (take position d),
                               memoryTree := t\<rparr>, s3)))
          else Inr (im\<lparr>im_index := fs_clear f, memoryTree := t\<rparr>, s1))"

definition im_append :: "ios \<Rightarrow> IndexEntry \<Rightarrow> IndexManager \<Rightarrow> IndexManager \<times> ios" where
  "im_append s e im =
     (case serialize s e (fs_clear (im_index im)) of (f, s') \<Rightarrow>
        (im\<lparr>im_index := f, im_canFlush := True\<rparr>, s'))"

definition search :: "string \<Rightarrow> IndexManager \<Rightarrow> IndexEntry" where
  "search k im =
     (case map_of (memoryTree im) k of
        Some loc \<Rightarrow> toEntry k loc
      | None \<Rightarrow> invalid_entry)"

definition im_update :: "ios \<Rightarrow> string \<Rightarrow> IndexEntry \<Rightarrow> IndexManager \<Rightarrow> IndexManager \<times> ios" where
  "im_update s k e im =
     (case map_of (memoryTree im) k of
        None \<Rightarrow> (im, s)
      | Some old \<Rightarrow>
          (case im_append s (e\<lparr>ie_key := k\<rparr>) im of (im1, s1) \<Rightarrow>
             (if ie_isTombstone e
              then im1\<lparr>memoryTree := AList.delete k (memoryTree im1)\<rparr>
              else im1\<lparr>memoryTree := AList.update k (loc_of e) (memoryTree im1)\<rparr>, s1)))"

definition im_insert :: "ios \<Rightarrow> IndexEntry \<Rightarrow> IndexManager \<Rightarrow> IndexManager \<times> ios" where
  "im_insert s e im =
     (case im_append s e im of (im1, s1) \<Rightarrow>
        (im1\<lparr>memoryTree := AList.update (ie_key e) (loc_of e) (memoryTree im1)\<rparr>, s1))"

text \<open>
  The scans over the tree. \<open>stop i\<close> is the answer of \<open>stopEarly\<close> at iteration \<open>i\<close> (it reads a
  counter that other shards change); an absent \<open>stopEarly\<close> is \<open>\<lambda>_. False\<close>.
\<close>

fun getAll_loop :: "nat \<Rightarrow> (nat \<Rightarrow> bool) \<Rightarrow> nat \<Rightarrow> tree \<Rightarrow> IndexEntry list" where
  "getAll_loop lim stop n [] = []"
| "getAll_loop lim stop n ((k, loc) # t) =
     (if n \<ge> lim then [] else if stop n then []
      else toEntry k loc # getAll_loop lim stop (Suc n) t)"

definition getAll :: "u32 \<Rightarrow> (nat \<Rightarrow> bool) \<Rightarrow> IndexManager \<Rightarrow> IndexEntry list" where
  "getAll lim stop im = getAll_loop (unat lim) stop 0 (memoryTree im)"

fun find_loop :: "(string \<Rightarrow> bool) \<Rightarrow> (nat \<Rightarrow> bool) \<Rightarrow> nat \<Rightarrow> tree \<Rightarrow> IndexEntry list" where
  "find_loop p stop n [] = []"
| "find_loop p stop n ((k, loc) # t) =
     (if stop n then []
      else if p k then toEntry k loc # find_loop p stop (Suc n) t
      else find_loop p stop (Suc n) t)"

definition findMatching :: "(string \<Rightarrow> bool) \<Rightarrow> (nat \<Rightarrow> bool) \<Rightarrow> IndexManager \<Rightarrow> IndexEntry list" where
  "findMatching p stop im = find_loop p stop 0 (memoryTree im)"

definition im_keys :: "IndexManager \<Rightarrow> string list" where
  "im_keys im = map fst (memoryTree im)"

fun serialize_all :: "ios \<Rightarrow> IndexEntry list \<Rightarrow> fstream \<Rightarrow> fstream \<times> ios" where
  "serialize_all s [] f = (f, s)"
| "serialize_all s (e # es) f = (case serialize s e f of (f1, s1) \<Rightarrow> serialize_all s1 es f1)"

text \<open>
  \<open>compact\<close>: \<open>INDEX.tmp\<close> is written and synced, then renamed over INDEX. The outcomes are those
  of opening \<open>INDEX.tmp\<close>, of the writes and the sync, of the rename and of opening INDEX again.
\<close>

definition im_compact :: "ios \<Rightarrow> IndexManager \<Rightarrow> IndexEntry list \<times> IndexManager \<times> ios" where
  "im_compact s im =
     (let entries = getAll UINT_MAX (\<lambda>_. False) im in
      case io_next s of (r, s0) \<Rightarrow>
      case serialize_all s0 entries (fs_fresh (io_ok r) [] []) of (tmp, s1) \<Rightarrow>
      if \<not> fs_good tmp then (entries, im, s1)
      else case flush_and_fsync s1 tmp of (ok, tmp1, s2) \<Rightarrow>
        if \<not> ok then (entries, im, s2)
        else case io_next s2 of (renamed, s3) \<Rightarrow>
          let old = im_index im;
              d = (if io_ok renamed then fs_data tmp1 else fs_data old);
              k = (if io_ok renamed then fs_disk tmp1 else fs_disk old) in
          case io_next s3 of (opened, s4) \<Rightarrow>
            let im1 = im\<lparr>im_index := fs_fresh (io_ok opened) d k\<rparr> in
            if \<not> io_ok renamed \<or> \<not> io_ok opened then (entries, im1, s4)
            else (entries, im1\<lparr>im_canFlush := False\<rparr>, s4))"

definition im_flush :: "ios \<Rightarrow> IndexManager \<Rightarrow> bool \<times> IndexManager \<times> ios" where
  "im_flush s im =
     (if im_canFlush im
      then case flush_and_fsync s (im_index im) of (ok, f, s') \<Rightarrow>
             if \<not> ok then (False, im\<lparr>im_index := f\<rparr>, s')
             else (True, im\<lparr>im_index := f, im_canFlush := False\<rparr>, s')
      else (True, im, s))"

text \<open>
  The constructor on a file that holds \<open>d\<close>. When opening for update fails, the file is opened for
  output, which empties it, and opened for update again.
\<close>

definition open_index :: "ios \<Rightarrow> bytes \<Rightarrow> fstream \<times> ios" where
  "open_index s d =
     (case io_next s of
        (IoOk, s1) \<Rightarrow> (fs_fresh True d d, s1)
      | (IoFail k, s1) \<Rightarrow>
          (case io_next s1 of (r2, s2) \<Rightarrow>
             let d2 = (if io_ok r2 then [] else d) in
             case io_next s2 of (r3, s3) \<Rightarrow> (fs_fresh (io_ok r3) d2 d2, s3)))"

definition new_IndexManager :: "ios \<Rightarrow> bytes \<Rightarrow> fs_error + (IndexManager \<times> ios)" where
  "new_IndexManager s d =
     (case open_index s d of (f, s1) \<Rightarrow>
        case loadIndexIntoMemory s1 \<lparr>im_index = f, memoryTree = [], im_canFlush = False\<rparr> of
          Inl err \<Rightarrow> Inl err
        | Inr (im, s2) \<Rightarrow> (case im_compact s2 im of (es, im', s3) \<Rightarrow> Inr (im', s3)))"

section \<open>The record format round-trips\<close>

definition key_ok :: "IndexEntry \<Rightarrow> bool" where
  "key_ok e \<longleftrightarrow> length (ie_key e) \<le> MAX_KEY_SIZE"

lemma unat_klen: "key_ok e \<Longrightarrow> unat (klen e) = length (ie_key e)"
  by (simp add: key_ok_def klen_def MAX_KEY_SIZE_def unat_of_nat_u32)

lemma key_bytes_ok [codec_simps]: "key_ok e \<Longrightarrow> key_bytes e = ie_key e"
  by (simp add: key_bytes_def unat_klen)

lemma length_header_bytes [simp, codec_simps]: "length (header_bytes e) = 21"
  by (simp add: header_bytes_def)

lemma take4_header [simp]: "take 4 (header_bytes e) = put_u32 (klen e)"
  by (simp add: header_bytes_def)

lemma entry_of_header_bytes: "entry_of_header (header_bytes e) (ie_key e) = e"
proof -
  let ?o = "put_u64 (ie_offset e)" and ?s = "put_u32 (ie_segmentId e)" and ?z = "put_u32 (ie_size e)"
  let ?t = "char_of (if ie_isTombstone e then 1 else 0 :: nat) :: char"
  have h: "header_bytes e = put_u32 (klen e) @ ?o @ ?s @ ?z @ [?t]"
    by (simp add: header_bytes_def)
  have "drop 4 (header_bytes e) = ?o @ ?s @ ?z @ [?t]" by (simp add: h)
  moreover have "drop 12 (header_bytes e) = ?s @ ?z @ [?t]" by (simp add: h)
  moreover have "drop 16 (header_bytes e) = ?z @ [?t]" by (simp add: h)
  moreover have "header_bytes e ! 20 = ?t" by (simp add: h nth_append)
  ultimately show ?thesis
    by (simp add: entry_of_header_def)
qed

lemma deserialize_record:
  assumes "key_ok e"
  shows "deserialize (record_bytes e @ rest) = Some (e, rest)"
proof -
  have "record_bytes e @ rest = header_bytes e @ ie_key e @ rest"
    using assms by (simp add: record_bytes_def key_bytes_ok)
  moreover have "length (ie_key e) = unat (get_u32 (take 4 (header_bytes e)))"
    using assms by (simp add: unat_klen)
  ultimately show ?thesis
    using assms unfolding deserialize_Some key_ok_def
    by (metis length_header_bytes entry_of_header_bytes)
qed

text \<open>A record that was only partly written does not parse.\<close>

lemma deserialize_torn:
  assumes "key_ok e" and "n < length (record_bytes e)"
  shows "deserialize (take n (record_bytes e)) = None"
proof (rule ccontr)
  let ?b = "take n (record_bytes e)"
  assume "deserialize ?b \<noteq> None"
  then obtain e' rest where d: "deserialize ?b = Some (e', rest)" by auto
  have "deserialize (?b @ drop n (record_bytes e)) = Some (e', rest @ drop n (record_bytes e))"
    by (rule deserialize_append [OF d])
  then have "deserialize (record_bytes e @ []) = Some (e', rest @ drop n (record_bytes e))"
    by simp
  with deserialize_record [OF assms(1), of "[]"] have "rest @ drop n (record_bytes e) = []"
    by (metis option.inject prod.inject)
  with assms(2) show False by simp
qed

section \<open>The log\<close>

definition log_bytes :: "IndexEntry list \<Rightarrow> bytes" where
  "log_bytes es = concat (map record_bytes es)"

definition replay_log :: "IndexEntry list \<Rightarrow> tree \<Rightarrow> tree" where
  "replay_log es t = fold apply_record es t"

lemma log_bytes_simps [simp]:
  "log_bytes [] = []" "log_bytes (e # es) = record_bytes e @ log_bytes es"
  "log_bytes (es @ fs) = log_bytes es @ log_bytes fs"
  by (simp_all add: log_bytes_def)

lemma replay_log_simps [simp]:
  "replay_log [] t = t" "replay_log (e # es) t = replay_log es (apply_record e t)"
  "replay_log (es @ fs) t = replay_log fs (replay_log es t)"
  by (simp_all add: replay_log_def)

lemma load_loop_Nil [simp]: "load_loop [] t = ([] @ t, [])"
  by (simp add: load_loop.simps [of "[]"] deserialize_def)

lemma load_loop_None: "deserialize bs = None \<Longrightarrow> load_loop bs t = (t, bs)"
  by (simp add: load_loop.simps [of bs])

lemma load_loop_Some:
  "deserialize bs = Some (e, rest) \<Longrightarrow> load_loop bs t = load_loop rest (apply_record e t)"
  by (simp add: load_loop.simps [of bs])

lemma load_loop_log:
  "list_all key_ok es \<Longrightarrow> load_loop (log_bytes es @ bs) t = load_loop bs (replay_log es t)"
proof (induction es arbitrary: t)
  case Nil
  then show ?case by simp
next
  case (Cons e es)
  then have "deserialize (log_bytes (e # es) @ bs) = Some (e, log_bytes es @ bs)"
    by (simp add: deserialize_record)
  from load_loop_Some [OF this] Cons show ?case by simp
qed

lemma load_loop_append:
  "load_loop xs t = (t', []) \<Longrightarrow> load_loop (xs @ ys) t = load_loop ys t'"
proof (induction xs t rule: load_loop.induct)
  case (1 xs t)
  show ?case
  proof (cases "deserialize xs")
    case None
    with 1(2) show ?thesis by (simp add: load_loop_None)
  next
    case (Some p)
    obtain e rest where p: "p = (e, rest)" by (cases p)
    have "load_loop rest (apply_record e t) = (t', [])"
      using 1(2) Some p by (simp add: load_loop.simps [of xs])
    with 1(1) Some p have "load_loop (rest @ ys) (apply_record e t) = load_loop ys t'"
      by blast
    with Some p show ?thesis
      by (simp add: load_loop.simps [of "xs @ ys"] deserialize_append)
  qed
qed

text \<open>Whatever prefix of a log survives, loading it gives the state after some prefix of the records.\<close>

lemma load_loop_log_prefix:
  assumes "list_all key_ok es"
  shows "\<exists>m. load_loop (take n (log_bytes es)) t
             = (replay_log (take m es) t, drop (length (log_bytes (take m es))) (take n (log_bytes es)))"
  using assms
proof (induction es arbitrary: n t)
  case Nil
  show ?case by simp
next
  case (Cons e es)
  let ?r = "record_bytes e"
  show ?case
  proof (cases "n < length ?r")
    case True
    with Cons.prems have "deserialize (take n (log_bytes (e # es))) = None"
      by (simp add: deserialize_torn)
    then have "load_loop (take n (log_bytes (e # es))) t = (t, take n (log_bytes (e # es)))"
      by (rule load_loop_None)
    then show ?thesis by (intro exI [of _ 0]) simp
  next
    case False
    then have tk: "take n (log_bytes (e # es)) = ?r @ take (n - length ?r) (log_bytes es)" by simp
    from Cons.prems have "key_ok e" by simp
    then have "deserialize (take n (log_bytes (e # es))) = Some (e, take (n - length ?r) (log_bytes es))"
      unfolding tk by (rule deserialize_record)
    then have "load_loop (take n (log_bytes (e # es))) t
             = load_loop (take (n - length ?r) (log_bytes es)) (apply_record e t)"
      by (rule load_loop_Some)
    moreover obtain m where "load_loop (take (n - length ?r) (log_bytes es)) (apply_record e t)
        = (replay_log (take m es) (apply_record e t),
           drop (length (log_bytes (take m es))) (take (n - length ?r) (log_bytes es)))"
      using Cons by auto
    ultimately show ?thesis
      using False by (intro exI [of _ "Suc m"]) (simp add: min_def)
  qed
qed

section \<open>Invariants\<close>

text \<open>
  \<open>im_inv\<close> is what every operation keeps under every outcome of the file system. \<open>im_logged\<close>
  says that the INDEX file, read from the start, gives exactly the tree in memory.
\<close>

definition im_inv :: "IndexManager \<Rightarrow> bool" where
  "im_inv im \<longleftrightarrow> distinct (map fst (memoryTree im))
     \<and> list_all (\<lambda>(k, loc). length k \<le> MAX_KEY_SIZE) (memoryTree im)"

definition im_logged :: "IndexManager \<Rightarrow> bool" where
  "im_logged im \<longleftrightarrow> fs_open (im_index im) \<and> fs_good (im_index im)
     \<and> load_loop (fs_data (im_index im)) [] = (memoryTree im, [])"

definition lookup :: "IndexManager \<Rightarrow> string \<Rightarrow> Location option" where
  "lookup im k = map_of (memoryTree im) k"

lemma im_append_frame [simp]:
  "im_append s e im = (im', s') \<Longrightarrow> memoryTree im' = memoryTree im \<and> im_canFlush im'"
  by (auto simp: im_append_def split: prod.splits)

lemma serialize_ok:
  assumes "fs_open f" and "fs_good f" and "all_ok s"
  shows "\<exists>s'. serialize s e f = (f\<lparr>fs_data := fs_data f @ record_bytes e\<rparr>, s') \<and> all_ok s'"
proof -
  obtain s1 where 1: "fs_append s (header_bytes e) f
      = (f\<lparr>fs_data := fs_data f @ header_bytes e\<rparr>, s1)" "all_ok s1"
    using fs_append_ok [OF assms] by blast
  let ?f1 = "f\<lparr>fs_data := fs_data f @ header_bytes e\<rparr>"
  obtain s2 where 2: "fs_append s1 (key_bytes e) ?f1
      = (?f1\<lparr>fs_data := fs_data ?f1 @ key_bytes e\<rparr>, s2)" "all_ok s2"
    using fs_append_ok [of ?f1 s1 "key_bytes e"] assms 1 by auto
  show ?thesis
  proof (cases "0 < klen e")
    case True
    with 1 2 show ?thesis by (simp add: serialize_def record_bytes_def)
  next
    case False
    then have "klen e = 0" using word_coorder.not_eq_extremum [of "klen e"] by blast
    then have "key_bytes e = []" by (simp add: key_bytes_def)
    with False 1 show ?thesis by (simp add: serialize_def record_bytes_def)
  qed
qed

lemma im_append_ok:
  assumes "fs_open (im_index im)" and "all_ok s"
  shows "\<exists>s'. im_append s e im
     = (im\<lparr>im_index := (fs_clear (im_index im))\<lparr>fs_data := fs_data (im_index im) @ record_bytes e\<rparr>,
           im_canFlush := True\<rparr>, s') \<and> all_ok s'"
proof -
  have "fs_open (fs_clear (im_index im))" "fs_good (fs_clear (im_index im))"
    using assms by simp_all
  from serialize_ok [OF this assms(2), of e] show ?thesis
    by (auto simp: im_append_def)
qed

lemma serialize_all_ok:
  assumes "fs_open f" and "fs_good f" and "all_ok s"
  shows "\<exists>s'. serialize_all s es f = (f\<lparr>fs_data := fs_data f @ log_bytes es\<rparr>, s') \<and> all_ok s'"
  using assms
proof (induction es arbitrary: f s)
  case Nil
  then show ?case by simp
next
  case (Cons e es)
  obtain s1 where 1: "serialize s e f = (f\<lparr>fs_data := fs_data f @ record_bytes e\<rparr>, s1)" "all_ok s1"
    using serialize_ok [OF Cons.prems] by blast
  with Cons.IH [of "f\<lparr>fs_data := fs_data f @ record_bytes e\<rparr>" s1] Cons.prems
  show ?case by auto
qed

section \<open>Scans\<close>

lemma toEntry_simps [simp]:
  "ie_key (toEntry k loc) = k" "loc_of (toEntry k loc) = loc" "ie_isTombstone (toEntry k loc) = False"
  "ie_segmentId (toEntry k loc) = loc_segmentId loc" "ie_offset (toEntry k loc) = loc_offset loc"
  "ie_size (toEntry k loc) = loc_size loc"
  by (simp_all add: toEntry_def loc_of_def)

lemma toEntry_loc_of: "\<not> ie_isTombstone e \<Longrightarrow> toEntry (ie_key e) (loc_of e) = e"
  by (simp add: toEntry_def loc_of_def)

lemma invalid_entry_simps [simp]:
  "ie_segmentId invalid_entry = INVALID_SEGMENT_ID" "ie_isTombstone invalid_entry = False"
  by (simp_all add: invalid_entry_def)

definition tree_entries :: "tree \<Rightarrow> IndexEntry list" where
  "tree_entries t = map (\<lambda>(k, loc). toEntry k loc) t"

lemma getAll_loop_all:
  "n + length t \<le> lim \<Longrightarrow> getAll_loop lim (\<lambda>_. False) n t = tree_entries t"
  by (induction t arbitrary: n) (auto simp: tree_entries_def)

lemma getAll_all:
  "length (memoryTree im) \<le> unat UINT_MAX \<Longrightarrow>
     getAll UINT_MAX (\<lambda>_. False) im = tree_entries (memoryTree im)"
  by (simp add: getAll_def getAll_loop_all)

lemma find_loop_all: "find_loop p (\<lambda>_. False) n t = filter (\<lambda>e. p (ie_key e)) (tree_entries t)"
  by (induction t arbitrary: n) (auto simp: tree_entries_def)

lemma findMatching_all:
  "findMatching p (\<lambda>_. False) im = filter (\<lambda>e. p (ie_key e)) (tree_entries (memoryTree im))"
  by (simp add: findMatching_def find_loop_all)

text \<open>Stopping early only drops a suffix of the matches.\<close>

lemma find_loop_prefix: "\<exists>m. find_loop p stop n t = take m (filter (\<lambda>e. p (ie_key e)) (tree_entries t))"
proof (induction t arbitrary: n)
  case Nil
  show ?case by (simp add: tree_entries_def)
next
  case (Cons x t)
  obtain k loc where x: "x = (k, loc)" by (cases x)
  obtain m where m: "find_loop p stop (Suc n) t = take m (filter (\<lambda>e. p (ie_key e)) (tree_entries t))"
    using Cons by blast
  show ?case
  proof (cases "stop n")
    case True
    with x show ?thesis by (intro exI [of _ 0]) simp
  next
    case False
    show ?thesis
    proof (cases "p k")
      case True
      with False x m show ?thesis by (intro exI [of _ "Suc m"]) (simp add: tree_entries_def)
    next
      case np: False
      with False x m show ?thesis by (intro exI [of _ m]) (simp add: tree_entries_def)
    qed
  qed
qed

lemma set_tree_entries:
  "distinct (map fst t) \<Longrightarrow> e \<in> set (tree_entries t) \<longleftrightarrow>
     map_of t (ie_key e) = Some (loc_of e) \<and> \<not> ie_isTombstone e"
proof -
  assume d: "distinct (map fst t)"
  have "e \<in> set (tree_entries t) \<longleftrightarrow> (ie_key e, loc_of e) \<in> set t \<and> \<not> ie_isTombstone e"
    by (force simp: tree_entries_def dest: toEntry_loc_of)
  with d show ?thesis by (simp add: map_of_eq_Some_iff)
qed

lemma keys_tree_entries [simp]: "map ie_key (tree_entries t) = map fst t"
  by (induction t) (auto simp: tree_entries_def)

lemma replay_tree_entries:
  "distinct (map fst (t0 @ t)) \<Longrightarrow> replay_log (tree_entries t) t0 = t0 @ t"
proof (induction t arbitrary: t0)
  case Nil
  show ?case by (simp add: tree_entries_def)
next
  case (Cons x t)
  obtain k loc where x: "x = (k, loc)" by (cases x)
  have "AList.update k loc t0 = t0 @ [(k, loc)]"
    using Cons.prems x by (induction t0) auto
  with Cons.IH [of "t0 @ [(k, loc)]"] Cons.prems x show ?case
    by (simp add: tree_entries_def apply_record_def)
qed

section \<open>Preservation\<close>

lemma im_insert_tree:
  "im_insert s e im = (im', s') \<Longrightarrow>
     memoryTree im' = AList.update (ie_key e) (loc_of e) (memoryTree im)"
  by (auto simp: im_insert_def split: prod.splits)

lemma im_update_tree:
  "im_update s k e im = (im', s') \<Longrightarrow>
     memoryTree im' = (if map_of (memoryTree im) k = None then memoryTree im
                       else if ie_isTombstone e then AList.delete k (memoryTree im)
                       else AList.update k (loc_of e) (memoryTree im))"
  by (auto simp: im_update_def split: prod.splits option.splits if_splits)

lemma im_compact_tree: "im_compact s im = (es, im', s') \<Longrightarrow> memoryTree im' = memoryTree im"
  by (auto simp: im_compact_def Let_def split: prod.splits if_splits)

lemma im_compact_entries:
  "im_compact s im = (es, im', s') \<Longrightarrow> es = getAll UINT_MAX (\<lambda>_. False) im"
  by (auto simp: im_compact_def Let_def split: prod.splits if_splits)

lemma im_flush_tree: "im_flush s im = (b, im', s') \<Longrightarrow> memoryTree im' = memoryTree im"
  by (auto simp: im_flush_def split: prod.splits if_splits)

lemma im_inv_cong: "memoryTree im' = memoryTree im \<Longrightarrow> im_inv im \<Longrightarrow> im_inv im'"
  by (simp add: im_inv_def)

lemma im_insert_inv:
  assumes "im_inv im" and "key_ok e" and "im_insert s e im = (im', s')"
  shows "im_inv im'"
proof -
  let ?t = "AList.update (ie_key e) (loc_of e) (memoryTree im)"
  have "length k \<le> MAX_KEY_SIZE" if "(k, l) \<in> set ?t" for k l
  proof -
    have "k \<in> fst ` set ?t" using that by force
    then have "k = ie_key e \<or> k \<in> fst ` set (memoryTree im)" by (auto simp: dom_update)
    with assms(1,2) show ?thesis by (auto simp: im_inv_def key_ok_def list_all_iff)
  qed
  with assms(1) show ?thesis
    by (auto simp: im_inv_def im_insert_tree [OF assms(3)] list_all_iff)
qed

lemma im_update_inv:
  assumes "im_inv im" and "im_update s k e im = (im', s')"
  shows "im_inv im'"
proof -
  have len: "length k' \<le> MAX_KEY_SIZE" if "map_of (memoryTree im) k' = Some l" for k' l
    using that assms(1) by (auto simp: im_inv_def list_all_iff dest: map_of_SomeD)
  have "length k' \<le> MAX_KEY_SIZE" if "(k', l) \<in> set (memoryTree im')" for k' l
  proof -
    have "distinct (map fst (memoryTree im'))"
      using assms(1) by (auto simp: im_inv_def im_update_tree [OF assms(2)])
    then have "map_of (memoryTree im') k' = Some l"
      using that by (simp add: map_of_eq_Some_iff)
    then have "map_of (memoryTree im) k' \<noteq> None"
      by (auto simp: im_update_tree [OF assms(2)] split: if_splits)
    then show ?thesis using len by blast
  qed
  moreover have "distinct (map fst (memoryTree im'))"
    using assms(1) by (simp add: im_inv_def im_update_tree [OF assms(2)])
  ultimately show ?thesis
    by (auto simp: im_inv_def list_all_iff)
qed

lemma im_insert_logged:
  assumes "im_logged im" and "key_ok e" and "\<not> ie_isTombstone e" and "all_ok s"
    and "im_insert s e im = (im', s')"
  shows "im_logged im' \<and> all_ok s'"
proof -
  obtain s1 where 1: "im_append s e im
     = (im\<lparr>im_index := (fs_clear (im_index im))\<lparr>fs_data := fs_data (im_index im) @ record_bytes e\<rparr>,
           im_canFlush := True\<rparr>, s1)" "all_ok s1"
    using im_append_ok [of im s e] assms by (auto simp: im_logged_def)
  have "load_loop (fs_data (im_index im) @ record_bytes e) []
        = load_loop (record_bytes e) (memoryTree im)"
    using assms(1) by (simp add: im_logged_def load_loop_append)
  also have "\<dots> = (AList.update (ie_key e) (loc_of e) (memoryTree im), [])"
    using load_loop_log [of "[e]" "[]"] assms(2,3) by (simp add: apply_record_def)
  finally show ?thesis
    using 1 assms by (auto simp: im_insert_def im_logged_def)
qed

lemma im_update_logged:
  assumes "im_logged im" and "im_inv im" and "all_ok s" and "im_update s k e im = (im', s')"
  shows "im_logged im' \<and> all_ok s'"
proof (cases "map_of (memoryTree im) k")
  case None
  with assms show ?thesis by (simp add: im_update_def)
next
  case (Some old)
  let ?e = "e\<lparr>ie_key := k\<rparr>"
  have ok: "key_ok ?e"
    using Some assms(2) by (auto simp: key_ok_def im_inv_def list_all_iff dest: map_of_SomeD)
  obtain s1 where 1: "im_append s ?e im
     = (im\<lparr>im_index := (fs_clear (im_index im))\<lparr>fs_data := fs_data (im_index im) @ record_bytes ?e\<rparr>,
           im_canFlush := True\<rparr>, s1)" "all_ok s1"
    using im_append_ok [of im s ?e] assms by (auto simp: im_logged_def)
  have loc: "loc_of ?e = loc_of e" by (simp add: loc_of_def)
  have "load_loop (fs_data (im_index im) @ record_bytes ?e) []
        = load_loop (record_bytes ?e) (memoryTree im)"
    using assms(1) by (simp add: im_logged_def load_loop_append)
  also have "\<dots> = (apply_record ?e (memoryTree im), [])"
    using load_loop_log [of "[?e]" "[]"] ok by simp
  finally show ?thesis
    using 1 Some assms by (auto simp: im_update_def im_logged_def apply_record_def loc)
qed

lemma im_flush_logged:
  assumes "im_logged im" and "all_ok s" and "im_flush s im = (b, im', s')"
  shows "im_logged im' \<and> all_ok s' \<and> b \<and> (im_canFlush im \<longrightarrow> fs_disk (im_index im') = fs_data (im_index im'))"
  using assms flush_and_fsync_ok [of "im_index im" s]
  by (auto simp: im_flush_def im_logged_def split: if_splits)

lemma key_ok_entries:
  "im_inv im \<Longrightarrow> list_all key_ok (tree_entries (memoryTree im))"
  by (auto simp: im_inv_def list_all_iff tree_entries_def key_ok_def)

text \<open>A successful compaction leaves a file that holds exactly the live entries, synced.\<close>

lemma im_compact_ok:
  assumes "im_inv im" and "length (memoryTree im) \<le> unat UINT_MAX" and "all_ok s"
    and "im_compact s im = (es, im', s')"
  shows "fs_data (im_index im') = log_bytes (tree_entries (memoryTree im))
       \<and> fs_disk (im_index im') = fs_data (im_index im') \<and> im_logged im' \<and> all_ok s'"
proof -
  let ?es = "tree_entries (memoryTree im)"
  obtain r s0 where 0: "io_next s = (r, s0)" by (cases "io_next s")
  have r: "r = IoOk" "all_ok s0" using all_ok_io_next [OF assms(3) 0] by auto
  obtain s1 where 1: "serialize_all s0 ?es (fs_fresh True [] [])
      = ((fs_fresh True [] [])\<lparr>fs_data := log_bytes ?es\<rparr>, s1)" "all_ok s1"
    using serialize_all_ok [of "fs_fresh True [] []" s0 ?es] r by (auto simp: fs_fresh_def)
  let ?tmp = "(fs_fresh True [] [])\<lparr>fs_data := log_bytes ?es\<rparr>"
  obtain s2 where 2: "flush_and_fsync s1 ?tmp = (True, ?tmp\<lparr>fs_disk := log_bytes ?es\<rparr>, s2)" "all_ok s2"
    using flush_and_fsync_ok [of ?tmp s1] 1 by (auto simp: fs_fresh_def)
  obtain q s3 where 3: "io_next s2 = (q, s3)" by (cases "io_next s2")
  have q: "q = IoOk" "all_ok s3" using all_ok_io_next [OF 2(2) 3] by auto
  obtain p s4 where 4: "io_next s3 = (p, s4)" by (cases "io_next s3")
  have p: "p = IoOk" "all_ok s4" using all_ok_io_next [OF q(2) 4] by auto
  have im': "im' = im\<lparr>im_index := fs_fresh True (log_bytes ?es) (log_bytes ?es), im_canFlush := False\<rparr>"
    and s': "s' = s4"
    using assms(4) 0 1 2 3 4 r q p getAll_all [OF assms(2)]
    by (auto simp: im_compact_def Let_def fs_fresh_def)
  have "load_loop (log_bytes ?es) [] = (memoryTree im, [])"
    using load_loop_log [OF key_ok_entries [OF assms(1)], of "[]" "[]"]
      replay_tree_entries [of "[]" "memoryTree im"] assms(1) by (simp add: im_inv_def)
  with p show ?thesis by (simp add: im' s' im_logged_def fs_fresh_def)
qed

section \<open>Scripts without failures\<close>

lemma im_append_calm [calm]: "im_append s e im = (im', s') \<Longrightarrow> all_ok s \<Longrightarrow> all_ok s'"
  by (auto simp: im_append_def serialize_def split: prod.splits if_splits dest: calm)

lemma im_insert_calm [calm]: "im_insert s e im = (im', s') \<Longrightarrow> all_ok s \<Longrightarrow> all_ok s'"
  by (auto simp: im_insert_def split: prod.splits dest: calm)

lemma im_update_calm [calm]: "im_update s k e im = (im', s') \<Longrightarrow> all_ok s \<Longrightarrow> all_ok s'"
  by (auto simp: im_update_def split: prod.splits option.splits dest: calm)

lemma im_flush_calm [calm]: "im_flush s im = (b, im', s') \<Longrightarrow> all_ok s \<Longrightarrow> all_ok s'"
  by (auto simp: im_flush_def split: prod.splits if_splits dest: calm)

section \<open>The contract of the index\<close>

text \<open>
  What a shard relies on: a lookup after an insert, a lookup after a tombstone, and that the
  operations keep the invariant, whatever the file system answers.
\<close>

locale key_index =
  fixes lkp :: "'i \<Rightarrow> string \<Rightarrow> Location option"
    and ins :: "ios \<Rightarrow> IndexEntry \<Rightarrow> 'i \<Rightarrow> 'i \<times> ios"
    and upd :: "ios \<Rightarrow> string \<Rightarrow> IndexEntry \<Rightarrow> 'i \<Rightarrow> 'i \<times> ios"
    and invar :: "'i \<Rightarrow> bool"
  assumes lkp_ins: "ins s e i = (i', s') \<Longrightarrow> lkp i' = (lkp i)(ie_key e \<mapsto> loc_of e)"
    and lkp_upd: "upd s k e i = (i', s') \<Longrightarrow> ie_isTombstone e \<Longrightarrow> lkp i' = (lkp i)(k := None)"
    and invar_ins: "invar i \<Longrightarrow> key_ok e \<Longrightarrow> ins s e i = (i', s') \<Longrightarrow> invar i'"
    and invar_upd: "invar i \<Longrightarrow> upd s k e i = (i', s') \<Longrightarrow> invar i'"
begin

text \<open>Tombstoning a list of entries, one after the other, removes exactly their keys.\<close>

primrec bury :: "ios \<Rightarrow> IndexEntry list \<Rightarrow> 'i \<Rightarrow> 'i \<times> ios" where
  "bury s [] i = (i, s)"
| "bury s (e # es) i =
     (case upd s (ie_key e) (e\<lparr>ie_isTombstone := True\<rparr>) i of (i1, s1) \<Rightarrow> bury s1 es i1)"

lemma bury_lkp:
  "bury s es i = (i', s') \<Longrightarrow> lkp i' = lkp i |` (- ie_key ` set es)"
proof (induction es arbitrary: s i)
  case Nil
  then show ?case by simp
next
  case (Cons e es)
  obtain i1 s1 where 1: "upd s (ie_key e) (e\<lparr>ie_isTombstone := True\<rparr>) i = (i1, s1)"
    by (cases "upd s (ie_key e) (e\<lparr>ie_isTombstone := True\<rparr>) i")
  with Cons.prems have "bury s1 es i1 = (i', s')" by simp
  then have "lkp i' = lkp i1 |` (- ie_key ` set es)" by (rule Cons.IH)
  moreover have "lkp i1 = (lkp i)(ie_key e := None)" using lkp_upd [OF 1] by simp
  ultimately show ?case by (auto simp: restrict_map_def fun_eq_iff)
qed

lemma bury_invar: "bury s es i = (i', s') \<Longrightarrow> invar i \<Longrightarrow> invar i'"
proof (induction es arbitrary: s i)
  case Nil
  then show ?case by simp
next
  case (Cons e es)
  then show ?case by (auto split: prod.splits dest: invar_upd)
qed

end

interpretation ix: key_index lookup im_insert im_update im_inv
proof unfold_locales
  show "lookup i' = (lookup i)(ie_key e \<mapsto> loc_of e)" if "im_insert s e i = (i', s')" for s e i i' s'
    using im_insert_tree [OF that] by (auto simp: lookup_def fun_eq_iff)
  show "lookup i' = (lookup i)(k := None)"
    if "im_update s k e i = (i', s')" "ie_isTombstone e" for s k e i i' s'
    using im_update_tree [OF that(1)] that(2) by (auto simp: lookup_def fun_eq_iff)
qed (auto intro: im_insert_inv im_update_inv)

end
