(* ===== verification/LRUCache.thy ===== *)
theory LRUCache
  imports IndexManager
begin

text \<open>
  \<open>LRUCache.hpp\<close> and \<open>LRUCache.cpp\<close>. The \<open>std::list\<close> of keys is a list of nodes: an identity and
  the key it holds. A stored iterator is the identity of a node; \<open>next_node\<close> is the identity of
  the next node to be allocated. The invariant says that every stored iterator refers to a live
  node that holds its own key, which is what makes each \<open>erase\<close> through an iterator safe. The
  specification is the list of cached entries, most recently used first.
\<close>

record CacheEntry =
  ce_index :: IndexEntry
  ce_value :: string

record LRUCache =
  capacity :: u32
  lru_list :: "(nat \<times> string) list"
  cmap :: "(string \<times> (CacheEntry \<times> nat)) list"
  next_node :: nat

definition new_LRUCache :: "u32 \<Rightarrow> LRUCache" where
  "new_LRUCache cap = \<lparr>capacity = cap, lru_list = [], cmap = [], next_node = 0\<rparr>"

definition erase_node :: "nat \<Rightarrow> (nat \<times> string) list \<Rightarrow> (nat \<times> string) list" where
  "erase_node it l = filter (\<lambda>x. fst x \<noteq> it) l"

definition cache_miss :: CacheEntry where
  "cache_miss = \<lparr>ce_index = invalid_entry, ce_value = ''''\<rparr>"

definition cache_get :: "string \<Rightarrow> LRUCache \<Rightarrow> CacheEntry \<times> LRUCache" where
  "cache_get key c =
     (case map_of (cmap c) key of
        None \<Rightarrow> (cache_miss, c)
      | Some (ce, it) \<Rightarrow>
          let n = next_node c in
          (ce, c\<lparr>lru_list := (n, key) # erase_node it (lru_list c),
                 cmap := AList.update key (ce, n) (cmap c), next_node := Suc n\<rparr>))"

text \<open>
  The last node is dropped when the cache is full. \<open>back()\<close> of an empty list is undefined in C++;
  the first branch is unreachable under the invariant (\<open>full_nonempty\<close> below).
\<close>

definition evict_last :: "LRUCache \<Rightarrow> LRUCache" where
  "evict_last c =
     (if lru_list c = [] then c
      else c\<lparr>lru_list := butlast (lru_list c),
             cmap := AList.delete (snd (last (lru_list c))) (cmap c)\<rparr>)"

definition cache_put :: "IndexEntry \<Rightarrow> string \<Rightarrow> LRUCache \<Rightarrow> LRUCache" where
  "cache_put entry v c =
     (let key = ie_key entry; n = next_node c in
      if capacity c = 0 then c
      else
        let c1 = (case map_of (cmap c) key of
                    Some (ce, it) \<Rightarrow> c\<lparr>lru_list := erase_node it (lru_list c)\<rparr>
                  | None \<Rightarrow> if unat (capacity c) \<le> length (cmap c) then evict_last c else c)
        in c1\<lparr>lru_list := (n, key) # lru_list c1,
              cmap := AList.update key (\<lparr>ce_index = entry, ce_value = v\<rparr>, n) (cmap c1),
              next_node := Suc n\<rparr>)"

definition cache_remove :: "string \<Rightarrow> LRUCache \<Rightarrow> LRUCache" where
  "cache_remove key c =
     (case map_of (cmap c) key of
        None \<Rightarrow> c
      | Some (ce, it) \<Rightarrow> c\<lparr>lru_list := erase_node it (lru_list c), cmap := AList.delete key (cmap c)\<rparr>)"

text \<open>The \<open>while\<close> loop of \<open>resize\<close>; every iteration drops the last node of a non-empty list.\<close>

function shrink :: "LRUCache \<Rightarrow> LRUCache" where
  "shrink c =
     (if length (cmap c) > unat (capacity c) \<and> lru_list c \<noteq> [] then shrink (evict_last c) else c)"
  by pat_completeness auto
termination
  by (relation "measure (\<lambda>c. length (lru_list c))") (auto simp: evict_last_def)

declare shrink.simps [simp del]

definition cache_resize :: "u32 \<Rightarrow> LRUCache \<Rightarrow> LRUCache" where
  "cache_resize cap c = shrink (c\<lparr>capacity := cap\<rparr>)"

section \<open>Invariant and specification\<close>

definition lru_nodes_ok :: "LRUCache \<Rightarrow> bool" where
  "lru_nodes_ok c \<longleftrightarrow>
     distinct (map fst (lru_list c)) \<and> distinct (map snd (lru_list c)) \<and> distinct (map fst (cmap c))
     \<and> set (map fst (cmap c)) = set (map snd (lru_list c))
     \<and> list_all (\<lambda>(n, k). map_option snd (map_of (cmap c) k) = Some n \<and> n < next_node c) (lru_list c)"

definition lru_inv :: "LRUCache \<Rightarrow> bool" where
  "lru_inv c \<longleftrightarrow> lru_nodes_ok c \<and> length (cmap c) \<le> unat (capacity c)"

definition peek :: "LRUCache \<Rightarrow> string \<Rightarrow> CacheEntry option" where
  "peek c k = map_option fst (map_of (cmap c) k)"

definition recency :: "LRUCache \<Rightarrow> (string \<times> CacheEntry) list" where
  "recency c = map (\<lambda>(n, k). (k, fst (the (map_of (cmap c) k)))) (lru_list c)"

definition others :: "string \<Rightarrow> (string \<times> 'a) list \<Rightarrow> (string \<times> 'a) list" where
  "others k r = filter (\<lambda>p. fst p \<noteq> k) r"

definition spec_get :: "string \<Rightarrow> (string \<times> 'a) list \<Rightarrow> (string \<times> 'a) list" where
  "spec_get k r = (case map_of r k of None \<Rightarrow> r | Some x \<Rightarrow> (k, x) # others k r)"

definition spec_put :: "nat \<Rightarrow> string \<Rightarrow> 'a \<Rightarrow> (string \<times> 'a) list \<Rightarrow> (string \<times> 'a) list" where
  "spec_put cap k x r = (if cap = 0 then r else take cap ((k, x) # others k r))"

lemma nodes_okD:
  assumes "lru_nodes_ok c"
  shows "distinct (map fst (lru_list c))" and "distinct (map snd (lru_list c))"
    and "distinct (map fst (cmap c))" and "fst ` set (cmap c) = snd ` set (lru_list c)"
    and "(n, k) \<in> set (lru_list c) \<Longrightarrow> \<exists>ce. map_of (cmap c) k = Some (ce, n)"
    and "(n, k) \<in> set (lru_list c) \<Longrightarrow> n < next_node c"
  using assms by (auto simp: lru_nodes_ok_def list_all_iff)

text \<open>Every stored iterator refers to a live node that holds the right key.\<close>

lemma iterator_live:
  assumes "lru_nodes_ok c" and "map_of (cmap c) k = Some (ce, it)"
  shows "(it, k) \<in> set (lru_list c)"
proof -
  have "k \<in> snd ` set (lru_list c)"
    using assms nodes_okD(4) [OF assms(1)] by (metis fst_conv image_eqI map_of_SomeD)
  then obtain n where n: "(n, k) \<in> set (lru_list c)" by auto
  with nodes_okD(5) [OF assms(1) n] assms(2) show ?thesis by auto
qed

lemma erase_node_key:
  assumes "lru_nodes_ok c" and "map_of (cmap c) k = Some (ce, it)"
  shows "erase_node it (lru_list c) = filter (\<lambda>x. snd x \<noteq> k) (lru_list c)"
  unfolding erase_node_def
proof (rule filter_cong [OF refl])
  fix x assume x: "x \<in> set (lru_list c)"
  obtain n k' where x': "x = (n, k')" by (cases x)
  have live: "(it, k) \<in> set (lru_list c)" by (rule iterator_live [OF assms])
  from x x' obtain ce' where "map_of (cmap c) k' = Some (ce', n)"
    using nodes_okD(5) [OF assms(1)] by blast
  moreover have "k' = k" if "n = it"
    using x x' live that nodes_okD(1) [OF assms(1)]
    by (metis eq_key_imp_eq_value)
  ultimately show "(fst x \<noteq> it) = (snd x \<noteq> k)"
    using x' assms(2) by auto
qed

lemma length_cmap: "lru_nodes_ok c \<Longrightarrow> length (cmap c) = length (lru_list c)"
proof -
  assume ok: "lru_nodes_ok c"
  have "length (cmap c) = card (fst ` set (cmap c))"
    using distinct_card [OF nodes_okD(3) [OF ok]] by simp
  also have "\<dots> = card (set (map snd (lru_list c)))"
    using nodes_okD(4) [OF ok] by simp
  also have "\<dots> = length (lru_list c)"
    using distinct_card [OF nodes_okD(2) [OF ok]] by simp
  finally show ?thesis .
qed

lemma full_nonempty:
  "lru_nodes_ok c \<Longrightarrow> capacity c \<noteq> 0 \<Longrightarrow> unat (capacity c) \<le> length (cmap c) \<Longrightarrow> lru_list c \<noteq> []"
  using length_cmap [of c] by (auto simp: unat_eq_zero)

lemma keys_recency [simp]: "map fst (recency c) = map snd (lru_list c)"
  by (simp add: recency_def o_def split_beta)

lemma recency_lookup: "lru_nodes_ok c \<Longrightarrow> map_of (recency c) k = peek c k"
proof -
  assume ok: "lru_nodes_ok c"
  have d: "distinct (map fst (recency c))" using nodes_okD(2) [OF ok] by simp
  show ?thesis
  proof (cases "map_of (cmap c) k")
    case None
    then have "k \<notin> snd ` set (lru_list c)"
      using nodes_okD(4) [OF ok] by (metis map_of_eq_None_iff)
    then have "k \<notin> fst ` set (recency c)"
      using arg_cong [OF keys_recency [of c], of set] by (simp only: set_map not_False_eq_True)
    then have "map_of (recency c) k = None" by (simp add: map_of_eq_None_iff)
    with None show ?thesis by (simp add: peek_def)
  next
    case (Some p)
    obtain ce it where p: "p = (ce, it)" by (cases p)
    with Some have "(it, k) \<in> set (lru_list c)" using iterator_live [OF ok] by simp
    then have "(k, ce) \<in> set (recency c)" using Some p by (force simp: recency_def)
    with d Some p show ?thesis by (simp add: peek_def map_of_eq_Some_iff)
  qed
qed

section \<open>Unlinking and linking a key\<close>

text \<open>
  Every operation is a combination of two changes: a key leaves both structures, or a key that is
  in neither enters both at the front. Only the contents of the map matter, not its order.
\<close>

lemma nodes_ok_cong:
  assumes "lru_nodes_ok c" and "lru_list c' = lru_list c" and "map_of (cmap c') = map_of (cmap c)"
    and "distinct (map fst (cmap c'))" and "next_node c' = next_node c"
  shows "lru_nodes_ok c' \<and> recency c' = recency c"
proof -
  have "fst ` set (cmap c') = fst ` set (cmap c)"
    using assms(3) by (metis dom_map_of_conv_image_fst)
  with assms show ?thesis by (simp add: lru_nodes_ok_def recency_def)
qed

definition unlink :: "string \<Rightarrow> LRUCache \<Rightarrow> LRUCache" where
  "unlink k c = c\<lparr>lru_list := filter (\<lambda>x. snd x \<noteq> k) (lru_list c), cmap := AList.delete k (cmap c)\<rparr>"

definition link :: "string \<Rightarrow> CacheEntry \<Rightarrow> LRUCache \<Rightarrow> LRUCache" where
  "link k ce c = c\<lparr>lru_list := (next_node c, k) # lru_list c,
                   cmap := AList.update k (ce, next_node c) (cmap c), next_node := Suc (next_node c)\<rparr>"

lemma unlink_ok:
  assumes "lru_nodes_ok c"
  shows "lru_nodes_ok (unlink k c)" and "recency (unlink k c) = others k (recency c)"
proof -
  have "distinct (map fst (filter (\<lambda>x. snd x \<noteq> k) (lru_list c)))"
    and "distinct (map snd (filter (\<lambda>x. snd x \<noteq> k) (lru_list c)))"
    using nodes_okD(1,2) [OF assms] by (auto intro: distinct_map_filter)
  moreover have "fst ` set (AList.delete k (cmap c)) = fst ` set (cmap c) - {k}"
    by (auto simp: AList.delete_eq)
  ultimately show "lru_nodes_ok (unlink k c)"
    using assms by (auto simp: lru_nodes_ok_def unlink_def list_all_iff)
  show "recency (unlink k c) = others k (recency c)"
    unfolding recency_def unlink_def others_def by (induction "lru_list c") (auto simp: filter_map o_def split_beta intro!: map_cong)
qed

lemma link_ok:
  assumes "lru_nodes_ok c" and "map_of (cmap c) k = None"
  shows "lru_nodes_ok (link k ce c)" and "recency (link k ce c) = (k, ce) # recency c"
proof -
  have new: "k \<notin> snd ` set (lru_list c)"
    using assms nodes_okD(4) [OF assms(1)] by (metis map_of_eq_None_iff)
  have fresh: "next_node c \<notin> fst ` set (lru_list c)"
    using nodes_okD(6) [OF assms(1)] by fastforce
  have old: "(n, k') \<in> set (lru_list c) \<Longrightarrow> k' \<noteq> k" for n k'
    using new by force
  show "lru_nodes_ok (link k ce c)"
    using assms(1) new fresh old
    by (auto simp: lru_nodes_ok_def link_def list_all_iff dom_update split: prod.splits
             dest!: bspec intro: less_SucI)
  show "recency (link k ce c) = (k, ce) # recency c"
    using old by (auto simp: recency_def link_def)
qed

lemma peek_link [simp]: "peek (link k ce c) = (peek c)(k \<mapsto> ce)"
  by (auto simp: peek_def link_def fun_eq_iff)

lemma peek_unlink [simp]: "peek (unlink k c) = (peek c)(k := None)"
  by (auto simp: peek_def unlink_def fun_eq_iff)

lemma length_unlink:
  "lru_nodes_ok c \<Longrightarrow> map_of (cmap c) k = Some p \<Longrightarrow> Suc (length (cmap (unlink k c))) = length (cmap c)"
  by (simp add: unlink_def length_delete_present nodes_okD(3))

lemma evict_last_unlink:
  assumes "lru_nodes_ok c" and "lru_list c \<noteq> []"
  shows "evict_last c = unlink (snd (last (lru_list c))) c"
    and "recency (evict_last c) = butlast (recency c)"
    and "\<exists>p. map_of (cmap c) (snd (last (lru_list c))) = Some p"
proof -
  let ?l = "lru_list c" and ?k = "snd (last (lru_list c))"
  have split: "?l = butlast ?l @ [last ?l]" using assms(2) by simp
  have "distinct (map snd (butlast ?l @ [last ?l]))"
    using nodes_okD(2) [OF assms(1)] split by simp
  then have "?k \<notin> snd ` set (butlast ?l)" by simp
  then have "filter (\<lambda>x. snd x \<noteq> ?k) (butlast ?l) = butlast ?l"
    by (intro filter_True ballI) (metis image_eqI)
  then have f: "filter (\<lambda>x. snd x \<noteq> ?k) ?l = butlast ?l"
    by (subst split) simp
  then show e: "evict_last c = unlink ?k c"
    using assms(2) by (simp add: evict_last_def unlink_def)
  have "others ?k (recency c) = map (\<lambda>(n, k). (k, fst (the (map_of (cmap c) k)))) (filter (\<lambda>x. snd x \<noteq> ?k) ?l)"
    by (simp add: others_def recency_def filter_map o_def split_beta)
  also have "\<dots> = butlast (recency c)"
    by (simp add: f recency_def map_butlast)
  finally show "recency (evict_last c) = butlast (recency c)"
    using unlink_ok(2) [OF assms(1)] e by simp
  have "last ?l \<in> set ?l" using assms(2) by simp
  then show "\<exists>p. map_of (cmap c) ?k = Some p"
    using nodes_okD(5) [OF assms(1), of "fst (last ?l)" ?k] by auto
qed

section \<open>The operations refine the specification\<close>

lemma inv_nodes: "lru_inv c \<Longrightarrow> lru_nodes_ok c"
  by (simp add: lru_inv_def)

lemma nodes_ok_capacity [simp]: "lru_nodes_ok (c\<lparr>capacity := n\<rparr>) = lru_nodes_ok c"
  by (simp add: lru_nodes_ok_def)

lemma recency_capacity [simp]: "recency (c\<lparr>capacity := n\<rparr>) = recency c"
  by (simp add: recency_def)

lemma length_recency [simp]: "length (recency c) = length (lru_list c)"
  by (simp add: recency_def)

text \<open>A hit relinks the key at the front.\<close>

lemma relink:
  assumes "lru_nodes_ok c" and "map_of (cmap c) k = Some (ce, it)"
    and "lru_list c' = (next_node c, k) # erase_node it (lru_list c)"
    and "cmap c' = AList.update k (ce', next_node c) (cmap c)" and "next_node c' = Suc (next_node c)"
  shows "lru_nodes_ok c'" and "recency c' = (k, ce') # others k (recency c)"
    and "length (cmap c') = length (cmap c)"
proof -
  let ?d = "link k ce' (unlink k c)"
  have u: "lru_nodes_ok (unlink k c)" "map_of (cmap (unlink k c)) k = None"
    using unlink_ok(1) [OF assms(1)] by (simp_all add: unlink_def)
  have "map_of (cmap c') = map_of (cmap ?d)"
    by (auto simp: assms(4) link_def unlink_def fun_eq_iff)
  moreover have "lru_list c' = lru_list ?d" and "next_node c' = next_node ?d"
    using assms(3,5) erase_node_key [OF assms(1,2)] by (simp_all add: link_def unlink_def)
  moreover have "distinct (map fst (cmap c'))"
    using nodes_okD(3) [OF assms(1)] by (simp add: assms(4))
  ultimately show "lru_nodes_ok c'" and "recency c' = (k, ce') # others k (recency c)"
    using nodes_ok_cong [OF link_ok(1) [OF u]] link_ok(2) [OF u] unlink_ok(2) [OF assms(1)]
    by metis+
  have "k \<in> set (map fst (cmap c))"
    using assms(2) by (metis image_set image_eqI fst_conv map_of_SomeD)
  then have "map fst (cmap c') = map fst (cmap c)"
    by (simp add: assms(4) update_keys)
  then show "length (cmap c') = length (cmap c)" by (metis length_map)
qed

lemma cache_get_refines:
  assumes "lru_inv c" and "cache_get k c = (ce, c')"
  shows "lru_inv c'" and "recency c' = spec_get k (recency c)"
    and "ce = (case peek c k of None \<Rightarrow> cache_miss | Some x \<Rightarrow> x)" and "peek c' = peek c"
proof -
  note ok = inv_nodes [OF assms(1)]
  have "lru_inv c' \<and> recency c' = spec_get k (recency c)
      \<and> ce = (case peek c k of None \<Rightarrow> cache_miss | Some x \<Rightarrow> x) \<and> peek c' = peek c"
  proof (cases "map_of (cmap c) k")
    case None
    then have "peek c k = None" by (simp add: peek_def)
    with None assms recency_lookup [OF ok] show ?thesis
      by (simp add: cache_get_def spec_get_def)
  next
    case (Some p)
    obtain x it where p: "p = (x, it)" by (cases p)
    then have pk: "peek c k = Some x" using Some by (simp add: peek_def)
    have c': "ce = x" "c' = c\<lparr>lru_list := (next_node c, k) # erase_node it (lru_list c),
                 cmap := AList.update k (x, next_node c) (cmap c), next_node := Suc (next_node c)\<rparr>"
      using assms(2) Some p by (auto simp: cache_get_def Let_def)
    have map: "map_of (cmap c) k = Some (x, it)" using Some p by simp
    have r: "lru_nodes_ok c'" "recency c' = (k, x) # others k (recency c)"
        "length (cmap c') = length (cmap c)"
      using relink [OF ok map, of c' x] c'(2) by simp_all
    have "peek c' = peek c"
      using map by (auto simp: c'(2) peek_def fun_eq_iff)
    with r pk c' assms(1) recency_lookup [OF ok] show ?thesis
      by (simp add: lru_inv_def spec_get_def)
  qed
  then show "lru_inv c'" "recency c' = spec_get k (recency c)"
    "ce = (case peek c k of None \<Rightarrow> cache_miss | Some x \<Rightarrow> x)" "peek c' = peek c" by auto
qed

lemma others_absent: "k \<notin> fst ` set r \<Longrightarrow> others k r = r"
  by (auto simp: others_def intro!: filter_True)

lemma length_others_present:
  "distinct (map fst r) \<Longrightarrow> k \<in> fst ` set r \<Longrightarrow> Suc (length (others k r)) = length r"
proof (induction r)
  case Nil
  then show ?case by simp
next
  case (Cons x r)
  show ?case
  proof (cases "fst x = k")
    case True
    with Cons.prems have "others k r = r" by (intro others_absent) auto
    with True show ?thesis by (simp add: others_def)
  next
    case False
    with Cons show ?thesis by (auto simp: others_def)
  qed
qed

text \<open>The state and the recency list that a put must reach.\<close>

definition put_result :: "IndexEntry \<Rightarrow> string \<Rightarrow> LRUCache \<Rightarrow> LRUCache \<Rightarrow> bool" where
  "put_result e v c c' \<longleftrightarrow>
     lru_nodes_ok c' \<and> length (cmap c') \<le> unat (capacity c) \<and> capacity c' = capacity c
     \<and> recency c' = spec_put (unat (capacity c)) (ie_key e) \<lparr>ce_index = e, ce_value = v\<rparr> (recency c)"

lemma recency_length_cap: "lru_inv c \<Longrightarrow> length (lru_list c) \<le> unat (capacity c)"
  by (simp add: lru_inv_def length_cmap [symmetric])

lemma absent_recency:
  "lru_nodes_ok c \<Longrightarrow> map_of (cmap c) k = None \<longleftrightarrow> k \<notin> fst ` set (recency c)"
  using recency_lookup [of c k] by (metis map_of_eq_None_iff option.map_disc_iff peek_def)

lemma put_hit:
  assumes "lru_inv c" and "capacity c \<noteq> 0" and map: "map_of (cmap c) (ie_key e) = Some (x, it)"
  shows "put_result e v c (cache_put e v c)"
proof -
  note ok = inv_nodes [OF assms(1)]
  let ?k = "ie_key e" and ?ce = "\<lparr>ce_index = e, ce_value = v\<rparr>" and ?c' = "cache_put e v c"
  have c': "lru_list ?c' = (next_node c, ?k) # erase_node it (lru_list c)"
      "cmap ?c' = AList.update ?k (?ce, next_node c) (cmap c)" "next_node ?c' = Suc (next_node c)"
      "capacity ?c' = capacity c"
    using assms(2) map by (simp_all add: cache_put_def Let_def)
  have "?k \<in> fst ` set (recency c)"
    using absent_recency [OF ok, of ?k] map by simp
  then have "Suc (length (others ?k (recency c))) \<le> unat (capacity c)"
    using length_others_present nodes_okD(2) [OF ok] recency_length_cap [OF assms(1)]
    by (metis keys_recency length_recency)
  then show ?thesis
    using relink [OF ok map c'(1-3)] c'(4) assms
    by (simp add: put_result_def spec_put_def lru_inv_def)
qed

lemma put_miss:
  assumes "lru_nodes_ok c1" and "map_of (cmap c1) (ie_key e) = None"
    and "cache_put e v c = link (ie_key e) \<lparr>ce_index = e, ce_value = v\<rparr> c1"
    and "capacity c1 = capacity c" and "Suc (length (cmap c1)) \<le> unat (capacity c)"
    and "ie_key e \<notin> fst ` set (recency c)" and "recency c1 = take (unat (capacity c) - 1) (recency c)"
  shows "put_result e v c (cache_put e v c)"
proof -
  let ?k = "ie_key e" and ?ce = "\<lparr>ce_index = e, ce_value = v\<rparr>"
  have "capacity (link ?k ?ce c1) = capacity c" using assms(4) by (simp add: link_def)
  moreover have "length (cmap (link ?k ?ce c1)) = Suc (length (cmap c1))"
    using assms(2) by (simp add: link_def length_update_absent)
  moreover have "take (unat (capacity c)) ((?k, ?ce) # recency c) = (?k, ?ce) # recency c1"
    using assms(5,7) by (cases "unat (capacity c)") simp_all
  ultimately show ?thesis
    using link_ok [OF assms(1,2), of ?ce] assms(5,6)
    by (auto simp: put_result_def assms(3) spec_put_def others_absent)
qed

lemma cache_put_result: "lru_inv c \<Longrightarrow> put_result e v c (cache_put e v c)"
proof -
  assume inv: "lru_inv c"
  note ok = inv_nodes [OF inv]
  let ?k = "ie_key e" and ?cap = "unat (capacity c)"
  consider (zero) "capacity c = 0"
    | (hit) x it where "capacity c \<noteq> 0" "map_of (cmap c) ?k = Some (x, it)"
    | (room) "capacity c \<noteq> 0" "map_of (cmap c) ?k = None" "length (cmap c) < ?cap"
    | (full) "capacity c \<noteq> 0" "map_of (cmap c) ?k = None" "?cap \<le> length (cmap c)"
    by (cases "map_of (cmap c) ?k") (auto simp: not_less [symmetric])
  then show ?thesis
  proof cases
    case zero
    with inv show ?thesis
      by (simp add: put_result_def cache_put_def Let_def spec_put_def lru_inv_def)
  next
    case hit
    with inv show ?thesis by (rule put_hit)
  next
    case room
    have "cache_put e v c = link ?k \<lparr>ce_index = e, ce_value = v\<rparr> c"
      using room by (simp add: cache_put_def Let_def link_def)
    then show ?thesis
      using room absent_recency [OF ok, of ?k] length_cmap [OF ok]
      by (intro put_miss [OF ok]) auto
  next
    case full
    have ne: "lru_list c \<noteq> []" by (rule full_nonempty [OF ok full(1,3)])
    note ev = evict_last_unlink [OF ok ne]
    have n1: "next_node (evict_last c) = next_node c" "capacity (evict_last c) = capacity c"
      by (simp_all add: evict_last_def)
    obtain q where q: "map_of (cmap c) (snd (last (lru_list c))) = Some q" using ev(3) by blast
    have len: "length (recency c) = ?cap"
      using full recency_length_cap [OF inv] length_cmap [OF ok] by simp
    show ?thesis
    proof (rule put_miss)
      show "lru_nodes_ok (evict_last c)" using ev(1) unlink_ok(1) [OF ok] by simp
      show "map_of (cmap (evict_last c)) ?k = None" using full ev(1) by (simp add: unlink_def)
      show "cache_put e v c = link ?k \<lparr>ce_index = e, ce_value = v\<rparr> (evict_last c)"
        using full n1 by (simp add: cache_put_def Let_def link_def)
      show "Suc (length (cmap (evict_last c))) \<le> ?cap"
        using length_unlink [OF ok q] ev(1) inv by (simp add: lru_inv_def)
      show "recency (evict_last c) = take (?cap - 1) (recency c)"
        using ev(2) len by (simp add: butlast_conv_take)
    qed (use n1 full absent_recency [OF ok] in auto)
  qed
qed

lemma cache_put_inv: "lru_inv c \<Longrightarrow> lru_inv (cache_put e v c)"
  using cache_put_result [of c e v] by (simp add: put_result_def lru_inv_def)

lemma cache_remove_unlink:
  assumes "lru_nodes_ok c"
  shows "cache_remove k c = (if map_of (cmap c) k = None then c else unlink k c)"
  using erase_node_key [OF assms, of k]
  by (auto simp: cache_remove_def unlink_def split: option.splits)

lemma cache_remove_refines:
  assumes "lru_inv c"
  shows "lru_inv (cache_remove k c)" and "recency (cache_remove k c) = others k (recency c)"
    and "peek (cache_remove k c) = (peek c)(k := None)"
proof -
  note ok = inv_nodes [OF assms]
  have "lru_inv (cache_remove k c) \<and> recency (cache_remove k c) = others k (recency c)
      \<and> peek (cache_remove k c) = (peek c)(k := None)"
  proof (cases "map_of (cmap c) k")
    case None
    then have "k \<notin> fst ` set (recency c)" using absent_recency [OF ok, of k] by simp
    with None assms show ?thesis
      by (auto simp: cache_remove_unlink [OF ok] others_absent peek_def fun_eq_iff)
  next
    case (Some p)
    then have "Suc (length (cmap (unlink k c))) = length (cmap c)" by (rule length_unlink [OF ok])
    moreover have "capacity (unlink k c) = capacity c" by (simp add: unlink_def)
    ultimately show ?thesis
      using Some assms unlink_ok [OF ok, of k]
      by (simp add: cache_remove_unlink [OF ok] lru_inv_def)
  qed
  then show "lru_inv (cache_remove k c)" "recency (cache_remove k c) = others k (recency c)"
    "peek (cache_remove k c) = (peek c)(k := None)" by auto
qed

lemma shrink_refines:
  "lru_nodes_ok c \<Longrightarrow>
     lru_inv (shrink c) \<and> recency (shrink c) = take (unat (capacity c)) (recency c)
     \<and> capacity (shrink c) = capacity c"
proof (induction c rule: shrink.induct)
  case (1 c)
  let ?cap = "unat (capacity c)"
  show ?case
  proof (cases "length (cmap c) > ?cap \<and> lru_list c \<noteq> []")
    case True
    then have ne: "lru_list c \<noteq> []" and big: "length (cmap c) > ?cap" by auto
    note ev = evict_last_unlink [OF "1.prems" ne]
    have cap: "capacity (evict_last c) = capacity c" by (simp add: evict_last_def)
    have ok1: "lru_nodes_ok (evict_last c)" using ev(1) unlink_ok(1) [OF "1.prems"] by simp
    have "take ?cap (butlast (recency c)) = take ?cap (recency c)"
      using big length_cmap [OF "1.prems"] by (simp add: take_butlast)
    with "1.IH" [OF True ok1] ev(2) cap True show ?thesis
      by (simp add: shrink.simps [of c])
  next
    case False
    then have "length (cmap c) \<le> ?cap"
      using length_cmap [OF "1.prems"] by auto
    with False "1.prems" length_cmap [OF "1.prems"] show ?thesis
      by (simp add: shrink.simps [of c] lru_inv_def)
  qed
qed

lemma cache_resize_refines:
  assumes "lru_inv c"
  shows "lru_inv (cache_resize n c) \<and> recency (cache_resize n c) = take (unat n) (recency c)
       \<and> capacity (cache_resize n c) = n"
  using shrink_refines [of "c\<lparr>capacity := n\<rparr>"] inv_nodes [OF assms]
  by (simp add: cache_resize_def)

lemma peek_put:
  assumes "lru_inv c" and "peek (cache_put e v c) k = Some x"
  shows "k = ie_key e \<and> x = \<lparr>ce_index = e, ce_value = v\<rparr> \<or> k \<noteq> ie_key e \<and> peek c k = Some x"
proof -
  let ?ce = "\<lparr>ce_index = e, ce_value = v\<rparr>" and ?cap = "unat (capacity c)"
  note ok = inv_nodes [OF assms(1)]
  have r: "recency (cache_put e v c) = spec_put ?cap (ie_key e) ?ce (recency c)"
    using cache_put_result [OF assms(1), of e v] by (simp add: put_result_def)
  have "map_of (recency (cache_put e v c)) k = Some x"
    using recency_lookup [OF inv_nodes [OF cache_put_inv [OF assms(1)]]] assms(2) by simp
  then have m: "map_of (spec_put ?cap (ie_key e) ?ce (recency c)) k = Some x" by (simp add: r)
  show ?thesis
  proof (cases "?cap = 0")
    case True
    then have "recency c = []" using recency_length_cap [OF assms(1)] by (simp add: recency_def)
    with m True show ?thesis by (simp add: spec_put_def)
  next
    case False
    with m have "map_of (take ?cap ((ie_key e, ?ce) # others (ie_key e) (recency c))) k = Some x"
      by (simp add: spec_put_def)
    then have "map_of ((ie_key e, ?ce) # others (ie_key e) (recency c)) k = Some x"
      by (rule map_of_take)
    then show ?thesis
      using recency_lookup [OF ok, of k]
      by (auto simp: others_def map_of_others split: if_splits)
  qed
qed

lemma peek_put_same:
  assumes "lru_inv c" and "capacity c \<noteq> 0"
  shows "peek (cache_put e v c) (ie_key e) = Some \<lparr>ce_index = e, ce_value = v\<rparr>"
proof -
  have "recency (cache_put e v c)
      = spec_put (unat (capacity c)) (ie_key e) \<lparr>ce_index = e, ce_value = v\<rparr> (recency c)"
    using cache_put_result [OF assms(1), of e v] by (simp add: put_result_def)
  moreover have "unat (capacity c) \<noteq> 0" using assms(2) by (simp add: unat_eq_zero)
  ultimately have "map_of (recency (cache_put e v c)) (ie_key e) = Some \<lparr>ce_index = e, ce_value = v\<rparr>"
    by (cases "unat (capacity c)") (simp_all add: spec_put_def)
  then show ?thesis
    using recency_lookup [OF inv_nodes [OF cache_put_inv [OF assms(1)]]] by simp
qed

lemma peek_resize:
  assumes "lru_inv c" and "peek (cache_resize n c) k = Some x"
  shows "peek c k = Some x"
proof -
  have "lru_inv (cache_resize n c)" "recency (cache_resize n c) = take (unat n) (recency c)"
    using cache_resize_refines [OF assms(1)] by auto
  with assms(2) have "map_of (take (unat n) (recency c)) k = Some x"
    using recency_lookup [OF inv_nodes, of "cache_resize n c"] by simp
  then show ?thesis
    using recency_lookup [OF inv_nodes [OF assms(1)]] by (metis map_of_take)
qed

section \<open>The contract of the cache\<close>

text \<open>
  A cache is coherent with a key-value map when whatever it answers is the value of the map. The
  shard relies on it to answer a read without touching the disk.
\<close>

definition coherent :: "(string \<Rightarrow> CacheEntry option) \<Rightarrow> (string \<Rightarrow> string option) \<Rightarrow> bool" where
  "coherent p m \<longleftrightarrow>
     (\<forall>k x. p k = Some x \<longrightarrow> m k = Some (ce_value x) \<and> ie_segmentId (ce_index x) \<noteq> INVALID_SEGMENT_ID
            \<and> \<not> ie_isTombstone (ce_index x))"

locale value_cache =
  fixes pk :: "'c \<Rightarrow> string \<Rightarrow> CacheEntry option"
    and put :: "IndexEntry \<Rightarrow> string \<Rightarrow> 'c \<Rightarrow> 'c"
    and del :: "string \<Rightarrow> 'c \<Rightarrow> 'c"
    and rsz :: "u32 \<Rightarrow> 'c \<Rightarrow> 'c"
    and invar :: "'c \<Rightarrow> bool"
  assumes pk_put: "invar c \<Longrightarrow> pk (put e v c) k = Some x \<Longrightarrow>
        k = ie_key e \<and> x = \<lparr>ce_index = e, ce_value = v\<rparr> \<or> k \<noteq> ie_key e \<and> pk c k = Some x"
    and pk_del: "invar c \<Longrightarrow> pk (del k c) = (pk c)(k := None)"
    and pk_rsz: "invar c \<Longrightarrow> pk (rsz n c) k = Some x \<Longrightarrow> pk c k = Some x"
    and invar_put: "invar c \<Longrightarrow> invar (put e v c)"
    and invar_del: "invar c \<Longrightarrow> invar (del k c)"
    and invar_rsz: "invar c \<Longrightarrow> invar (rsz n c)"
begin

lemma coherent_put:
  assumes "invar c" and "coherent (pk c) m"
    and "ie_segmentId e \<noteq> INVALID_SEGMENT_ID" and "\<not> ie_isTombstone e"
  shows "coherent (pk (put e v c)) (m(ie_key e \<mapsto> v))"
  unfolding coherent_def
proof (intro allI impI)
  fix k x assume "pk (put e v c) k = Some x"
  from pk_put [OF assms(1) this] assms(2-4)
  show "(m(ie_key e \<mapsto> v)) k = Some (ce_value x) \<and> ie_segmentId (ce_index x) \<noteq> INVALID_SEGMENT_ID
      \<and> \<not> ie_isTombstone (ce_index x)"
    by (auto simp: coherent_def)
qed

lemma coherent_put_same:
  assumes "invar c" and "coherent (pk c) m" and "m (ie_key e) = Some v"
    and "ie_segmentId e \<noteq> INVALID_SEGMENT_ID" and "\<not> ie_isTombstone e"
  shows "coherent (pk (put e v c)) m"
proof -
  have "m(ie_key e \<mapsto> v) = m" using assms(3) by auto
  with coherent_put [OF assms(1,2,4,5), of v] show ?thesis by simp
qed

lemma coherent_del:
  "invar c \<Longrightarrow> coherent (pk c) m \<Longrightarrow> coherent (pk (del k c)) (m(k := None))"
  by (auto simp: coherent_def pk_del)

lemma coherent_del_same:
  "invar c \<Longrightarrow> coherent (pk c) m \<Longrightarrow> coherent (pk (del k c)) m"
  by (auto simp: coherent_def pk_del)

lemma coherent_rsz: "invar c \<Longrightarrow> coherent (pk c) m \<Longrightarrow> coherent (pk (rsz n c)) m"
  by (auto simp: coherent_def dest: pk_rsz)

end

interpretation lru: value_cache peek cache_put cache_remove cache_resize lru_inv
proof unfold_locales
  show "k = ie_key e \<and> x = \<lparr>ce_index = e, ce_value = v\<rparr> \<or> k \<noteq> ie_key e \<and> peek c k = Some x"
    if "lru_inv c" "peek (cache_put e v c) k = Some x" for c e v k x
    by (rule peek_put [OF that])
  show "peek (cache_remove k c) = (peek c)(k := None)" if "lru_inv c" for c k
    by (rule cache_remove_refines(3) [OF that])
  show "peek c k = Some x" if "lru_inv c" "peek (cache_resize n c) k = Some x" for c n k x
    by (rule peek_resize [OF that])
qed (use cache_put_inv cache_remove_refines(1) cache_resize_refines in auto)

lemma new_LRUCache_inv [simp]: "lru_inv (new_LRUCache cap)"
  by (simp add: new_LRUCache_def lru_inv_def lru_nodes_ok_def)

lemma coherent_new [simp]: "coherent (peek (new_LRUCache cap)) m"
  by (simp add: coherent_def new_LRUCache_def peek_def)

section \<open>Sequences of operations\<close>

text \<open>
  What any sequence of calls does to the cache, and what the specification - a capacity and a list of
  entries from the most to the least recently used - does for the same calls.
\<close>

datatype cache_op = CGet string | CPut IndexEntry string | CRemove string | CResize u32

fun cache_do :: "cache_op \<Rightarrow> LRUCache \<Rightarrow> LRUCache" where
  "cache_do (CGet k) c = snd (cache_get k c)"
| "cache_do (CPut e v) c = cache_put e v c"
| "cache_do (CRemove k) c = cache_remove k c"
| "cache_do (CResize n) c = cache_resize n c"

type_synonym lru_spec = "nat \<times> (string \<times> CacheEntry) list"

fun spec_do :: "cache_op \<Rightarrow> lru_spec \<Rightarrow> lru_spec" where
  "spec_do (CGet k) (cap, r) = (cap, spec_get k r)"
| "spec_do (CPut e v) (cap, r) = (cap, spec_put cap (ie_key e) \<lparr>ce_index = e, ce_value = v\<rparr> r)"
| "spec_do (CRemove k) (cap, r) = (cap, others k r)"
| "spec_do (CResize n) (cap, r) = (unat n, take (unat n) r)"

definition lru_abs :: "LRUCache \<Rightarrow> lru_spec" where
  "lru_abs c = (unat (capacity c), recency c)"

lemma capacity_get_remove [simp]: "capacity (snd (cache_get k c)) = capacity c" "capacity (cache_remove k c) = capacity c"
  by (simp_all add: cache_get_def cache_remove_def Let_def split: option.splits)

lemma cache_do_refines:
  assumes "lru_inv c"
  shows "lru_inv (cache_do op c) \<and> lru_abs (cache_do op c) = spec_do op (lru_abs c)"
proof (cases op)
  case (CGet k)
  obtain ce c' where "cache_get k c = (ce, c')" by (cases "cache_get k c")
  with cache_get_refines [OF assms this] capacity_get_remove(1) [of k c] CGet show ?thesis by (simp add: lru_abs_def)
next
  case (CPut e v)
  with cache_put_result [OF assms, of e v] show ?thesis by (simp add: lru_abs_def put_result_def lru_inv_def)
next
  case (CRemove k)
  with cache_remove_refines [OF assms, of k] show ?thesis by (simp add: lru_abs_def)
next
  case (CResize n)
  with cache_resize_refines [OF assms, of n] show ?thesis by (simp add: lru_abs_def)
qed

lemma cache_run_refines:
  "lru_inv c \<Longrightarrow> lru_inv (fold cache_do ops c) \<and> lru_abs (fold cache_do ops c) = fold spec_do ops (lru_abs c)"
  by (induction ops arbitrary: c) (simp_all add: cache_do_refines)

end
