(* ===== verification/DataSegment.thy ===== *)
theory DataSegment
  imports FileIO Settings
begin

text \<open>
  \<open>DataSegment.hpp\<close> and \<open>DataSegment.cpp\<close>: one append-only segment file. The write position is
  \<open>currentOffset\<close>; \<open>atWriteEnd\<close> remembers that the put position of the stream is there. Offsets
  and sizes are 64-bit, so \<open>startOffset + value.size()\<close> is word addition. A failed write returns
  \<open>SegSize + 1\<close> and does not move the write position, so what it left behind is overwritten.
\<close>

record DataSegment =
  ds_segmentId :: u32
  currentOffset :: u64
  segment :: fstream
  ds_canFlush :: bool
  atWriteEnd :: bool

definition size64 :: "string \<Rightarrow> u64" where
  "size64 v = of_nat (length v)"

text \<open>
  The constructor: \<open>openSegment\<close> on a file with the given contents (the empty contents for a file
  that did not exist and was created) and \<open>refreshFullStatus\<close>, whose \<open>tellg()\<close> is \<open>-1\<close> when the
  file could not be opened.
\<close>

definition openSegment :: "ios \<Rightarrow> u32 \<Rightarrow> bytes option \<Rightarrow> DataSegment \<times> ios" where
  "openSegment s i file =
     (case io_next s of (r, s') \<Rightarrow>
        let d = (case file of Some x \<Rightarrow> x | None \<Rightarrow> []) in
        (\<lparr>ds_segmentId = i, currentOffset = 0, segment = fs_fresh (io_ok r) d d,
          ds_canFlush = False, atWriteEnd = False\<rparr>, s'))"

definition refreshFullStatus :: "DataSegment \<Rightarrow> DataSegment" where
  "refreshFullStatus g =
     g\<lparr>currentOffset := (if fs_open (segment g) then of_nat (length (fs_data (segment g))) else - 1)\<rparr>"

definition new_DataSegment :: "ios \<Rightarrow> u32 \<Rightarrow> bytes option \<Rightarrow> DataSegment \<times> ios" where
  "new_DataSegment s i file = (case openSegment s i file of (g, s') \<Rightarrow> (refreshFullStatus g, s'))"

definition getWritePosition :: "DataSegment \<Rightarrow> u64" where
  "getWritePosition g = currentOffset g"

definition seg_write :: "Settings \<Rightarrow> ios \<Rightarrow> string \<Rightarrow> DataSegment \<Rightarrow> u64 \<times> DataSegment \<times> ios" where
  "seg_write st s v g =
     (let startOffset = currentOffset g in
      if startOffset + size64 v > SegSize st then (SegSize st + 1, g, s)
      else
        case (if atWriteEnd g then (g, s)
              else case fs_seek s (fs_clear (segment g)) of (f, s1) \<Rightarrow>
                     (g\<lparr>segment := f, atWriteEnd := fs_good f\<rparr>, s1)) of (g1, s1) \<Rightarrow>
        if \<not> atWriteEnd g1 then (SegSize st + 1, g1, s1)
        else
          case fs_write_at s1 (unat startOffset) v (segment g1) of (f2, s2) \<Rightarrow>
            let g2 = g1\<lparr>segment := f2, ds_canFlush := True\<rparr> in
            if \<not> fs_good f2 then (SegSize st + 1, g2\<lparr>atWriteEnd := False\<rparr>, s2)
            else (startOffset, g2\<lparr>currentOffset := startOffset + size64 v\<rparr>, s2))"

definition seg_read :: "ios \<Rightarrow> u64 \<Rightarrow> u32 \<Rightarrow> DataSegment \<Rightarrow> string \<times> DataSegment \<times> ios" where
  "seg_read s off sz g =
     (let g0 = g\<lparr>atWriteEnd := False\<rparr> in
      case fs_seek s (fs_clear (segment g)) of (f, s1) \<Rightarrow>
      if \<not> fs_good f then ('''', g0\<lparr>segment := f\<rparr>, s1)
      else case fs_read_at s1 (unat off) (unat sz) f of (got, f2, s2) \<Rightarrow>
        if length got \<noteq> unat sz then ('''', g0\<lparr>segment := f2\<rparr>, s2)
        else (got, g0\<lparr>segment := f2\<rparr>, s2))"

definition isFull :: "Settings \<Rightarrow> DataSegment \<Rightarrow> bool" where
  "isFull st g \<longleftrightarrow> currentOffset g \<ge> SegSize st"

definition seg_flush :: "ios \<Rightarrow> DataSegment \<Rightarrow> bool \<times> DataSegment \<times> ios" where
  "seg_flush s g =
     (if ds_canFlush g
      then case flush_and_fsync s (segment g) of (ok, f, s') \<Rightarrow>
             if \<not> ok then (False, g\<lparr>segment := f\<rparr>, s')
             else (True, g\<lparr>segment := f, ds_canFlush := False\<rparr>, s')
      else (True, g, s))"

section \<open>Invariant and contents\<close>

text \<open>
  The bytes of the segment that count are those before the write position. A segment whose file
  could not be opened has the write position \<open>-1\<close> and no contents.
\<close>

definition committed :: "DataSegment \<Rightarrow> bytes" where
  "committed g = (if fs_open (segment g) then take (unat (currentOffset g)) (fs_data (segment g)) else [])"

text \<open>Files are shorter than \<open>2 ^ 63\<close> bytes, the range of \<open>off_t\<close>; so are strings.\<close>

abbreviation off_bound :: nat where "off_bound \<equiv> 2 ^ 63"

definition seg_inv :: "DataSegment \<Rightarrow> bool" where
  "seg_inv g \<longleftrightarrow>
     length (fs_data (segment g)) < off_bound
     \<and> (if fs_open (segment g)
        then unat (currentOffset g) \<le> length (fs_data (segment g))
        else currentOffset g = - 1 \<and> \<not> atWriteEnd g)"

text \<open>The value stored at an offset, if it lies within the committed bytes.\<close>

definition slice :: "nat \<Rightarrow> nat \<Rightarrow> bytes \<Rightarrow> bytes option" where
  "slice off n d = (if off + n \<le> length d then Some (take n (drop off d)) else None)"

lemma slice_append: "slice off n d = Some v \<Longrightarrow> slice off n (d @ e) = Some v"
  by (auto simp: slice_def split: if_splits)

lemma slice_end: "slice (length d) (length v) (d @ v) = Some v"
  by (simp add: slice_def)

lemma slice_take:
  assumes "slice off n (take m d) = Some v"
  shows "take n (drop off d) = v"
proof -
  have "off + n \<le> m" and "v = take n (drop off (take m d))"
    using assms by (auto simp: slice_def split: if_splits)
  then show ?thesis by (simp add: drop_take min_def)
qed

lemma length_committed:
  "seg_inv g \<Longrightarrow> fs_open (segment g) \<Longrightarrow> length (committed g) = unat (currentOffset g)"
  by (simp add: committed_def seg_inv_def)

lemma new_DataSegment_inv:
  assumes "new_DataSegment s i file = (g, s')"
    and "length (case file of Some x \<Rightarrow> x | None \<Rightarrow> []) < off_bound"
  shows "seg_inv g" and "ds_segmentId g = i"
    and "committed g = (if fs_open (segment g) then (case file of Some x \<Rightarrow> x | None \<Rightarrow> []) else [])"
  using assms
  by (auto simp: new_DataSegment_def openSegment_def refreshFullStatus_def seg_inv_def committed_def
      fs_fresh_def Let_def unat_of_nat_u64 split: prod.splits option.splits)

lemma new_DataSegment_ok:
  assumes "all_ok s"
  shows "\<exists>s'. new_DataSegment s i file
     = (refreshFullStatus \<lparr>ds_segmentId = i, currentOffset = 0,
          segment = fs_fresh True (case file of Some x \<Rightarrow> x | None \<Rightarrow> []) (case file of Some x \<Rightarrow> x | None \<Rightarrow> []),
          ds_canFlush = False, atWriteEnd = False\<rparr>, s') \<and> all_ok s'"
proof -
  obtain r s1 where 1: "io_next s = (r, s1)" by (cases "io_next s")
  from all_ok_io_next [OF assms 1] 1 show ?thesis
    by (simp add: new_DataSegment_def openSegment_def Let_def)
qed

section \<open>Writing\<close>

definition segsize_ok :: "Settings \<Rightarrow> bool" where
  "segsize_ok st \<longleftrightarrow> unat (SegSize st) < off_bound"

lemma unat_size64: "length v < off_bound \<Longrightarrow> unat (size64 v) = length v"
  by (simp add: size64_def unat_of_nat_u64)

lemma unat_plus_size64:
  assumes "unat x < off_bound" and "length v < off_bound"
  shows "unat (x + size64 v) = unat x + length v"
proof -
  have "unat x + unat (size64 v) < 2 ^ 64" using assms by (simp add: unat_size64)
  then show ?thesis using assms by (simp add: unat_word_ariths unat_size64)
qed

text \<open>
  The two outcomes of a write: success at the old write position, appending the value to the
  committed bytes; or \<open>SegSize + 1\<close>, with the committed bytes and the write position unchanged.
\<close>

definition write_outcome :: "Settings \<Rightarrow> string \<Rightarrow> DataSegment \<Rightarrow> u64 \<Rightarrow> DataSegment \<Rightarrow> bool" where
  "write_outcome st v g pos g' \<longleftrightarrow>
     seg_inv g' \<and> ds_segmentId g' = ds_segmentId g \<and> fs_open (segment g') = fs_open (segment g)
     \<and> (if pos = SegSize st + 1
        then committed g' = committed g \<and> currentOffset g' = currentOffset g
        else pos = currentOffset g \<and> fs_open (segment g) \<and> committed g' = committed g @ v
             \<and> unat (currentOffset g) + length v \<le> unat (SegSize st)
             \<and> currentOffset g' = currentOffset g + size64 v)"

lemma overlay_committed:
  assumes "p \<le> length d"
  shows "take (p + length v) (overlay p v d) = take p d @ v" and "take p (overlay p v d) = take p d"
  using assms by (simp_all add: overlay_def)

lemma seg_write_aligned:
  assumes inv: "seg_inv g" and "segsize_ok st" and v: "length v < off_bound"
    and "atWriteEnd g" and fit: "\<not> currentOffset g + size64 v > SegSize st"
    and w: "seg_write st s v g = (pos, g', s')"
  shows "write_outcome st v g pos g'"
proof -
  let ?p = "unat (currentOffset g)" and ?d = "fs_data (segment g)"
  have op: "fs_open (segment g)" and pd: "?p \<le> length ?d"
    and dl: "length ?d < off_bound"
    using inv assms(4) by (auto simp: seg_inv_def split: if_splits)
  have sum: "unat (currentOffset g + size64 v) = ?p + length v"
    using unat_plus_size64 [of "currentOffset g" v] pd dl v by simp
  then have le: "?p + length v \<le> unat (SegSize st)"
    using fit by (simp add: word_less_nat_alt)
  then have pS: "currentOffset g \<noteq> SegSize st + 1"
    using assms(2) unat_plus_one_neq [of "currentOffset g" "SegSize st"] by (simp add: segsize_ok_def)
  obtain f2 s2 where f2: "fs_write_at s ?p v (segment g) = (f2, s2)" by (cases "fs_write_at s ?p v (segment g)")
  note fw = fs_write_at_data [OF f2]
  have d2: "length (fs_data f2) < off_bound \<and> ?p \<le> length (fs_data f2) \<and> take ?p (fs_data f2) = take ?p ?d"
    using f2
  proof (cases rule: fs_write_at_partial)
    case 1
    with dl pd show ?thesis by simp
  next
    case (2 n)
    then have "length (fs_data f2) = max (?p + length (take n v)) (length ?d)"
      by (simp add: length_overlay)
    with 2 overlay_committed(2) [OF pd] le assms(2) dl show ?thesis
      by (auto simp: segsize_ok_def)
  qed
  show ?thesis
  proof (cases "fs_good f2")
    case True
    then have "fs_data f2 = overlay ?p v ?d" using fw(3) by simp
    moreover have "pos = currentOffset g"
      "g' = g\<lparr>segment := f2, ds_canFlush := True, currentOffset := currentOffset g + size64 v\<rparr>"
      using w fit assms(4) f2 True by (auto simp: seg_write_def Let_def)
    ultimately show ?thesis
      using pS op fw(2) d2 le True overlay_committed(1) [OF pd, of v] sum
      by (auto simp: write_outcome_def seg_inv_def committed_def length_overlay)
  next
    case False
    then have "pos = SegSize st + 1"
      "g' = g\<lparr>segment := f2, ds_canFlush := True, atWriteEnd := False\<rparr>"
      using w fit assms(4) f2 by (auto simp: seg_write_def Let_def)
    then show ?thesis
      using op fw(2) d2 by (auto simp: write_outcome_def seg_inv_def committed_def)
  qed
qed

lemma seg_write_outcome:
  assumes inv: "seg_inv g" and "segsize_ok st" and "length v < off_bound"
    and w: "seg_write st s v g = (pos, g', s')"
  shows "write_outcome st v g pos g'"
proof (cases "currentOffset g + size64 v > SegSize st")
  case True
  with w inv show ?thesis
    by (auto simp: seg_write_def Let_def write_outcome_def)
next
  case fit: False
  show ?thesis
  proof (cases "atWriteEnd g")
    case True
    show ?thesis by (rule seg_write_aligned [OF inv assms(2,3) True fit w])
  next
    case False
    obtain f s1 where f: "fs_seek s (fs_clear (segment g)) = (f, s1)"
      by (cases "fs_seek s (fs_clear (segment g))")
    note fd = fs_seek_data [OF f]
    let ?g1 = "g\<lparr>segment := f, atWriteEnd := fs_good f\<rparr>"
    show ?thesis
    proof (cases "fs_good f")
      case good: True
      then have inv1: "seg_inv ?g1"
        using inv fs_seek_good [OF f] by (auto simp: seg_inv_def split: if_splits)
      have "seg_write st s1 v ?g1 = (pos, g', s')"
        using w fit False f good by (auto simp: seg_write_def Let_def)
      then have "write_outcome st v ?g1 pos g'"
        using seg_write_aligned [OF inv1 assms(2,3)] fit good by simp
      moreover have "committed ?g1 = committed g" using fd by (simp add: committed_def)
      ultimately show ?thesis using fd by (auto simp: write_outcome_def split: if_splits)
    next
      case bad: False
      have "pos = SegSize st + 1" "g' = ?g1"
        using w fit False f bad by (auto simp: seg_write_def Let_def)
      with inv fd bad show ?thesis
        by (auto simp: write_outcome_def seg_inv_def committed_def)
    qed
  qed
qed

text \<open>Without I/O failures, a value that fits is written.\<close>

lemma seg_write_ok:
  assumes inv: "seg_inv g" and "segsize_ok st" and "length v < off_bound" and "all_ok s"
    and "fs_open (segment g)" and good: "atWriteEnd g \<longrightarrow> fs_good (segment g)" and fit: "unat (currentOffset g) + length v \<le> unat (SegSize st)"
  shows "\<exists>g' s'. seg_write st s v g = (currentOffset g, g', s') \<and> all_ok s'
       \<and> currentOffset g \<noteq> SegSize st + 1"
proof -
  have p: "unat (currentOffset g) < off_bound"
    using inv assms(5) by (simp add: seg_inv_def)
  then have "unat (currentOffset g + size64 v) = unat (currentOffset g) + length v"
    using unat_plus_size64 assms(3) by blast
  then have nf: "\<not> currentOffset g + size64 v > SegSize st"
    using fit by (simp add: word_less_nat_alt)
  have pS: "currentOffset g \<noteq> SegSize st + 1"
    using assms(2) fit unat_plus_one_neq [of "currentOffset g" "SegSize st"] by (simp add: segsize_ok_def)
  obtain s1 where s1: "fs_seek s (fs_clear (segment g)) = (fs_clear (segment g), s1)" "all_ok s1"
    using fs_seek_ok [of "fs_clear (segment g)" s] assms by auto
  obtain s2 where s2: "fs_write_at s1 (unat (currentOffset g)) v (fs_clear (segment g))
      = ((fs_clear (segment g))\<lparr>fs_data := overlay (unat (currentOffset g)) v (fs_data (segment g))\<rparr>, s2)"
      "all_ok s2"
    using fs_write_at_ok [of "fs_clear (segment g)" s1] assms s1 by auto
  show ?thesis
  proof (cases "atWriteEnd g")
    case True
    obtain s3 where s3: "fs_write_at s (unat (currentOffset g)) v (segment g)
        = ((segment g)\<lparr>fs_data := overlay (unat (currentOffset g)) v (fs_data (segment g))\<rparr>, s3)"
        "all_ok s3"
      using fs_write_at_ok [of "segment g" s] assms good True by auto
    with True nf pS good show ?thesis by (simp add: seg_write_def Let_def)
  next
    case False
    with nf pS s1 s2 show ?thesis by (simp add: seg_write_def Let_def)
  qed
qed

section \<open>Reading and flushing\<close>

definition seg_same :: "DataSegment \<Rightarrow> DataSegment \<Rightarrow> bool" where
  "seg_same g g' \<longleftrightarrow> committed g' = committed g \<and> currentOffset g' = currentOffset g
     \<and> ds_segmentId g' = ds_segmentId g \<and> fs_open (segment g') = fs_open (segment g)
     \<and> fs_data (segment g') = fs_data (segment g)"

lemma seg_read_frame:
  assumes "seg_read s off sz g = (v, g', s')" and "seg_inv g"
  shows "seg_inv g' \<and> seg_same g g'"
proof -
  obtain f s1 where f: "fs_seek s (fs_clear (segment g)) = (f, s1)"
    by (cases "fs_seek s (fs_clear (segment g))")
  obtain got f2 s2 where f2: "fs_read_at s1 (unat off) (unat sz) f = (got, f2, s2)"
    by (cases "fs_read_at s1 (unat off) (unat sz) f")
  have "fs_data f = fs_data (segment g)" "fs_open f = fs_open (segment g)"
    "fs_data f2 = fs_data f" "fs_open f2 = fs_open f"
    using fs_seek_data [OF f] fs_read_at_data [OF f2] by auto
  moreover obtain h where "g' = g\<lparr>atWriteEnd := False, segment := h\<rparr>" "h = f \<or> h = f2"
    using assms(1) f f2 by (auto simp: seg_read_def Let_def split: if_splits)
  ultimately show ?thesis
    using assms(2) by (auto simp: seg_inv_def committed_def seg_same_def)
qed

text \<open>A read gives the stored value or the empty string, never anything else.\<close>

lemma seg_read_value:
  assumes "seg_read s off sz g = (v, g', s')" and "slice (unat off) (unat sz) (committed g) = Some w"
  shows "v = w \<or> v = ''''"
proof -
  obtain f s1 where f: "fs_seek s (fs_clear (segment g)) = (f, s1)"
    by (cases "fs_seek s (fs_clear (segment g))")
  obtain got f2 s2 where f2: "fs_read_at s1 (unat off) (unat sz) f = (got, f2, s2)"
    by (cases "fs_read_at s1 (unat off) (unat sz) f")
  show ?thesis
  proof (cases "fs_good f \<and> length got = unat sz \<and> 0 < unat sz")
    case True
    then have "got = take (unat sz) (drop (unat off) (fs_data f))"
      using fs_read_at_full [OF f2] by auto
    moreover have "committed g = take (unat (currentOffset g)) (fs_data f)"
      using fs_seek_data [OF f] fs_seek_good [OF f] True by (simp add: committed_def)
    ultimately have "got = w" using slice_take assms(2) by metis
    with True assms(1) f f2 show ?thesis by (auto simp: seg_read_def Let_def split: if_splits)
  next
    case False
    with assms(1) f f2 show ?thesis by (auto simp: seg_read_def Let_def split: if_splits)
  qed
qed

lemma seg_read_ok:
  assumes "fs_open (segment g)" and "all_ok s"
    and "slice (unat off) (unat sz) (committed g) = Some w"
  shows "\<exists>g' s'. seg_read s off sz g = (w, g', s') \<and> all_ok s'"
proof -
  obtain s1 where s1: "fs_seek s (fs_clear (segment g)) = (fs_clear (segment g), s1)" "all_ok s1"
    using fs_seek_ok [of "fs_clear (segment g)" s] assms by auto
  obtain f2 s2 where f2: "fs_read_at s1 (unat off) (unat sz) (fs_clear (segment g))
      = (take (unat sz) (drop (unat off) (fs_data (segment g))), f2, s2)" "all_ok s2"
    using fs_read_at_ok [of "fs_clear (segment g)" s1 "unat off" "unat sz"] assms s1 by auto
  have "take (unat sz) (drop (unat off) (fs_data (segment g))) = w"
    using assms(1,3) slice_take by (simp add: committed_def)
  moreover have "length w = unat sz"
    using assms(3) by (auto simp: slice_def split: if_splits)
  ultimately show ?thesis using s1 f2 by (simp add: seg_read_def Let_def)
qed

lemma seg_flush_frame:
  assumes "seg_flush s g = (b, g', s')" and "seg_inv g"
  shows "seg_inv g' \<and> seg_same g g'"
proof -
  obtain ok f s1 where f: "flush_and_fsync s (segment g) = (ok, f, s1)"
    by (cases "flush_and_fsync s (segment g)")
  note ff = flush_and_fsync_frame [OF f]
  have "seg_same g g'"
    using assms f ff by (auto simp: seg_flush_def committed_def seg_same_def split: if_splits)
  moreover have "seg_inv g'"
    using assms f ff by (auto simp: seg_flush_def seg_inv_def split: if_splits)
  ultimately show ?thesis by blast
qed

lemma seg_flush_durable:
  assumes "seg_flush s g = (True, g', s')"
  shows "ds_canFlush g \<longrightarrow> fs_disk (segment g') = fs_data (segment g')"
proof -
  obtain ok f s1 where f: "flush_and_fsync s (segment g) = (ok, f, s1)"
    by (cases "flush_and_fsync s (segment g)")
  with assms flush_and_fsync_frame [OF f] show ?thesis
    by (auto simp: seg_flush_def split: if_splits)
qed

end
