(* ===== verification/StorageManager.thy ===== *)
theory StorageManager
  imports DataSegment IndexManager
begin

text \<open>
  \<open>StorageManager.hpp\<close> and \<open>StorageManager.cpp\<close>: the open segments by id, the id written to, and
  \<open>seg_dir\<close>, the files of the directory \<open>seg/\<close> that no open segment stands for. Creating a segment
  on a file that exists keeps its contents. The locale \<open>blob_store\<close> is the contract a shard relies
  on: a value that was appended is found at the place the append returned, and no later append or
  read changes it.
\<close>

record StorageManager =
  segments :: "(u32 \<times> DataSegment) list"
  latestSegmentId :: u32
  seg_dir :: "(string \<times> bytes) list"

definition seg_name :: "u32 \<Rightarrow> string" where
  "seg_name i = show_nat (unat i) @ ''.seg''"

definition existing_file :: "u32 \<Rightarrow> StorageManager \<Rightarrow> bytes option" where
  "existing_file i sm =
     (case map_of (segments sm) i of
        Some g \<Rightarrow> Some (fs_data (segment g))
      | None \<Rightarrow> map_of (seg_dir sm) (seg_name i))"

text \<open>\<open>segments[i] = std::make_unique<DataSegment>(settings, i)\<close>\<close>

definition make_segment :: "ios \<Rightarrow> u32 \<Rightarrow> StorageManager \<Rightarrow> StorageManager \<times> ios" where
  "make_segment s i sm =
     (case new_DataSegment s i (existing_file i sm) of (g, s') \<Rightarrow>
        (sm\<lparr>segments := AList.update i g (segments sm),
            seg_dir := AList.delete (seg_name i) (seg_dir sm)\<rparr>, s'))"

text \<open>\<open>path().extension()\<close> and \<open>path().stem()\<close> of a file name.\<close>

definition path_extension :: "string \<Rightarrow> string" where
  "path_extension name =
     (let r = takeWhile (\<lambda>c. c \<noteq> CHR ''.'') (rev name) in
      if length r + 1 \<ge> length name then '''' else ''.'' @ rev r)"

definition path_stem :: "string \<Rightarrow> string" where
  "path_stem name = take (length name - length (path_extension name)) name"

fun boot_loop :: "ios \<Rightarrow> (string \<times> bytes) list \<Rightarrow> StorageManager \<Rightarrow> nat \<Rightarrow> StorageManager \<times> nat \<times> ios" where
  "boot_loop s [] sm nb = (sm, nb, s)"
| "boot_loop s ((name, d) # fs) sm nb =
     (if path_extension name \<noteq> ''.seg'' then boot_loop s fs sm nb
      else case parse_unsigned (2 ^ 32) (path_stem name) of
             None \<Rightarrow> boot_loop s fs sm nb
           | Some n \<Rightarrow> (case make_segment s (of_nat n) sm of (sm1, s1) \<Rightarrow> boot_loop s1 fs sm1 (Suc nb)))"

fun max_id :: "u32 \<Rightarrow> u32 list \<Rightarrow> u32" where
  "max_id m [] = m"
| "max_id m (i # is) = max_id (if i > m then i else m) is"

definition sm_boot :: "ios \<Rightarrow> StorageManager \<Rightarrow> StorageManager \<times> ios" where
  "sm_boot s sm =
     (case boot_loop s (seg_dir sm) sm 0 of (sm1, nb, s1) \<Rightarrow>
        if nb = 0
        then (case make_segment s1 1 sm1 of (sm2, s2) \<Rightarrow> (sm2\<lparr>latestSegmentId := 1\<rparr>, s2))
        else (sm1\<lparr>latestSegmentId := max_id 0 (map fst (segments sm1))\<rparr>, s1))"

definition new_StorageManager :: "ios \<Rightarrow> (string \<times> bytes) list \<Rightarrow> StorageManager \<times> ios" where
  "new_StorageManager s dir = sm_boot s \<lparr>segments = [], latestSegmentId = 0, seg_dir = dir\<rparr>"

definition appendToSegment ::
  "Settings \<Rightarrow> ios \<Rightarrow> u32 \<Rightarrow> string \<Rightarrow> StorageManager \<Rightarrow> IndexEntry \<times> StorageManager \<times> ios" where
  "appendToSegment st s i v sm =
     (case map_of (segments sm) i of
        None \<Rightarrow> (invalid_entry, sm, s)
      | Some g \<Rightarrow>
          (case seg_write st s v g of (pos, g', s') \<Rightarrow>
             (if pos = SegSize st + 1 then invalid_entry
              else \<lparr>ie_key = '''', ie_offset = pos, ie_segmentId = ds_segmentId g',
                    ie_size = of_nat (length v), ie_isTombstone = False\<rparr>,
              sm\<lparr>segments := AList.update i g' (segments sm)\<rparr>, s')))"

text \<open>A new segment with the next id, which becomes the one written to.\<close>

definition rotate_segment :: "ios \<Rightarrow> StorageManager \<Rightarrow> StorageManager \<times> ios" where
  "rotate_segment s sm =
     (let nextId = latestSegmentId sm + 1 in
      case make_segment s nextId sm of (sm1, s1) \<Rightarrow> (sm1\<lparr>latestSegmentId := nextId\<rparr>, s1))"

definition sm_append ::
  "Settings \<Rightarrow> ios \<Rightarrow> string \<Rightarrow> StorageManager \<Rightarrow> IndexEntry \<times> StorageManager \<times> ios" where
  "sm_append st s v sm =
     (let usable = (case map_of (segments sm) (latestSegmentId sm) of
                      Some g \<Rightarrow> \<not> isFull st g | None \<Rightarrow> False) in
      case (if usable then (sm, s) else rotate_segment s sm) of (sm1, s1) \<Rightarrow>
      case appendToSegment st s1 (latestSegmentId sm1) v sm1 of (result, sm2, s2) \<Rightarrow>
      if ie_segmentId result = INVALID_SEGMENT_ID
      then case rotate_segment s2 sm2 of (sm3, s3) \<Rightarrow>
             appendToSegment st s3 (latestSegmentId sm3) v sm3
      else (result, sm2, s2))"

definition contains :: "IndexEntry \<Rightarrow> StorageManager \<Rightarrow> bool" where
  "contains e sm =
     (case map_of (segments sm) (ie_segmentId e) of
        None \<Rightarrow> False
      | Some g \<Rightarrow> ie_offset e + ucast (ie_size e) \<le> getWritePosition g)"

definition sm_read :: "ios \<Rightarrow> IndexEntry \<Rightarrow> StorageManager \<Rightarrow> string \<times> StorageManager \<times> ios" where
  "sm_read s e sm =
     (case map_of (segments sm) (ie_segmentId e) of
        None \<Rightarrow> ('''', sm, s)
      | Some g \<Rightarrow>
          (case seg_read s (ie_offset e) (ie_size e) g of (v, g', s') \<Rightarrow>
             (v, sm\<lparr>segments := AList.update (ie_segmentId e) g' (segments sm)\<rparr>, s')))"

text \<open>
  \<open>removeUnusedSegments\<close>: the segment is closed and its file removed; a file that could not be
  removed stays in the directory.
\<close>

fun remove_loop :: "ios \<Rightarrow> u32 list \<Rightarrow> StorageManager \<Rightarrow> StorageManager \<times> ios" where
  "remove_loop s [] sm = (sm, s)"
| "remove_loop s (i # is) sm =
     (case map_of (segments sm) i of
        None \<Rightarrow> remove_loop s is sm
      | Some g \<Rightarrow>
          (case io_next s of (r, s1) \<Rightarrow>
             remove_loop s1 is
               (sm\<lparr>segments := AList.delete i (segments sm),
                   seg_dir := (if io_ok r then seg_dir sm
                               else AList.update (seg_name i) (fs_data (segment g)) (seg_dir sm))\<rparr>)))"

definition removeUnusedSegments :: "ios \<Rightarrow> u32 list \<Rightarrow> StorageManager \<Rightarrow> StorageManager \<times> ios" where
  "removeUnusedSegments s used sm =
     remove_loop s (filter (\<lambda>i. i \<notin> set used) (map fst (segments sm))) sm"

fun flush_segments :: "ios \<Rightarrow> (u32 \<times> DataSegment) list \<Rightarrow> bool \<times> (u32 \<times> DataSegment) list \<times> ios" where
  "flush_segments s [] = (True, [], s)"
| "flush_segments s ((i, g) # gs) =
     (case seg_flush s g of (b, g', s1) \<Rightarrow>
      case flush_segments s1 gs of (bs, gs', s2) \<Rightarrow> (b \<and> bs, (i, g') # gs', s2))"

definition sm_flush :: "ios \<Rightarrow> StorageManager \<Rightarrow> bool \<times> StorageManager \<times> ios" where
  "sm_flush s sm =
     (case flush_segments s (segments sm) of (ok, gs, s') \<Rightarrow> (ok, sm\<lparr>segments := gs\<rparr>, s'))"

definition currentSegmentId :: "StorageManager \<Rightarrow> u32" where
  "currentSegmentId sm = latestSegmentId sm"

section \<open>Invariant and contents\<close>

definition sm_inv :: "StorageManager \<Rightarrow> bool" where
  "sm_inv sm \<longleftrightarrow>
     distinct (map fst (segments sm))
     \<and> list_all (\<lambda>(i, g). seg_inv g \<and> ds_segmentId g = i \<and> i \<le> latestSegmentId sm) (segments sm)
     \<and> list_all (\<lambda>(n, d). length d < off_bound) (seg_dir sm)"

text \<open>At least two more segment ids before the ids run into \<open>INVALID_SEGMENT_ID\<close>.\<close>

definition ids_left :: "StorageManager \<Rightarrow> bool" where
  "ids_left sm \<longleftrightarrow> unat (latestSegmentId sm) + 3 < 2 ^ 32"

definition value_at :: "StorageManager \<Rightarrow> Location \<Rightarrow> string option" where
  "value_at sm l =
     (case map_of (segments sm) (loc_segmentId l) of
        None \<Rightarrow> None
      | Some g \<Rightarrow> slice (unat (loc_offset l)) (unat (loc_size l)) (committed g))"

definition keeps_values :: "StorageManager \<Rightarrow> StorageManager \<Rightarrow> bool" where
  "keeps_values sm sm' \<longleftrightarrow> (\<forall>l w. value_at sm l = Some w \<longrightarrow> value_at sm' l = Some w)"

lemma keeps_values_refl [simp]: "keeps_values sm sm"
  by (simp add: keeps_values_def)

lemma keeps_values_trans: "keeps_values a b \<Longrightarrow> keeps_values b c \<Longrightarrow> keeps_values a c"
  by (simp add: keeps_values_def)

lemma sm_invD:
  assumes "sm_inv sm" and "map_of (segments sm) i = Some g"
  shows "seg_inv g" and "ds_segmentId g = i" and "i \<le> latestSegmentId sm"
  using assms by (auto simp: sm_inv_def list_all_iff dest!: map_of_SomeD)

lemma sm_inv_update:
  assumes "sm_inv sm" and "seg_inv g" and "ds_segmentId g = i" and "i \<le> latestSegmentId sm"
  shows "sm_inv (sm\<lparr>segments := AList.update i g (segments sm)\<rparr>)"
proof -
  have "set (AList.update i g (segments sm)) \<subseteq> insert (i, g) (set (segments sm))"
    by (rule set_update_subset)
  with assms show ?thesis by (fastforce simp: sm_inv_def list_all_iff)
qed

text \<open>Replacing a segment by one with the same or more committed bytes keeps every value.\<close>

lemma keeps_values_update:
  assumes "map_of (segments sm) i = Some g" and "committed g' = committed g @ x"
  shows "keeps_values sm (sm\<lparr>segments := AList.update i g' (segments sm)\<rparr>)"
  using assms by (auto simp: keeps_values_def value_at_def slice_append split: option.splits if_splits)

section \<open>Creating segments\<close>


lemma existing_file_short:
  assumes "sm_inv sm"
  shows "length (case existing_file i sm of Some x \<Rightarrow> x | None \<Rightarrow> []) < off_bound"
proof (cases "map_of (segments sm) i")
  case (Some g)
  with sm_invD(1) [OF assms Some] show ?thesis by (simp add: existing_file_def seg_inv_def)
next
  case None
  have "(n, d) \<in> set (seg_dir sm) \<Longrightarrow> length d < off_bound" for n d
    using assms by (fastforce simp: sm_inv_def list_all_iff)
  with None show ?thesis
    by (cases "map_of (seg_dir sm) (seg_name i)") (auto simp: existing_file_def dest: map_of_SomeD)
qed

lemma rotate_segment_spec:
  assumes "sm_inv sm" and "unat (latestSegmentId sm) + 1 < 2 ^ 32"
    and "rotate_segment s sm = (sm', s')"
  shows "sm_inv sm'" and "keeps_values sm sm'"
    and "latestSegmentId sm' = latestSegmentId sm + 1"
    and "\<exists>g. map_of (segments sm') (latestSegmentId sm') = Some g"
proof -
  let ?i = "latestSegmentId sm + 1"
  obtain g s1 where g: "new_DataSegment s ?i (existing_file ?i sm) = (g, s1)"
    by (cases "new_DataSegment s ?i (existing_file ?i sm)")
  note ng = new_DataSegment_inv [OF g existing_file_short [OF assms(1)]]
  have i: "unat ?i = unat (latestSegmentId sm) + 1" by (rule unat_Suc_id [OF assms(2)])
  have sm': "sm' = sm\<lparr>segments := AList.update ?i g (segments sm),
      seg_dir := AList.delete (seg_name ?i) (seg_dir sm), latestSegmentId := ?i\<rparr>"
    using assms(3) g by (auto simp: rotate_segment_def make_segment_def Let_def)
  have fresh: "map_of (segments sm) ?i = None"
  proof (cases "map_of (segments sm) ?i")
    case (Some h)
    from sm_invD(3) [OF assms(1) Some] i show ?thesis by (simp add: word_le_nat_alt)
  qed
  have up: "j \<le> ?i" if "j \<le> latestSegmentId sm" for j
    using that i by (simp add: word_le_nat_alt)
  have sub: "set (segments sm') \<subseteq> insert (?i, g) (set (segments sm))"
    "set (seg_dir sm') \<subseteq> set (seg_dir sm)"
    using set_update_subset [of ?i g "segments sm"] set_delete_subset [of "seg_name ?i" "seg_dir sm"]
    by (simp_all add: sm')
  have old: "(j, h) \<in> set (segments sm) \<Longrightarrow> seg_inv h \<and> ds_segmentId h = j \<and> j \<le> latestSegmentId sm" for j h
    using assms(1) by (fastforce simp: sm_inv_def list_all_iff)
  have "seg_inv h \<and> ds_segmentId h = j \<and> j \<le> ?i" if "(j, h) \<in> set (segments sm')" for j h
    using that sub(1) old ng(1,2) up by auto
  moreover have "length d < off_bound" if "(n, d) \<in> set (seg_dir sm')" for n d
    using that sub(2) assms(1) by (fastforce simp: sm_inv_def list_all_iff)
  moreover have "distinct (map fst (segments sm'))"
    using assms(1) by (simp add: sm' sm_inv_def)
  moreover have l: "latestSegmentId sm' = ?i" by (simp add: sm')
  ultimately show "sm_inv sm'" unfolding sm_inv_def list_all_iff l by auto
  show "keeps_values sm sm'"
    using fresh by (auto simp: keeps_values_def value_at_def sm' split: option.splits if_splits)
  show "latestSegmentId sm' = latestSegmentId sm + 1" by (rule l)
  show "\<exists>g. map_of (segments sm') (latestSegmentId sm') = Some g" by (simp add: sm')
qed

section \<open>Appending\<close>

lemma appendToSegment_spec:
  assumes "sm_inv sm" and "segsize_ok st" and "length v < 2 ^ 32"
    and "appendToSegment st s i v sm = (e, sm', s')"
  shows "sm_inv sm'" and "keeps_values sm sm'" and "latestSegmentId sm' = latestSegmentId sm"
    and "ie_isTombstone e = False"
    and "ie_segmentId e \<noteq> INVALID_SEGMENT_ID \<Longrightarrow> value_at sm' (loc_of e) = Some v"
proof -
  have "sm_inv sm' \<and> keeps_values sm sm' \<and> latestSegmentId sm' = latestSegmentId sm
      \<and> ie_isTombstone e = False
      \<and> (ie_segmentId e \<noteq> INVALID_SEGMENT_ID \<longrightarrow> value_at sm' (loc_of e) = Some v)"
  proof (cases "map_of (segments sm) i")
    case None
    with assms show ?thesis by (simp add: appendToSegment_def)
  next
    case (Some g)
    note gi = sm_invD [OF assms(1) Some]
    obtain pos g' s1 where w: "seg_write st s v g = (pos, g', s1)" by (cases "seg_write st s v g")
    have o: "write_outcome st v g pos g'"
      using seg_write_outcome [OF gi(1) assms(2) _ w] assms(3) by simp
    have sm': "sm' = sm\<lparr>segments := AList.update i g' (segments sm)\<rparr>"
      using assms(4) Some w by (auto simp: appendToSegment_def)
    have inv': "sm_inv sm'"
      unfolding sm' using o gi by (intro sm_inv_update [OF assms(1)]) (auto simp: write_outcome_def)
    have "committed g' = committed g @ (if pos = SegSize st + 1 then [] else v)"
      using o by (simp add: write_outcome_def)
    then have keep: "keeps_values sm sm'" unfolding sm' by (rule keeps_values_update [OF Some])
    show ?thesis
    proof (cases "pos = SegSize st + 1")
      case True
      with assms(4) Some w inv' keep show ?thesis by (auto simp: appendToSegment_def)
    next
      case False
      with o have p: "pos = currentOffset g" "fs_open (segment g)" "committed g' = committed g @ v"
          "ds_segmentId g' = i"
        using gi(2) by (auto simp: write_outcome_def)
      have e: "e = \<lparr>ie_key = '''', ie_offset = pos, ie_segmentId = i, ie_size = of_nat (length v),
                    ie_isTombstone = False\<rparr>"
        using assms(4) Some w False p(4) by (auto simp: appendToSegment_def)
      have "slice (unat pos) (unat (of_nat (length v) :: u32)) (committed g') = Some v"
        using slice_end [of "committed g" v] length_committed [OF gi(1) p(2)] p assms(3)
        by (simp add: unat_of_nat_u32)
      with e inv' keep show ?thesis
        by (simp add: value_at_def sm' loc_of_def)
    qed
  qed
  then show "sm_inv sm'" "keeps_values sm sm'" "latestSegmentId sm' = latestSegmentId sm"
    "ie_isTombstone e = False"
    "ie_segmentId e \<noteq> INVALID_SEGMENT_ID \<Longrightarrow> value_at sm' (loc_of e) = Some v" by auto
qed

text \<open>The contract of one append, in a single predicate.\<close>

definition append_ok :: "string \<Rightarrow> StorageManager \<Rightarrow> IndexEntry \<Rightarrow> StorageManager \<Rightarrow> bool" where
  "append_ok v sm e sm' \<longleftrightarrow>
     sm_inv sm' \<and> keeps_values sm sm' \<and> \<not> ie_isTombstone e
     \<and> (ie_segmentId e \<noteq> INVALID_SEGMENT_ID \<longrightarrow> value_at sm' (loc_of e) = Some v)"

lemma sm_append_spec:
  assumes "sm_inv sm" and "ids_left sm" and "segsize_ok st" and "length v < 2 ^ 32"
    and "sm_append st s v sm = (e, sm', s')"
  shows "append_ok v sm e sm'"
proof -
  define usable where "usable = (case map_of (segments sm) (latestSegmentId sm) of
                      Some g \<Rightarrow> \<not> isFull st g | None \<Rightarrow> False)"
  obtain sm1 s1 where 1: "(if usable then (sm, s) else rotate_segment s sm) = (sm1, s1)"
    by (cases "if usable then (sm, s) else rotate_segment s sm")
  have bound: "unat (latestSegmentId sm) + 1 < 2 ^ 32" using assms(2) by (simp add: ids_left_def)
  have a1: "sm_inv sm1" "keeps_values sm sm1" "unat (latestSegmentId sm1) \<le> unat (latestSegmentId sm) + 1"
    using 1 assms(1) rotate_segment_spec [OF assms(1) bound, of s sm1 s1] unat_Suc_id [OF bound]
    by (auto split: if_splits)
  obtain r sm2 s2 where 2: "appendToSegment st s1 (latestSegmentId sm1) v sm1 = (r, sm2, s2)"
    by (cases "appendToSegment st s1 (latestSegmentId sm1) v sm1")
  note a2 = appendToSegment_spec [OF a1(1) assms(3,4) 2]
  have k2: "keeps_values sm sm2" by (rule keeps_values_trans [OF a1(2) a2(2)])
  show ?thesis
  proof (cases "ie_segmentId r = INVALID_SEGMENT_ID")
    case False
    with assms(5) 1 2 have "e = r" "sm' = sm2" by (auto simp: sm_append_def usable_def Let_def)
    with a2 k2 False show ?thesis by (simp add: append_ok_def)
  next
    case True
    obtain sm3 s3 where 3: "rotate_segment s2 sm2 = (sm3, s3)" by (cases "rotate_segment s2 sm2")
    have "unat (latestSegmentId sm2) + 1 < 2 ^ 32"
      using a1(3) a2(3) assms(2) by (simp add: ids_left_def)
    note a3 = rotate_segment_spec [OF a2(1) this 3]
    have 4: "appendToSegment st s3 (latestSegmentId sm3) v sm3 = (e, sm', s')"
      using assms(5) 1 2 3 True by (auto simp: sm_append_def usable_def Let_def)
    note a4 = appendToSegment_spec [OF a3(1) assms(3,4) 4]
    show ?thesis
      using a4 keeps_values_trans [OF k2 keeps_values_trans [OF a3(2) a4(2)]]
      by (simp add: append_ok_def)
  qed
qed

section \<open>Reading, flushing and removing\<close>

text \<open>An append uses at most two new segment ids; \<open>ids_for n\<close> leaves enough for \<open>n\<close> appends.\<close>

definition ids_for :: "nat \<Rightarrow> StorageManager \<Rightarrow> bool" where
  "ids_for n sm \<longleftrightarrow> unat (latestSegmentId sm) + 2 * n + 1 < 2 ^ 32"

lemma ids_for_left: "ids_for (Suc n) sm \<Longrightarrow> ids_left sm"
  by (simp add: ids_for_def ids_left_def)

lemma appendToSegment_latest:
  "appendToSegment st s i v sm = (e, sm', s') \<Longrightarrow> latestSegmentId sm' = latestSegmentId sm"
  by (auto simp: appendToSegment_def split: option.splits prod.splits)

lemma rotate_segment_latest:
  "rotate_segment s sm = (sm', s') \<Longrightarrow> latestSegmentId sm' = latestSegmentId sm + 1"
  by (auto simp: rotate_segment_def Let_def split: prod.splits)

lemma sm_append_latest:
  assumes "ids_left sm" and "sm_append st s v sm = (e, sm', s')"
  shows "unat (latestSegmentId sm') \<le> unat (latestSegmentId sm) + 2"
proof -
  have "latestSegmentId sm' \<in> {latestSegmentId sm, latestSegmentId sm + 1, latestSegmentId sm + 1 + 1}"
    using assms(2)
    by (auto simp: sm_append_def Let_def split: prod.splits if_splits
        dest!: appendToSegment_latest rotate_segment_latest)
  moreover have "unat (latestSegmentId sm + 1) = unat (latestSegmentId sm) + 1"
    using assms(1) by (intro unat_Suc_id) (simp add: ids_left_def)
  moreover from this have "unat (latestSegmentId sm + 1 + 1) = unat (latestSegmentId sm) + 2"
    using assms(1) unat_Suc_id [of "latestSegmentId sm + 1"] by (simp add: ids_left_def)
  ultimately show ?thesis by auto
qed

lemma ids_for_append:
  "ids_for (Suc n) sm \<Longrightarrow> sm_append st s v sm = (e, sm', s') \<Longrightarrow> ids_for n sm'"
  using sm_append_latest [OF ids_for_left] by (fastforce simp: ids_for_def)

lemma same_values:
  assumes "\<And>i. map_option committed (map_of (segments sm') i) = map_option committed (map_of (segments sm) i)"
  shows "value_at sm' = value_at sm"
proof
  fix l
  show "value_at sm' l = value_at sm l"
    using assms [of "loc_segmentId l"] by (auto simp: value_at_def split: option.splits)
qed

lemma sm_read_frame:
  assumes "sm_inv sm" and "sm_read s e sm = (v, sm', s')"
  shows "sm_inv sm'" and "value_at sm' = value_at sm" and "latestSegmentId sm' = latestSegmentId sm"
proof -
  have "sm_inv sm' \<and> value_at sm' = value_at sm \<and> latestSegmentId sm' = latestSegmentId sm"
  proof (cases "map_of (segments sm) (ie_segmentId e)")
    case None
    with assms show ?thesis by (simp add: sm_read_def)
  next
    case (Some g)
    note gi = sm_invD [OF assms(1) Some]
    obtain w g' s1 where r: "seg_read s (ie_offset e) (ie_size e) g = (w, g', s1)"
      by (cases "seg_read s (ie_offset e) (ie_size e) g")
    from seg_read_frame [OF r gi(1)] have f: "seg_inv g'" "seg_same g g'" by auto
    have sm': "sm' = sm\<lparr>segments := AList.update (ie_segmentId e) g' (segments sm)\<rparr>"
      using assms(2) Some r by (auto simp: sm_read_def)
    have "sm_inv sm'" unfolding sm'
      using f gi by (intro sm_inv_update [OF assms(1)]) (auto simp: seg_same_def)
    moreover have "value_at sm' = value_at sm"
      using Some f(2) by (intro same_values) (auto simp: sm' seg_same_def)
    ultimately show ?thesis by (simp add: sm')
  qed
  then show "sm_inv sm'" "value_at sm' = value_at sm" "latestSegmentId sm' = latestSegmentId sm" by auto
qed

lemma sm_read_value:
  assumes "sm_read s e sm = (v, sm', s')" and "value_at sm (loc_of e) = Some w"
  shows "v = w \<or> v = ''''"
  using assms seg_read_value
  by (fastforce simp: sm_read_def value_at_def loc_of_def split: option.splits prod.splits)

lemma sm_read_ok:
  assumes "all_ok s" and "value_at sm (loc_of e) = Some w" and "w \<noteq> ''''"
  shows "\<exists>sm' s'. sm_read s e sm = (w, sm', s') \<and> all_ok s'"
proof -
  obtain g where g: "map_of (segments sm) (ie_segmentId e) = Some g"
    and sl: "slice (unat (ie_offset e)) (unat (ie_size e)) (committed g) = Some w"
    using assms(2) by (auto simp: value_at_def loc_of_def split: option.splits)
  have "fs_open (segment g)"
    using sl assms(3) by (auto simp: committed_def slice_def split: if_splits)
  from seg_read_ok [OF this assms(1) sl] g show ?thesis
    by (auto simp: sm_read_def)
qed

lemma flush_segments_frame:
  assumes "flush_segments s gs = (ok, gs', s')"
    and "list_all (\<lambda>(i, g). seg_inv g \<and> ds_segmentId g = i \<and> i \<le> m) gs"
  shows "map fst gs' = map fst gs
       \<and> list_all (\<lambda>(i, g). seg_inv g \<and> ds_segmentId g = i \<and> i \<le> m) gs'
       \<and> (\<forall>i. map_option committed (map_of gs' i) = map_option committed (map_of gs i))"
  using assms
proof (induction gs arbitrary: s ok gs' s')
  case Nil
  then show ?case by simp
next
  case (Cons p gs)
  obtain i g where p: "p = (i, g)" by (cases p)
  obtain b g1 s1 where 1: "seg_flush s g = (b, g1, s1)" by (cases "seg_flush s g")
  obtain bs gs1 s2 where 2: "flush_segments s1 gs = (bs, gs1, s2)" by (cases "flush_segments s1 gs")
  have "gs' = (i, g1) # gs1" using Cons.prems(1) p 1 2 by simp
  moreover have "seg_inv g1 \<and> seg_same g g1"
    using seg_flush_frame [OF 1] Cons.prems(2) p by simp
  ultimately show ?case
    using Cons.IH [OF 2] Cons.prems(2) p by (auto simp: seg_same_def)
qed

lemma sm_flush_frame:
  assumes "sm_inv sm" and "sm_flush s sm = (ok, sm', s')"
  shows "sm_inv sm'" and "value_at sm' = value_at sm" and "latestSegmentId sm' = latestSegmentId sm"
proof -
  obtain gs where gs: "flush_segments s (segments sm) = (ok, gs, s')" "sm' = sm\<lparr>segments := gs\<rparr>"
    using assms(2) by (auto simp: sm_flush_def split: prod.splits)
  have "list_all (\<lambda>(i, g). seg_inv g \<and> ds_segmentId g = i \<and> i \<le> latestSegmentId sm) (segments sm)"
    using assms(1) by (simp add: sm_inv_def)
  note f = flush_segments_frame [OF gs(1) this]
  show "sm_inv sm'" using f assms(1) by (simp add: gs(2) sm_inv_def)
  show "value_at sm' = value_at sm" using f by (intro same_values) (simp add: gs(2))
  show "latestSegmentId sm' = latestSegmentId sm" by (simp add: gs(2))
qed

lemma remove_loop_spec:
  assumes "remove_loop s is sm = (sm', s')" and "sm_inv sm"
  shows "sm_inv sm' \<and> latestSegmentId sm' = latestSegmentId sm
       \<and> (\<forall>j. map_of (segments sm') j = (if j \<in> set is then None else map_of (segments sm) j))"
  using assms
proof (induction "is" arbitrary: s sm)
  case Nil
  then show ?case by simp
next
  case (Cons i "is")
  show ?case
  proof (cases "map_of (segments sm) i")
    case None
    with Cons show ?thesis by auto
  next
    case (Some g)
    obtain r s1 where r: "io_next s = (r, s1)" by (cases "io_next s")
    let ?sm1 = "sm\<lparr>segments := AList.delete i (segments sm),
                   seg_dir := (if io_ok r then seg_dir sm
                               else AList.update (seg_name i) (fs_data (segment g)) (seg_dir sm))\<rparr>"
    have "length (fs_data (segment g)) < off_bound"
      using sm_invD(1) [OF Cons.prems(2) Some] by (simp add: seg_inv_def)
    then have inv1: "sm_inv ?sm1"
      using Cons.prems(2) set_delete_subset [of i "segments sm"]
        set_update_subset [of "seg_name i" "fs_data (segment g)" "seg_dir sm"]
      by (fastforce simp: sm_inv_def list_all_iff)
    have "remove_loop s1 is ?sm1 = (sm', s')" using Cons.prems(1) Some r by simp
    from Cons.IH [OF this inv1] show ?thesis by auto
  qed
qed

text \<open>Removing the unused segments keeps every value that lies in a used one.\<close>

lemma removeUnusedSegments_spec:
  assumes "removeUnusedSegments s used sm = (sm', s')" and "sm_inv sm"
  shows "sm_inv sm'" and "latestSegmentId sm' = latestSegmentId sm"
    and "loc_segmentId l \<in> set used \<Longrightarrow> value_at sm' l = value_at sm l"
    and "set (map fst (segments sm')) = set (map fst (segments sm)) \<inter> set used"
proof -
  note r = remove_loop_spec [OF assms(1) [unfolded removeUnusedSegments_def] assms(2)]
  show "sm_inv sm'" "latestSegmentId sm' = latestSegmentId sm" using r by auto
  show "value_at sm' l = value_at sm l" if "loc_segmentId l \<in> set used"
    using r that by (simp add: value_at_def)
  have d: "set (map fst gs) = dom (map_of gs)" for gs :: "(u32 \<times> DataSegment) list"
    by (simp add: dom_map_of_conv_image_fst)
  have "map_of (segments sm') j = (if j \<in> dom (map_of (segments sm)) \<and> j \<notin> set used then None
          else map_of (segments sm) j)" for j
    using r by (simp add: d [symmetric])
  then show "set (map fst (segments sm')) = set (map fst (segments sm)) \<inter> set used"
    unfolding d by (auto simp: dom_def split: if_splits)
qed

section \<open>An append succeeds when the value fits\<close>

definition dir_clean :: "StorageManager \<Rightarrow> bool" where
  "dir_clean sm \<longleftrightarrow> (\<forall>i > latestSegmentId sm. map_of (seg_dir sm) (seg_name i) = None)"

lemma appendToSegment_dir:
  "appendToSegment st s i v sm = (e, sm', s') \<Longrightarrow> seg_dir sm' = seg_dir sm"
  by (auto simp: appendToSegment_def split: option.splits prod.splits)

lemma append_after_rotate:
  assumes "sm_inv sm" and "unat (latestSegmentId sm) + 2 < 2 ^ 32" and "dir_clean sm"
    and "segsize_ok st" and "length v \<le> unat (SegSize st)" and "all_ok s"
  shows "\<exists>sm1 s1 e sm2 s2. rotate_segment s sm = (sm1, s1)
       \<and> appendToSegment st s1 (latestSegmentId sm1) v sm1 = (e, sm2, s2)
       \<and> ie_segmentId e \<noteq> INVALID_SEGMENT_ID \<and> all_ok s1 \<and> all_ok s2"
proof -
  let ?i = "latestSegmentId sm + 1"
  have bound: "unat (latestSegmentId sm) + 1 < 2 ^ 32" using assms(2) by simp
  have ui: "unat ?i = unat (latestSegmentId sm) + 1" by (rule unat_Suc_id [OF bound])
  then have gt: "?i > latestSegmentId sm" by (simp add: word_less_nat_alt)
  have none: "existing_file ?i sm = None"
  proof (cases "map_of (segments sm) ?i")
    case None
    with assms(3) gt show ?thesis by (simp add: existing_file_def dir_clean_def)
  next
    case (Some g)
    from sm_invD(3) [OF assms(1) Some] gt show ?thesis by simp
  qed
  let ?g = "refreshFullStatus \<lparr>ds_segmentId = ?i, currentOffset = 0, segment = fs_fresh True [] [],
          ds_canFlush = False, atWriteEnd = False\<rparr>"
  obtain s1 where s1: "new_DataSegment s ?i None = (?g, s1)" "all_ok s1"
    using new_DataSegment_ok [OF assms(6), of ?i None] by auto
  have g: "currentOffset ?g = 0" "fs_open (segment ?g)" "\<not> atWriteEnd ?g" "ds_segmentId ?g = ?i"
    by (simp_all add: refreshFullStatus_def fs_fresh_def)
  have ginv: "seg_inv ?g"
    using new_DataSegment_inv(1) [OF s1(1)] by simp
  have vb: "length v < off_bound" using assms(4,5) by (simp add: segsize_ok_def)
  obtain g' s2 where w: "seg_write st s1 v ?g = (0, g', s2)" "all_ok s2" "(0::u64) \<noteq> SegSize st + 1"
    using seg_write_ok [OF ginv assms(4) vb s1(2) g(2)] g assms(5) by auto
  have "ds_segmentId g' = ?i"
    using seg_write_outcome [OF ginv assms(4) vb w(1)] g by (simp add: write_outcome_def)
  moreover have "?i \<noteq> INVALID_SEGMENT_ID"
  proof
    assume "?i = INVALID_SEGMENT_ID"
    then have "unat ?i = 4294967295" by (simp only: unat_minus_one_u32)
    with ui assms(2) show False by simp
  qed
  moreover define sm1 where "sm1 = sm\<lparr>segments := AList.update ?i ?g (segments sm),
      seg_dir := AList.delete (seg_name ?i) (seg_dir sm), latestSegmentId := ?i\<rparr>"
  moreover have "rotate_segment s sm = (sm1, s1)"
    using s1(1) none by (simp add: sm1_def rotate_segment_def make_segment_def Let_def)
  moreover have "map_of (segments sm1) (latestSegmentId sm1) = Some ?g" by (simp add: sm1_def)
  ultimately show ?thesis
    using w s1(2) by (auto simp: appendToSegment_def)
qed

lemma appendToSegment_all_ok:
  assumes "all_ok s" and "appendToSegment st s i v sm = (e, sm', s')"
  shows "all_ok s'"
proof -
  have seek: "fs_seek r f = (f', r') \<Longrightarrow> all_ok r \<Longrightarrow> all_ok r'" for r f f' r'
    by (auto simp: fs_seek_def split: prod.splits dest: all_ok_io_next)
  have wr: "fs_write_at r p b f = (f', r') \<Longrightarrow> all_ok r \<Longrightarrow> all_ok r'" for r p b f f' r'
    by (auto simp: fs_write_at_def split: prod.splits if_splits io.splits dest: all_ok_io_next)
  show ?thesis
    using assms
    by (auto simp: appendToSegment_def seg_write_def Let_def split: option.splits prod.splits if_splits
        dest: seek wr)
qed

lemma make_segment_calm [calm]: "make_segment s i sm = (sm', s') \<Longrightarrow> all_ok s \<Longrightarrow> all_ok s'"
  by (auto simp: make_segment_def new_DataSegment_def openSegment_def Let_def split: prod.splits dest: calm)

lemma appendToSegment_calm [calm]:
  "appendToSegment st s i v sm = (e, sm', s') \<Longrightarrow> all_ok s \<Longrightarrow> all_ok s'"
  by (auto simp: appendToSegment_def seg_write_def Let_def split: option.splits prod.splits if_splits dest: calm)

lemma rotate_segment_calm [calm]: "rotate_segment s sm = (sm', s') \<Longrightarrow> all_ok s \<Longrightarrow> all_ok s'"
  by (auto simp: rotate_segment_def Let_def split: prod.splits dest: calm)

lemma sm_append_calm [calm]: "sm_append st s v sm = (e, sm', s') \<Longrightarrow> all_ok s \<Longrightarrow> all_ok s'"
  by (auto simp: sm_append_def Let_def split: prod.splits if_splits dest: calm)

lemma sm_read_calm [calm]: "sm_read s e sm = (v, sm', s') \<Longrightarrow> all_ok s \<Longrightarrow> all_ok s'"
  by (auto simp: sm_read_def seg_read_def Let_def split: option.splits prod.splits if_splits dest: calm)

lemma flush_segments_calm [calm]: "flush_segments s gs = (b, gs', s') \<Longrightarrow> all_ok s \<Longrightarrow> all_ok s'"
proof (induction gs arbitrary: s b gs')
  case Nil
  then show ?case by simp
next
  case (Cons p gs)
  obtain i g where p: "p = (i, g)" by (cases p)
  obtain ok g' s1 where 1: "seg_flush s g = (ok, g', s1)" by (cases "seg_flush s g")
  have "all_ok s1" using 1 Cons.prems(2) by (auto simp: seg_flush_def split: prod.splits if_splits dest: calm)
  with Cons.IH [of s1] Cons.prems(1) 1 show ?case by (auto simp: p split: prod.splits)
qed

lemma sm_flush_calm [calm]: "sm_flush s sm = (b, sm', s') \<Longrightarrow> all_ok s \<Longrightarrow> all_ok s'"
  by (auto simp: sm_flush_def split: prod.splits dest: calm)

text \<open>Appending leaves no file of a later segment in the directory.\<close>

lemma sm_append_clean:
  assumes "sm_append st s v sm = (e, sm', s')" and "ids_left sm" and "dir_clean sm"
  shows "dir_clean sm'"
proof -
  have rot: "dir_clean b" if "rotate_segment r a = (b, r')" "dir_clean a" "unat (latestSegmentId a) + 1 < 2 ^ 32"
    for a b r r'
  proof -
    have "seg_dir b = AList.delete (seg_name (latestSegmentId a + 1)) (seg_dir a)"
      using that(1) by (auto simp: rotate_segment_def make_segment_def Let_def split: prod.splits)
    moreover have "i > latestSegmentId a" if "i > latestSegmentId a + 1" for i
      using that unat_Suc_id [OF \<open>unat (latestSegmentId a) + 1 < 2 ^ 32\<close>] by (simp add: word_less_nat_alt)
    ultimately show ?thesis
      using that(2) rotate_segment_latest [OF that(1)] by (simp add: dir_clean_def)
  qed
  have app: "dir_clean b" if "appendToSegment st r i w a = (x, b, r')" "dir_clean a" for a b r r' i w x
    using that appendToSegment_dir [OF that(1)] appendToSegment_latest [OF that(1)]
    by (simp add: dir_clean_def)
  have up: "unat (latestSegmentId b) + 1 < 2 ^ 32"
    if "rotate_segment r a = (b, r')" "unat (latestSegmentId a) + 3 < 2 ^ 32" for a b r r'
    using that(2) rotate_segment_latest [OF that(1)] unat_Suc_id [of "latestSegmentId a"] by simp
  define start where "start = (if (case map_of (segments sm) (latestSegmentId sm) of
      Some g \<Rightarrow> \<not> isFull st g | None \<Rightarrow> False) then (sm, s) else rotate_segment s sm)"
  obtain sm1 s1 where st: "start = (sm1, s1)" by (cases start)
  then have 1: "(sm1, s1) = (sm, s) \<or> rotate_segment s sm = (sm1, s1)"
    by (auto simp: start_def split: if_splits)
  have rest: "(case appendToSegment st s1 (latestSegmentId sm1) v sm1 of (result, sm2, s2) \<Rightarrow>
      if ie_segmentId result = INVALID_SEGMENT_ID
      then case rotate_segment s2 sm2 of (sm3, s3) \<Rightarrow> appendToSegment st s3 (latestSegmentId sm3) v sm3
      else (result, sm2, s2)) = (e, sm', s')"
    using assms(1) st unfolding sm_append_def Let_def start_def by simp
  have c1: "dir_clean sm1" and l1: "unat (latestSegmentId sm1) + 1 < 2 ^ 32"
    using 1 rot [of s sm sm1 s1] up [of s sm sm1 s1] assms(2,3) by (auto simp: ids_left_def)
  obtain x sm2 s2 where 2: "appendToSegment st s1 (latestSegmentId sm1) v sm1 = (x, sm2, s2)"
    by (cases "appendToSegment st s1 (latestSegmentId sm1) v sm1")
  obtain sm3 s3 where 3: "rotate_segment s2 sm2 = (sm3, s3)" by (cases "rotate_segment s2 sm2")
  have "dir_clean sm2" "dir_clean sm3"
    using app [OF 2 c1] rot [OF 3] l1 appendToSegment_latest [OF 2] by simp_all
  with rest 2 3 app [of s3 "latestSegmentId sm3" v sm3 e sm' s'] show ?thesis
    by (simp split: if_splits)
qed

lemma sm_append_succeeds:
  assumes "sm_inv sm" and "ids_left sm" and "dir_clean sm" and "segsize_ok st"
    and "length v \<le> unat (SegSize st)" and "length v < 2 ^ 32" and "all_ok s"
  shows "\<exists>e sm' s'. sm_append st s v sm = (e, sm', s') \<and> ie_segmentId e \<noteq> INVALID_SEGMENT_ID \<and> all_ok s'"
proof -
  define usable where "usable = (case map_of (segments sm) (latestSegmentId sm) of
                      Some g \<Rightarrow> \<not> isFull st g | None \<Rightarrow> False)"
  have b2: "unat (latestSegmentId sm) + 2 < 2 ^ 32" using assms(2) by (simp add: ids_left_def)
  show ?thesis
  proof (cases usable)
    case False
    from append_after_rotate [OF assms(1) b2 assms(3,4,5,7)] False show ?thesis
      by (auto simp: sm_append_def usable_def Let_def)
  next
    case True
    obtain r sm2 s2 where 2: "appendToSegment st s (latestSegmentId sm) v sm = (r, sm2, s2)"
      by (cases "appendToSegment st s (latestSegmentId sm) v sm")
    note a2 = appendToSegment_spec [OF assms(1,4,6) 2]
    have c2: "dir_clean sm2" using assms(3) a2(3) appendToSegment_dir [OF 2] by (simp add: dir_clean_def)
    have b3: "unat (latestSegmentId sm2) + 2 < 2 ^ 32" using b2 a2(3) by simp
    from append_after_rotate [OF a2(1) b3 c2 assms(4,5) appendToSegment_all_ok [OF assms(7) 2]] 2 True
    show ?thesis
      by (cases "ie_segmentId r = INVALID_SEGMENT_ID")
         (auto simp: sm_append_def usable_def Let_def appendToSegment_all_ok [OF assms(7) 2])
  qed
qed

section \<open>Booting\<close>

definition segs_ok :: "StorageManager \<Rightarrow> bool" where
  "segs_ok sm \<longleftrightarrow> distinct (map fst (segments sm))
     \<and> (\<forall>(i, g) \<in> set (segments sm). seg_inv g \<and> ds_segmentId g = i)
     \<and> (\<forall>(n, d) \<in> set (seg_dir sm). length d < off_bound)"

lemma sm_inv_segs_ok:
  "sm_inv sm \<longleftrightarrow> segs_ok sm \<and> (\<forall>i \<in> fst ` set (segments sm). i \<le> latestSegmentId sm)"
  by (fastforce simp: sm_inv_def segs_ok_def list_all_iff)

lemma make_segment_segs_ok:
  assumes "segs_ok sm" and "make_segment s i sm = (sm', s')"
  shows "segs_ok sm'" and "fst ` set (segments sm') = insert i (fst ` set (segments sm))"
    and "latestSegmentId sm' = latestSegmentId sm"
proof -
  have "length (case existing_file i sm of Some x \<Rightarrow> x | None \<Rightarrow> []) < off_bound"
    using assms(1)
    by (force simp: existing_file_def segs_ok_def seg_inv_def split: option.splits dest: map_of_SomeD)
  moreover obtain g where g: "new_DataSegment s i (existing_file i sm) = (g, s')"
      "sm' = sm\<lparr>segments := AList.update i g (segments sm),
                seg_dir := AList.delete (seg_name i) (seg_dir sm)\<rparr>"
    using assms(2) by (auto simp: make_segment_def split: prod.splits)
  ultimately have "seg_inv g" "ds_segmentId g = i" using new_DataSegment_inv(1,2) by auto
  with assms(1) set_update_subset [of i g "segments sm"]
    set_delete_subset [of "seg_name i" "seg_dir sm"]
  show "segs_ok sm'" by (fastforce simp: segs_ok_def g(2))
  show "fst ` set (segments sm') = insert i (fst ` set (segments sm))"
    by (simp add: g(2) dom_update)
  show "latestSegmentId sm' = latestSegmentId sm" by (simp add: g(2))
qed

lemma boot_loop_segs_ok: "boot_loop s fs sm nb = (sm', nb', s') \<Longrightarrow> segs_ok sm \<Longrightarrow> segs_ok sm'"
proof (induction s fs sm nb rule: boot_loop.induct)
  case (1 s sm nb)
  then show ?case by simp
next
  case (2 s name d fs sm nb)
  show ?case
  proof (cases "path_extension name = ''.seg''")
    case False
    with 2 show ?thesis by simp
  next
    case True
    show ?thesis
    proof (cases "parse_unsigned (2 ^ 32) (path_stem name)")
      case None
      with True 2 show ?thesis by simp
    next
      case (Some n)
      obtain sm1 s1 where m: "make_segment s (of_nat n) sm = (sm1, s1)"
        by (cases "make_segment s (of_nat n) sm")
      with True Some 2 make_segment_segs_ok(1) [OF _ m] show ?thesis by simp
    qed
  qed
qed

lemma boot_loop_none:
  "boot_loop s fs sm nb = (sm', nb', s') \<Longrightarrow> nb \<le> nb' \<and> (nb' = nb \<longrightarrow> segments sm' = segments sm)"
proof (induction s fs sm nb rule: boot_loop.induct)
  case (1 s sm nb)
  then show ?case by simp
next
  case (2 s name d fs sm nb)
  then show ?case
    by (fastforce split: if_splits option.splits prod.splits)
qed

lemma max_id_ge: "m \<le> max_id m is \<and> (\<forall>i \<in> set is. i \<le> max_id m is)"
proof (induction "is" arbitrary: m)
  case Nil
  show ?case by simp
next
  case (Cons i "is")
  have "(if i > m then i else m) \<ge> i" "(if i > m then i else m) \<ge> m" by auto
  with Cons.IH [of "if i > m then i else m"] show ?case by (auto intro: order_trans)
qed

lemma new_StorageManager_inv:
  assumes "new_StorageManager s dir = (sm, s')" and "\<forall>(n, d) \<in> set dir. length d < off_bound"
  shows "sm_inv sm"
proof -
  let ?sm0 = "\<lparr>segments = [], latestSegmentId = 0, seg_dir = dir\<rparr> :: StorageManager"
  obtain sm1 nb s1 where b: "boot_loop s dir ?sm0 0 = (sm1, nb, s1)" by (cases "boot_loop s dir ?sm0 0")
  have "segs_ok ?sm0" using assms(2) by (simp add: segs_ok_def)
  then have ok1: "segs_ok sm1" by (rule boot_loop_segs_ok [OF b])
  show ?thesis
  proof (cases "nb = 0")
    case False
    with assms(1) b have "sm = sm1\<lparr>latestSegmentId := max_id 0 (map fst (segments sm1))\<rparr>"
      by (simp add: new_StorageManager_def sm_boot_def)
    with ok1 max_id_ge [of 0 "map fst (segments sm1)"] show ?thesis
      by (simp add: sm_inv_segs_ok segs_ok_def)
  next
    case True
    obtain sm2 where m: "make_segment s1 1 sm1 = (sm2, s')" "sm = sm2\<lparr>latestSegmentId := 1\<rparr>"
      using assms(1) b True by (auto simp: new_StorageManager_def sm_boot_def split: prod.splits)
    have "segments sm1 = []"
      using boot_loop_none [OF b] True by simp
    with make_segment_segs_ok [OF ok1 m(1)] m(2) show ?thesis
      by (simp add: sm_inv_segs_ok segs_ok_def)
  qed
qed

section \<open>The contract of the storage\<close>

locale blob_store =
  fixes val :: "'m \<Rightarrow> Location \<Rightarrow> string option"
    and app :: "ios \<Rightarrow> string \<Rightarrow> 'm \<Rightarrow> IndexEntry \<times> 'm \<times> ios"
    and rd :: "ios \<Rightarrow> IndexEntry \<Rightarrow> 'm \<Rightarrow> string \<times> 'm \<times> ios"
    and invar :: "'m \<Rightarrow> bool"
    and room :: "'m \<Rightarrow> bool"
  assumes invar_app: "invar m \<Longrightarrow> room m \<Longrightarrow> length v < 2 ^ 32 \<Longrightarrow> app s v m = (e, m', s') \<Longrightarrow> invar m'"
    and app_keeps: "invar m \<Longrightarrow> room m \<Longrightarrow> length v < 2 ^ 32 \<Longrightarrow> app s v m = (e, m', s') \<Longrightarrow>
           val m l = Some w \<Longrightarrow> val m' l = Some w"
    and app_new: "invar m \<Longrightarrow> room m \<Longrightarrow> length v < 2 ^ 32 \<Longrightarrow> app s v m = (e, m', s') \<Longrightarrow>
           ie_segmentId e \<noteq> INVALID_SEGMENT_ID \<Longrightarrow> val m' (loc_of e) = Some v \<and> \<not> ie_isTombstone e"
    and invar_rd: "invar m \<Longrightarrow> rd s e m = (v, m', s') \<Longrightarrow> invar m'"
    and rd_same: "invar m \<Longrightarrow> rd s e m = (v, m', s') \<Longrightarrow> val m' = val m"
    and rd_val: "rd s e m = (v, m', s') \<Longrightarrow> val m (loc_of e) = Some w \<Longrightarrow> v = w \<or> v = ''''"
begin

text \<open>A value read back after it was appended is that value (or the read failed), whatever was appended since.\<close>

lemma read_after_append:
  assumes "invar m" and "room m" and "length v < 2 ^ 32" and "app s v m = (e, m1, s1)"
    and "ie_segmentId e \<noteq> INVALID_SEGMENT_ID"
    and "room m1" and "length w < 2 ^ 32" and "app s1 w m1 = (e', m2, s2)"
    and "rd s2 (e\<lparr>ie_key := k\<rparr>) m2 = (x, m3, s3)"
  shows "x = v \<or> x = ''''"
proof -
  have "invar m1" using invar_app [OF assms(1-4)] .
  moreover have "val m1 (loc_of e) = Some v" using app_new [OF assms(1-5)] by simp
  ultimately have "val m2 (loc_of e) = Some v" using app_keeps [OF _ assms(6-8)] by blast
  then show ?thesis using rd_val [OF assms(9)] by (simp add: loc_of_def)
qed

text \<open>A map of locations read through the store keeps its meaning when a value is appended.\<close>

lemma app_meaning:
  assumes "invar m" and "room m" and "length v < 2 ^ 32" and "app s v m = (e, m', s')"
    and "ie_segmentId e \<noteq> INVALID_SEGMENT_ID"
    and "\<And>k l. t k = Some l \<Longrightarrow> val m l \<noteq> None"
  shows "(\<lambda>q. Option.bind ((t(k \<mapsto> loc_of e)) q) (val m')) = (\<lambda>q. Option.bind (t q) (val m))(k \<mapsto> v)"
proof
  fix q
  show "Option.bind ((t(k \<mapsto> loc_of e)) q) (val m') = ((\<lambda>q. Option.bind (t q) (val m))(k \<mapsto> v)) q"
  proof (cases "q = k")
    case True
    with app_new [OF assms(1-5)] show ?thesis by simp
  next
    case False
    show ?thesis
    proof (cases "t q")
      case None
      with False show ?thesis by simp
    next
      case (Some l)
      with assms(6) obtain w where "val m l = Some w" by blast
      with app_keeps [OF assms(1-4) this] False Some show ?thesis by simp
    qed
  qed
qed

lemma app_failed_meaning:
  assumes "invar m" and "room m" and "length v < 2 ^ 32" and "app s v m = (e, m', s')"
    and "\<And>k l. t k = Some l \<Longrightarrow> val m l \<noteq> None"
  shows "(\<lambda>q. Option.bind (t q) (val m')) = (\<lambda>q. Option.bind (t q) (val m))"
proof
  fix q
  show "Option.bind (t q) (val m') = Option.bind (t q) (val m)"
    using assms(5) [of q] app_keeps [OF assms(1-4)] by (cases "t q") auto
qed

end

interpretation bs: blob_store value_at "sm_append st" sm_read "\<lambda>sm. segsize_ok st \<and> sm_inv sm" ids_left
  for st
proof unfold_locales
  fix m v s e m' s' l w
  assume "segsize_ok st \<and> sm_inv m" "ids_left m" "length v < 2 ^ 32" "sm_append st s v m = (e, m', s')"
  then have "append_ok v m e m'" and "segsize_ok st" by (auto intro: sm_append_spec)
  then show "segsize_ok st \<and> sm_inv m'"
    and "value_at m l = Some w \<Longrightarrow> value_at m' l = Some w"
    and "ie_segmentId e \<noteq> INVALID_SEGMENT_ID \<Longrightarrow> value_at m' (loc_of e) = Some v \<and> \<not> ie_isTombstone e"
    by (auto simp: append_ok_def keeps_values_def)
next
  fix m s e v m' s'
  assume "segsize_ok st \<and> sm_inv m" "sm_read s e m = (v, m', s')"
  then show "segsize_ok st \<and> sm_inv m'" and "value_at m' = value_at m"
    using sm_read_frame by auto
next
  fix m s e v m' s' w
  assume "sm_read s e m = (v, m', s')" "value_at m (loc_of e) = Some w"
  then show "v = w \<or> v = ''''" by (rule sm_read_value)
qed

end
