(* ===== verification/WAL.thy ===== *)
theory WAL
  imports FileIO Settings
begin

text \<open>
  \<open>WAL.hpp\<close> and \<open>WAL.cpp\<close>: the write-ahead log of a shard. A record is the 32-bit length of the
  command, the command, the 64-bit sequence number and a newline. The sequence counter
  \<open>nextSeq\<close> is shared by all logs of the process and is passed to and returned by \<open>wal_append\<close>.
  The locale \<open>command_log\<close> is the contract of a log: what it returns after an append and after a
  clear.
\<close>

record WalEntry =
  we_cmd :: string
  we_seq :: u64

record WAL =
  wal :: fstream
  canClear :: bool
  dirty :: bool

abbreviation newline :: char where "newline \<equiv> CHR 0x0A"

text \<open>
  The constructor on a file that holds \<open>d\<close>. When opening for appending fails, the file is opened
  for output, which empties it, and opened again.
\<close>

definition new_WAL :: "ios \<Rightarrow> bytes \<Rightarrow> WAL \<times> ios" where
  "new_WAL s d =
     (case io_next s of
        (IoOk, s1) \<Rightarrow> (\<lparr>wal = fs_fresh True d d, canClear = True, dirty = False\<rparr>, s1)
      | (IoFail k, s1) \<Rightarrow>
          (case io_next s1 of (r2, s2) \<Rightarrow>
             let d2 = (if io_ok r2 then [] else d) in
             case io_next s2 of (r3, s3) \<Rightarrow>
               (\<lparr>wal = fs_fresh (io_ok r3) d2 d2, canClear = True, dirty = False\<rparr>, s3)))"

text \<open>
  Truncation is not followed by a sync, so the old contents may still be what the disk holds.
\<close>

definition wal_clear :: "ios \<Rightarrow> WAL \<Rightarrow> WAL \<times> ios" where
  "wal_clear s w =
     (if canClear w
      then case io_next s of (r1, s1) \<Rightarrow>
           case io_next s1 of (r2, s2) \<Rightarrow>
             (\<lparr>wal = fs_fresh (io_ok r2) (if io_ok r1 then [] else fs_data (wal w)) (fs_disk (wal w)),
               canClear = False, dirty = False\<rparr>, s2)
      else (w, s))"

definition cmd_size :: "string \<Rightarrow> u32" where
  "cmd_size cmd = of_nat (length cmd)"

text \<open>The four writes of a record, one after the other.\<close>

fun fs_append_all :: "ios \<Rightarrow> bytes list \<Rightarrow> fstream \<Rightarrow> fstream \<times> ios" where
  "fs_append_all s [] f = (f, s)"
| "fs_append_all s (b # bs) f = (case fs_append s b f of (f1, s1) \<Rightarrow> fs_append_all s1 bs f1)"

definition wal_parts :: "string \<Rightarrow> u64 \<Rightarrow> bytes list" where
  "wal_parts cmd seq =
     [put_u32 (cmd_size cmd), take (unat (cmd_size cmd)) cmd, put_u64 seq, [newline]]"

definition wal_append :: "ios \<Rightarrow> string \<Rightarrow> u64 \<Rightarrow> WAL \<Rightarrow> bool \<times> u64 \<times> WAL \<times> ios" where
  "wal_append s cmd nextSeq w =
     (if \<not> fs_open (wal w) then (False, nextSeq, w, s)
      else case fs_append_all s (wal_parts cmd nextSeq) (fs_clear (wal w)) of (f, s') \<Rightarrow>
        (fs_good f, nextSeq + 1, \<lparr>wal = f, canClear = True, dirty = True\<rparr>, s'))"

definition wal_sync :: "Settings \<Rightarrow> ios \<Rightarrow> WAL \<Rightarrow> bool \<times> WAL \<times> ios" where
  "wal_sync st s w =
     (if \<not> dirty w then (True, w, s)
      else case (if fsyncOnWrite st then flush_and_fsync s (wal w)
                 else case fs_flush s (wal w) of (f, s1) \<Rightarrow> (fs_good f, f, s1)) of (ok, f, s') \<Rightarrow>
        if \<not> ok then (False, w\<lparr>wal := f\<rparr>, s') else (True, w\<lparr>wal := f, dirty := False\<rparr>, s'))"

definition advanceSequence :: "u64 \<Rightarrow> u64 \<Rightarrow> u64" where
  "advanceSequence nxt current = (if current < nxt then nxt else current)"

text \<open>The reading loop; the newline after a record is skipped when it is there.\<close>

definition skip_newline :: "bytes \<Rightarrow> bytes" where
  "skip_newline r = (case r of [] \<Rightarrow> [] | c # cs \<Rightarrow> if c = newline then cs else r)"

lemma length_skip_newline: "length (skip_newline r) \<le> length r"
  by (simp add: skip_newline_def split: list.splits)

definition read_record :: "bytes \<Rightarrow> (WalEntry \<times> bytes) option" where
  "read_record bs =
     (case take_bytes 4 bs of
        None \<Rightarrow> None
      | Some (z, r1) \<Rightarrow>
          (let n = unat (get_u32 z) in
           if n > length r1 then None
           else case take_bytes n r1 of
                  None \<Rightarrow> None
                | Some (cmd, r2) \<Rightarrow>
                    (case take_bytes 8 r2 of
                       None \<Rightarrow> None
                     | Some (q, r3) \<Rightarrow> Some (\<lparr>we_cmd = cmd, we_seq = get_u64 q\<rparr>, skip_newline r3))))"

lemma read_record_shrinks: "read_record bs = Some (e, rest) \<Longrightarrow> length rest < length bs"
proof -
  assume "read_record bs = Some (e, rest)"
  then obtain z r1 cmd r2 q r3 where "take_bytes 4 bs = Some (z, r1)"
    "take_bytes (unat (get_u32 z)) r1 = Some (cmd, r2)" "take_bytes 8 r2 = Some (q, r3)"
    "rest = skip_newline r3"
    by (auto simp: read_record_def Let_def split: option.splits if_splits)
  with length_skip_newline [of r3] show ?thesis by (auto simp: take_bytes_Some)
qed

function read_records :: "bytes \<Rightarrow> WalEntry list" where
  "read_records bs =
     (case read_record bs of None \<Rightarrow> [] | Some (e, rest) \<Rightarrow> e # read_records rest)"
  by pat_completeness auto
termination
  by (relation "measure length") (auto dest: read_record_shrinks)

declare read_records.simps [simp del]

text \<open>\<open>getCmds\<close>; a read that fails after \<open>k\<close> bytes ends the loop there.\<close>

definition getCmds :: "ios \<Rightarrow> WAL \<Rightarrow> WalEntry list \<times> WAL \<times> ios" where
  "getCmds s w =
     (if \<not> fs_open (wal w) then ([], w, s)
      else case io_next s of (r, s') \<Rightarrow>
        let d = fs_data (wal w); vis = (case r of IoOk \<Rightarrow> d | IoFail k \<Rightarrow> take k d) in
        (read_records vis, w\<lparr>wal := fs_clear (wal w)\<rparr>, s'))"

section \<open>The record format\<close>

definition cmd_ok :: "WalEntry \<Rightarrow> bool" where
  "cmd_ok e \<longleftrightarrow> length (we_cmd e) < 2 ^ 32"

definition wal_record :: "WalEntry \<Rightarrow> bytes" where
  "wal_record e = concat (wal_parts (we_cmd e) (we_seq e))"

definition wal_bytes :: "WalEntry list \<Rightarrow> bytes" where
  "wal_bytes es = concat (map wal_record es)"

lemma wal_bytes_simps [simp]:
  "wal_bytes [] = []" "wal_bytes (e # es) = wal_record e @ wal_bytes es"
  "wal_bytes (es @ fs) = wal_bytes es @ wal_bytes fs"
  by (simp_all add: wal_bytes_def)

lemma unat_cmd_size: "length cmd < 2 ^ 32 \<Longrightarrow> unat (cmd_size cmd) = length cmd"
  by (simp add: cmd_size_def unat_of_nat_u32)

lemma wal_record_ok:
  "cmd_ok e \<Longrightarrow> wal_record e = put_u32 (cmd_size (we_cmd e)) @ we_cmd e @ put_u64 (we_seq e) @ [newline]"
  by (simp add: wal_record_def wal_parts_def cmd_ok_def unat_cmd_size)

lemma read_record_record:
  assumes "cmd_ok e"
  shows "read_record (wal_record e @ rest) = Some (e, rest)"
proof -
  let ?z = "put_u32 (cmd_size (we_cmd e))" and ?q = "put_u64 (we_seq e)"
  have n: "unat (get_u32 ?z) = length (we_cmd e)"
    using assms by (simp add: cmd_ok_def unat_cmd_size)
  have "take_bytes 4 (wal_record e @ rest) = Some (?z, we_cmd e @ ?q @ newline # rest)"
    using assms by (simp add: wal_record_ok)
  with n show ?thesis by (simp add: read_record_def skip_newline_def)
qed

lemma read_records_log:
  "list_all cmd_ok es \<Longrightarrow> read_records (wal_bytes es @ bs) = es @ read_records bs"
proof (induction es)
  case Nil
  show ?case by simp
next
  case (Cons e es)
  then have "read_record (wal_bytes (e # es) @ bs) = Some (e, wal_bytes es @ bs)"
    by (simp add: read_record_record)
  with Cons show ?case
    by (subst read_records.simps) (simp del: wal_bytes_simps)
qed

lemma read_records_Nil [simp]: "read_records [] = []"
  by (subst read_records.simps) (simp add: read_record_def)

text \<open>A torn record at the end is dropped, unless only its newline is missing.\<close>

lemma read_records_torn:
  assumes "cmd_ok e" and "n + 1 < length (wal_record e)"
  shows "read_records (take n (wal_record e)) = []"
proof -
  let ?z = "put_u32 (cmd_size (we_cmd e))" and ?q = "put_u64 (we_seq e)" and ?c = "we_cmd e"
  have w: "wal_record e = ?z @ ?c @ ?q @ [newline]" by (rule wal_record_ok [OF assms(1)])
  have sz: "unat (get_u32 ?z) = length ?c" using assms(1) by (simp add: cmd_ok_def unat_cmd_size)
  have n: "n < 12 + length ?c" using assms(2) by (simp add: w)
  have "read_record (take n (wal_record e)) = None"
  proof (cases "n < 4")
    case True
    then show ?thesis by (simp add: read_record_def w)
  next
    case False
    then have "take n (wal_record e) = ?z @ take (n - 4) (?c @ ?q)"
      using n by (simp add: w)
    then have h: "take_bytes 4 (take n (wal_record e)) = Some (?z, take (n - 4) (?c @ ?q))"
      by simp
    show ?thesis
    proof (cases "n - 4 < length ?c")
      case True
      with h sz show ?thesis by (simp add: read_record_def)
    next
      case long: False
      then have "take (n - 4) (?c @ ?q) = ?c @ take (n - 4 - length ?c) ?q" by simp
      then have "take_bytes (length ?c) (take (n - 4) (?c @ ?q)) = Some (?c, take (n - 4 - length ?c) ?q)"
        by simp
      moreover have "take_bytes 8 (take (n - 4 - length ?c) ?q) = None"
        using n False by simp
      ultimately show ?thesis using h sz by (simp add: read_record_def Let_def)
    qed
  qed
  then show ?thesis by (subst read_records.simps) simp
qed

section \<open>Appending and clearing\<close>

definition wal_logged :: "WAL \<Rightarrow> WalEntry list \<Rightarrow> bool" where
  "wal_logged w es \<longleftrightarrow> fs_open (wal w) \<and> list_all cmd_ok es \<and> fs_data (wal w) = wal_bytes es
     \<and> (es \<noteq> [] \<longrightarrow> canClear w)"

lemma fs_append_all_ok:
  assumes "fs_open f" and "fs_good f" and "all_ok s"
  shows "\<exists>s'. fs_append_all s bs f = (f\<lparr>fs_data := fs_data f @ concat bs\<rparr>, s') \<and> all_ok s'"
  using assms
proof (induction bs arbitrary: f s)
  case Nil
  then show ?case by simp
next
  case (Cons b bs)
  obtain s1 where 1: "fs_append s b f = (f\<lparr>fs_data := fs_data f @ b\<rparr>, s1)" "all_ok s1"
    using fs_append_ok [OF Cons.prems] by blast
  with Cons.IH [of "f\<lparr>fs_data := fs_data f @ b\<rparr>" s1] Cons.prems show ?case by auto
qed

lemma wal_append_logged:
  assumes "wal_logged w es" and "length cmd < 2 ^ 32" and "all_ok s"
    and "wal_append s cmd nextSeq w = (ok, seq', w', s')"
  shows "ok" and "seq' = nextSeq + 1" and "all_ok s'"
    and "wal_logged w' (es @ [\<lparr>we_cmd = cmd, we_seq = nextSeq\<rparr>])"
proof -
  let ?e = "\<lparr>we_cmd = cmd, we_seq = nextSeq\<rparr>" and ?f = "fs_clear (wal w)"
  obtain s1 where 1: "fs_append_all s (wal_parts cmd nextSeq) ?f
      = (?f\<lparr>fs_data := fs_data ?f @ wal_record ?e\<rparr>, s1)" "all_ok s1"
    using fs_append_all_ok [of ?f s "wal_parts cmd nextSeq"] assms
    by (auto simp: wal_logged_def wal_record_def)
  with assms show "ok" "seq' = nextSeq + 1" "all_ok s'" "wal_logged w' (es @ [?e])"
    by (auto simp: wal_append_def wal_logged_def cmd_ok_def)
qed

lemma wal_append_counts:
  "wal_append s cmd nextSeq w = (ok, seq', w', s') \<Longrightarrow> ok \<Longrightarrow> seq' = nextSeq + 1"
  by (auto simp: wal_append_def split: if_splits prod.splits)

lemma wal_clear_logged:
  assumes "wal_logged w es" and "all_ok s" and "wal_clear s w = (w', s')"
  shows "wal_logged w' []" and "all_ok s'"
proof -
  obtain r1 s1 where 1: "io_next s = (r1, s1)" by (cases "io_next s")
  obtain r2 s2 where 2: "io_next s1 = (r2, s2)" by (cases "io_next s1")
  have a1: "r1 = IoOk" "all_ok s1" using all_ok_io_next [OF assms(2) 1] by auto
  have a2: "r2 = IoOk" "all_ok s2" using all_ok_io_next [OF a1(2) 2] by auto
  show "wal_logged w' []" "all_ok s'"
    using assms a1 a2 1 2
    by (auto simp: wal_clear_def wal_logged_def fs_fresh_def split: if_splits)
qed

lemma getCmds_logged:
  assumes "wal_logged w es" and "all_ok s" and "getCmds s w = (cs, w', s')"
  shows "cs = es" and "wal_logged w' es" and "all_ok s'"
proof -
  obtain r s1 where 1: "io_next s = (r, s1)" by (cases "io_next s")
  have a1: "r = IoOk" "all_ok s1" using all_ok_io_next [OF assms(2) 1] by auto
  show "cs = es" "wal_logged w' es" "all_ok s'"
    using assms a1 1 read_records_log [of es "[]"]
    by (auto simp: getCmds_def wal_logged_def Let_def)
qed

text \<open>
  The records of a log that was cut off after \<open>n\<close> bytes: those whose bytes are all there. The last
  newline does not matter.
\<close>

fun whole :: "nat \<Rightarrow> WalEntry list \<Rightarrow> WalEntry list" where
  "whole n [] = []"
| "whole n (e # es) = (if length (wal_record e) \<le> n + 1 then e # whole (n - length (wal_record e)) es else [])"

lemma whole_prefix: "\<exists>m. whole n es = take m es"
proof (induction n es rule: whole.induct)
  case (2 n e es)
  show ?case
  proof (cases "length (wal_record e) \<le> n + 1")
    case True
    with 2 obtain m where "whole (n - length (wal_record e)) es = take m es" by blast
    with True show ?thesis by (intro exI [of _ "Suc m"]) simp
  qed (auto intro: exI [of _ 0])
qed simp

lemma whole_0: "list_all cmd_ok es \<Longrightarrow> whole 0 es = []"
  by (cases es) (simp_all add: wal_record_ok)

lemma read_records_whole:
  assumes "list_all cmd_ok es"
  shows "read_records (take n (wal_bytes es)) = whole n es"
  using assms
proof (induction es arbitrary: n)
  case Nil
  show ?case by (simp add: read_records.simps read_record_def take_bytes_def)
next
  case (Cons e es)
  then have ok: "cmd_ok e" by simp
  let ?r = "wal_record e"
  consider (torn) "n + 1 < length ?r" | (nonl) "n + 1 = length ?r" | (full) "length ?r \<le> n" by linarith
  then show ?case
  proof cases
    case torn
    then have t: "take n (wal_bytes (e # es)) = take n ?r" by simp
    show ?thesis unfolding t read_records_torn [OF ok torn] using torn by simp
  next
    case nonl
    let ?b = "put_u32 (cmd_size (we_cmd e)) @ we_cmd e @ put_u64 (we_seq e)"
    have "?r = ?b @ [newline]" using wal_record_ok [OF ok] by simp
    with nonl have t: "take n (wal_bytes (e # es)) = ?b" by simp
    have "unat (get_u32 (put_u32 (cmd_size (we_cmd e)))) = length (we_cmd e)"
      using ok by (simp add: cmd_ok_def unat_cmd_size)
    then have "read_record ?b = Some (e, [])"
      by (simp add: read_record_def skip_newline_def take_bytes_append [of "put_u64 (we_seq e)" 8 "[]", simplified])
    then have "read_records ?b = [e]" by (subst read_records.simps) simp
    moreover have "whole (n - length ?r) es = []" using nonl whole_0 Cons.prems by simp
    ultimately show ?thesis using t nonl by simp
  next
    case full
    then have t: "take n (wal_bytes (e # es)) = wal_bytes [e] @ take (n - length ?r) (wal_bytes es)" by simp
    have "read_records (take (n - length ?r) (wal_bytes es)) = whole (n - length ?r) es"
      using Cons by auto
    with t full read_records_log [of "[e]"] ok show ?thesis by (simp del: wal_bytes_simps)
  qed
qed

section \<open>An append that fails\<close>

text \<open>
  When the first write of a record stops after two of its four bytes, the two bytes stay in the file,
  and the length of the next record is read from them and from its own first two bytes.
\<close>

lemma torn_length:
  assumes "m < 65536" and "n < 65536"
  shows "le_nat (take 2 (le_bytes 4 m) @ take 2 (le_bytes 4 n)) = m + 65536 * n"
proof -
  have d: "x mod 256 + 256 * (x div 256 mod 256) = x" if "x < 65536" for x :: nat
  proof -
    have "x div 256 < 256" using that by (simp add: less_mult_imp_div_less)
    then show ?thesis by simp
  qed
  have f: "(4 :: nat) = Suc (Suc 2)" by simp
  have t: "take 2 (a # b # l) = [a, b]" for a b :: char and l by (simp add: take_Cons')
  show ?thesis unfolding f le_bytes.simps t using d [OF assms(1)] d [OF assms(2)] by simp
qed

lemma torn_log_unreadable:
  assumes "length c1 < 65536" and "c2 \<noteq> ''''" and "length c2 < 65536"
  shows "read_records (take 2 (put_u32 (cmd_size c1)) @ wal_record \<lparr>we_cmd = c2, we_seq = q\<rparr>) = []"
proof -
  let ?r = "wal_record \<lparr>we_cmd = c2, we_seq = q\<rparr>" and ?l = "put_u32 (cmd_size c2)"
  have u: "unat (cmd_size c1) = length c1" "unat (cmd_size c2) = length c2" using assms by (simp_all add: unat_cmd_size)
  have r: "?r = take 2 ?l @ drop 2 ?l @ c2 @ put_u64 q @ [newline]"
    using assms(3) wal_record_ok [of "\<lparr>we_cmd = c2, we_seq = q\<rparr>"] by (simp add: cmd_ok_def)
  let ?h = "take 2 (put_u32 (cmd_size c1)) @ take 2 ?l" and ?rest = "drop 2 ?l @ c2 @ put_u64 q @ [newline]"
  have "le_nat ?h = length c1 + 65536 * length c2"
    using torn_length [OF assms(1,3)] u by (simp add: put_u32_def)
  moreover have "length c1 + 65536 * length c2 < 2 ^ 32" using assms by simp
  ultimately have "unat (get_u32 ?h) = length c1 + 65536 * length c2"
    unfolding get_u32_def by (simp only: unat_of_nat_u32)
  moreover have "length ?rest = length c2 + 11" by simp
  moreover have "0 < length c2" using assms(2) by simp
  ultimately have n: "unat (get_u32 ?h) > length ?rest" by linarith
  have "take_bytes 4 (?h @ ?rest) = Some (?h, ?rest)" by (rule take_bytes_append) simp
  with n have "read_record (?h @ ?rest) = None" by (simp add: read_record_def)
  then have "read_records (?h @ ?rest) = []" by (subst read_records.simps) simp
  then show ?thesis by (simp add: r)
qed

lemma append_after_torn:
  assumes "wal_logged w es" and "length c1 < 65536" and "c2 \<noteq> ''''" and "length c2 < 65536"
    and "wal_append [IoFail 2] c1 q w = (ok1, q1, w1, s1)" and "wal_append s1 c2 q1 w1 = (ok2, q2, w2, s2)"
  shows "\<not> ok1" and "ok2" and "fst (getCmds s2 w2) = es"
proof -
  let ?p = "put_u32 (cmd_size c1)"
  have w: "fs_open (wal w)" "fs_data (wal w) = wal_bytes es" "list_all cmd_ok es" using assms(1) by (simp_all add: wal_logged_def)
  have 1: "\<not> ok1" "s1 = []" "fs_open (wal w1)" "fs_data (wal w1) = wal_bytes es @ take 2 ?p"
    using assms(5) w by (auto simp: wal_append_def wal_parts_def fs_append_def fs_write_at_def fs_clear_def)
  obtain s' where a: "fs_append_all [] (wal_parts c2 q1) (fs_clear (wal w1)) =
      ((fs_clear (wal w1))\<lparr>fs_data := fs_data (wal w1) @ wal_record \<lparr>we_cmd = c2, we_seq = q1\<rparr>\<rparr>, s')" "all_ok s'"
    using fs_append_all_ok [of "fs_clear (wal w1)" "[]" "wal_parts c2 q1"] 1(3) by (auto simp: wal_record_def)
  have 2: "ok2" "s2 = s'" "fs_open (wal w2)"
    "fs_data (wal w2) = wal_bytes es @ take 2 ?p @ wal_record \<lparr>we_cmd = c2, we_seq = q1\<rparr>"
    using assms(6) a 1 by (auto simp: wal_append_def)
  obtain s3 where "io_next s2 = (IoOk, s3)" using all_ok_io_next [of s2] a(2) 2(2) by (cases "io_next s2") auto
  then have "fst (getCmds s2 w2) = es"
    using 2 read_records_log [OF w(3)] torn_log_unreadable [OF assms(2-4)] by (simp add: getCmds_def Let_def)
  with 1 2 show "\<not> ok1" "ok2" "fst (getCmds s2 w2) = es" by simp_all
qed

section \<open>The contract of a command log\<close>

locale command_log =
  fixes holds :: "'w \<Rightarrow> WalEntry list \<Rightarrow> bool"
    and app :: "ios \<Rightarrow> string \<Rightarrow> u64 \<Rightarrow> 'w \<Rightarrow> bool \<times> u64 \<times> 'w \<times> ios"
    and clr :: "ios \<Rightarrow> 'w \<Rightarrow> 'w \<times> ios"
    and cmds :: "ios \<Rightarrow> 'w \<Rightarrow> WalEntry list \<times> 'w \<times> ios"
  assumes holds_app: "holds w es \<Longrightarrow> length c < 2 ^ 32 \<Longrightarrow> all_ok s \<Longrightarrow> app s c q w = (ok, q', w', s') \<Longrightarrow>
        ok \<and> q' = q + 1 \<and> all_ok s' \<and> holds w' (es @ [\<lparr>we_cmd = c, we_seq = q\<rparr>])"
    and holds_clr: "holds w es \<Longrightarrow> all_ok s \<Longrightarrow> clr s w = (w', s') \<Longrightarrow> holds w' [] \<and> all_ok s'"
    and cmds_holds: "holds w es \<Longrightarrow> all_ok s \<Longrightarrow> cmds s w = (cs, w', s') \<Longrightarrow>
        cs = es \<and> holds w' es \<and> all_ok s'"
begin

text \<open>A sequence of appended commands is read back in order, numbered consecutively.\<close>

primrec log_all :: "ios \<Rightarrow> string list \<Rightarrow> u64 \<Rightarrow> 'w \<Rightarrow> u64 \<times> 'w \<times> ios" where
  "log_all s [] q w = (q, w, s)"
| "log_all s (c # cs) q w = (case app s c q w of (ok, q1, w1, s1) \<Rightarrow> log_all s1 cs q1 w1)"

primrec numbered :: "u64 \<Rightarrow> string list \<Rightarrow> WalEntry list" where
  "numbered q [] = []"
| "numbered q (c # cs) = \<lparr>we_cmd = c, we_seq = q\<rparr> # numbered (q + 1) cs"

lemma log_all_holds:
  "holds w es \<Longrightarrow> all_ok s \<Longrightarrow> list_all (\<lambda>c. length c < 2 ^ 32) cs \<Longrightarrow>
   log_all s cs q w = (q', w', s') \<Longrightarrow> holds w' (es @ numbered q cs) \<and> all_ok s'"
proof (induction cs arbitrary: s q w es)
  case Nil
  then show ?case by simp
next
  case (Cons c cs)
  obtain ok q1 w1 s1 where 1: "app s c q w = (ok, q1, w1, s1)" by (cases "app s c q w")
  have len: "length c < 2 ^ 32" using Cons.prems(3) by simp
  from holds_app [OF Cons.prems(1) len Cons.prems(2) 1]
  have "holds w1 (es @ [\<lparr>we_cmd = c, we_seq = q\<rparr>])" "all_ok s1" "q1 = q + 1" by auto
  with Cons.IH [OF this(1,2)] Cons.prems(3,4) 1 show ?case by simp
qed

end

interpretation wl: command_log wal_logged wal_append wal_clear getCmds
proof unfold_locales
  show "ok \<and> q' = q + 1 \<and> all_ok s' \<and> wal_logged w' (es @ [\<lparr>we_cmd = c, we_seq = q\<rparr>])"
    if "wal_logged w es" "length c < 2 ^ 32" "all_ok s" "wal_append s c q w = (ok, q', w', s')"
    for w es c s q ok q' w' s'
    using wal_append_logged [OF that] by simp
  show "wal_logged w' [] \<and> all_ok s'" if "wal_logged w es" "all_ok s" "wal_clear s w = (w', s')"
    for w es s w' s'
    using wal_clear_logged [OF that] by simp
  show "cs = es \<and> wal_logged w' es \<and> all_ok s'"
    if "wal_logged w es" "all_ok s" "getCmds s w = (cs, w', s')" for w es s cs w' s'
    using getCmds_logged [OF that] by simp
qed

end
