(* ===== verification/Json.thy ===== *)
theory Json
  imports Complex_Main Zest_Prelude
begin

text \<open>
  The JSON values that the program builds and reads with the vendored library \<open>lib/json.hpp\<close>. The
  library itself is not modelled: printing and parsing are parameters of the definitions that
  call them. An object keeps one member per name.
\<close>

datatype json =
    JNull
  | JBool bool
  | JInt int
  | JReal rat
  | JStr string
  | JArr "json list"
  | JObj "(string \<times> json) list"

text \<open>\<open>dump(-1)\<close> prints an array as its elements between brackets, separated by single commas.\<close>

fun join :: "string \<Rightarrow> string list \<Rightarrow> string" where
  "join sep [] = []"
| "join sep [x] = x"
| "join sep (x # y # xs) = x @ sep @ join sep (y # xs)"

definition dumps_arrays :: "(json \<Rightarrow> string) \<Rightarrow> bool" where
  "dumps_arrays dump \<longleftrightarrow>
     (\<forall>xs. dump (JArr xs) = ''['' @ join '','' (map dump xs) @ '']'') \<and> (\<forall>ms. dump (JObj ms) \<noteq> [])"

lemma join_append:
  "xs \<noteq> [] \<Longrightarrow> ys \<noteq> [] \<Longrightarrow> join sep (xs @ ys) = join sep xs @ sep @ join sep ys"
proof (induction sep xs rule: join.induct)
  case (2 sep x)
  then show ?case by (cases ys) auto
qed auto

lemma join_nonempty: "xs \<noteq> [] \<Longrightarrow> list_all (\<lambda>x. x \<noteq> []) xs \<Longrightarrow> join sep xs \<noteq> []"
  by (induction sep xs rule: join.induct) auto

end
