(* ===== verification/PerfMonitoring.thy ===== *)
theory PerfMonitoring
  imports Settings Json
begin

text \<open>
  \<open>PerfMonitoring.hpp\<close> and \<open>PerfMonitoring.cpp\<close>: per-command counters. The counters are 32-bit and
  wrap; latencies are kept as rationals instead of doubles, so that sums are exact.
\<close>

record Stats =
  nbRequests :: u32
  nbCacheMisses :: u32
  totalLatency :: rat

definition new_Stats :: Stats where
  "new_Stats = \<lparr>nbRequests = 0, nbCacheMisses = 0, totalLatency = 0\<rparr>"

definition avgLatency :: "Stats \<Rightarrow> rat" where
  "avgLatency s = (if nbRequests s > 0 then totalLatency s / of_nat (unat (nbRequests s)) else 0)"

definition avgCacheMissPercent :: "Stats \<Rightarrow> rat" where
  "avgCacheMissPercent s =
     (if nbRequests s > 0
      then of_nat (unat (nbCacheMisses s)) / of_nat (unat (nbRequests s)) * 100 else 0)"

definition statsToJson :: "Stats \<Rightarrow> json" where
  "statsToJson s = JObj
     [(''nbRequests'', JInt (uint (nbRequests s))),
      (''nbCacheMisses'', JInt (uint (nbCacheMisses s))),
      (''avgLatencyMs'', JReal (avgLatency s)),
      (''avgCacheMissPercent'', JReal (avgCacheMissPercent s))]"

record PerfMonitoring =
  gStats :: Stats
  sStats :: Stats
  dStats :: Stats
  gbStats :: Stats
  sbStats :: Stats
  dbStats :: Stats

definition new_PerfMonitoring :: PerfMonitoring where
  "new_PerfMonitoring = \<lparr>gStats = new_Stats, sStats = new_Stats, dStats = new_Stats,
                         gbStats = new_Stats, sbStats = new_Stats, dbStats = new_Stats\<rparr>"

definition all_stats :: "PerfMonitoring \<Rightarrow> Stats list" where
  "all_stats p = [gStats p, sStats p, dStats p, gbStats p, sbStats p, dbStats p]"

definition getPerformances :: "PerfMonitoring \<Rightarrow> json" where
  "getPerformances p =
     (let totalRequests = sum_list (map nbRequests (all_stats p));
          totalCacheMisses = sum_list (map nbCacheMisses (all_stats p));
          total = sum_list (map totalLatency (all_stats p)) in
      JObj
        [(''get'', statsToJson (gStats p)),
         (''set'', statsToJson (sStats p)),
         (''del'', statsToJson (dStats p)),
         (''getby'', statsToJson (gbStats p)),
         (''setby'', statsToJson (sbStats p)),
         (''delby'', statsToJson (dbStats p)),
         (''total'', JObj
            [(''nbRequests'', JInt (uint totalRequests)),
             (''nbCacheMisses'', JInt (uint totalCacheMisses)),
             (''avgCacheMissPercent'',
                JReal (if totalRequests > 0
                       then of_nat (unat totalCacheMisses) / of_nat (unat totalRequests) * 100 else 0)),
             (''avgLatencyMs'',
                JReal (if totalRequests > 0 then total / of_nat (unat totalRequests) else 0))])])"

text \<open>The three updates that each of the six \<open>add...Stats\<close> makes to its own counters.\<close>

definition add_request :: "bool \<Rightarrow> rat \<Rightarrow> Stats \<Rightarrow> Stats" where
  "add_request miss latency s =
     s\<lparr>nbRequests := nbRequests s + 1,
       totalLatency := totalLatency s + latency,
       nbCacheMisses := (if miss then nbCacheMisses s + 1 else nbCacheMisses s)\<rparr>"

definition addGetStats :: "bool \<Rightarrow> rat \<Rightarrow> PerfMonitoring \<Rightarrow> PerfMonitoring" where
  "addGetStats miss l p = p\<lparr>gStats := add_request miss l (gStats p)\<rparr>"

definition addSetStats :: "bool \<Rightarrow> rat \<Rightarrow> PerfMonitoring \<Rightarrow> PerfMonitoring" where
  "addSetStats miss l p = p\<lparr>sStats := add_request miss l (sStats p)\<rparr>"

definition addDelStats :: "bool \<Rightarrow> rat \<Rightarrow> PerfMonitoring \<Rightarrow> PerfMonitoring" where
  "addDelStats miss l p = p\<lparr>dStats := add_request miss l (dStats p)\<rparr>"

definition addGetByStats :: "bool \<Rightarrow> rat \<Rightarrow> PerfMonitoring \<Rightarrow> PerfMonitoring" where
  "addGetByStats miss l p = p\<lparr>gbStats := add_request miss l (gbStats p)\<rparr>"

definition addSetByStats :: "bool \<Rightarrow> rat \<Rightarrow> PerfMonitoring \<Rightarrow> PerfMonitoring" where
  "addSetByStats miss l p = p\<lparr>sbStats := add_request miss l (sbStats p)\<rparr>"

definition addDelByStats :: "bool \<Rightarrow> rat \<Rightarrow> PerfMonitoring \<Rightarrow> PerfMonitoring" where
  "addDelByStats miss l p = p\<lparr>dbStats := add_request miss l (dbStats p)\<rparr>"

lemmas add_stats_defs = addGetStats_def addSetStats_def addDelStats_def addGetByStats_def
  addSetByStats_def addDelByStats_def

section \<open>Counters\<close>

text \<open>Until a counter wraps, misses never exceed requests, so the percentage stays within 0..100.\<close>

definition stats_ok :: "Stats \<Rightarrow> bool" where
  "stats_ok s \<longleftrightarrow> nbCacheMisses s \<le> nbRequests s \<and> totalLatency s \<ge> 0"

definition requests_left :: "Stats \<Rightarrow> bool" where
  "requests_left s \<longleftrightarrow> nbRequests s \<noteq> - 1"

lemma new_Stats_ok [simp]: "stats_ok new_Stats"
  by (simp add: stats_ok_def new_Stats_def)

lemma add_request_ok:
  assumes "stats_ok s" and "requests_left s" and "0 \<le> l"
  shows "stats_ok (add_request miss l s)"
proof -
  have n: "unat (nbRequests s + 1) = unat (nbRequests s) + 1"
    using assms(2) unat_u32_less [of "nbRequests s"]
    by (intro unat_Suc_id) (auto simp: requests_left_def word_unat_eq_iff unat_minus_one_u32)
  have le: "unat (nbCacheMisses s) \<le> unat (nbRequests s)"
    using assms(1) by (simp add: stats_ok_def word_le_nat_alt)
  then have "unat (nbCacheMisses s + 1) \<le> unat (nbRequests s) + 1"
    by (simp add: unat_word_ariths order_trans [OF mod_less_eq_dividend])
  then have "(if miss then nbCacheMisses s + 1 else nbCacheMisses s) \<le> nbRequests s + 1"
    using n le by (auto simp: word_le_nat_alt)
  with assms show ?thesis by (simp add: stats_ok_def add_request_def)
qed

lemma percent_range:
  fixes m n :: nat
  shows "m \<le> n \<Longrightarrow> 0 < n \<Longrightarrow>
     0 \<le> (of_nat m / of_nat n * 100 :: rat) \<and> (of_nat m / of_nat n * 100 :: rat) \<le> 100"
  by (simp add: field_simps)

lemma avgCacheMissPercent_range:
  assumes "stats_ok s"
  shows "0 \<le> avgCacheMissPercent s \<and> avgCacheMissPercent s \<le> 100"
proof (cases "nbRequests s > 0")
  case True
  then have "0 < unat (nbRequests s)" by (simp add: word_less_nat_alt)
  moreover have "unat (nbCacheMisses s) \<le> unat (nbRequests s)"
    using assms by (simp add: stats_ok_def word_le_nat_alt)
  ultimately show ?thesis
    using percent_range True unfolding avgCacheMissPercent_def by presburger
qed (simp add: avgCacheMissPercent_def)

text \<open>The average is the mean of the latencies recorded, as long as the counter has not wrapped.\<close>

definition record_all :: "(bool \<times> rat) list \<Rightarrow> Stats \<Rightarrow> Stats" where
  "record_all rs s = fold (\<lambda>(miss, l). add_request miss l) rs s"

lemma record_all_counts:
  "unat (nbRequests s) + length rs < 2 ^ 32 \<Longrightarrow>
     unat (nbRequests (record_all rs s)) = unat (nbRequests s) + length rs
     \<and> totalLatency (record_all rs s) = totalLatency s + sum_list (map snd rs)"
proof (induction rs arbitrary: s)
  case Nil
  then show ?case by (simp add: record_all_def)
next
  case (Cons r rs)
  obtain miss l where r: "r = (miss, l)" by (cases r)
  let ?s = "add_request miss l s"
  have "unat (nbRequests ?s) = unat (nbRequests s) + 1"
    using Cons.prems by (simp add: add_request_def unat_word_ariths)
  with Cons.IH [of ?s] Cons.prems show ?case
    by (simp add: r record_all_def add_request_def)
qed

end
