(* ===== verification/Shard.thy ===== *)
theory Shard
  imports KeyValue LRUCache StorageManager WAL PerfMonitoring "HOL-Library.List_Lexorder" "HOL-Library.Char_ord"
    "HOL-Library.Sublist"
begin

text \<open>
  \<open>Shard.hpp\<close> and \<open>Shard.cpp\<close>: one partition of the keys, made of an index, the value segments, a
  cache, a write-ahead log and counters. A shard runs each operation under \<open>readMtx\<close>, so an
  operation is one step on the record below. \<open>sh_ios\<close> holds the outcomes the file system gives to
  the coming calls and \<open>sh_clock\<close> the latencies measured by the coming operations.

  The meaning of a shard is the map \<open>contents\<close> from keys to values. The lemmas show that every
  operation computes the operation of that map, under every outcome of the file system.
\<close>

record Shard =
  sh_settings :: Settings
  shardId :: nat
  perfMonitor :: PerfMonitoring
  sh_wal :: WAL
  indexManager :: IndexManager
  storageManager :: StorageManager
  sh_cache :: LRUCache
  isStopped :: bool
  sh_ios :: ios
  sh_clock :: "rat list"

section \<open>Calls on the members\<close>

definition sh_append :: "string \<Rightarrow> Shard \<Rightarrow> IndexEntry \<times> Shard" where
  "sh_append v sh =
     (case sm_append (sh_settings sh) (sh_ios sh) v (storageManager sh) of (e, sm, s) \<Rightarrow>
        (e, sh\<lparr>storageManager := sm, sh_ios := s\<rparr>))"

definition sh_read :: "IndexEntry \<Rightarrow> Shard \<Rightarrow> string \<times> Shard" where
  "sh_read e sh =
     (case sm_read (sh_ios sh) e (storageManager sh) of (v, sm, s) \<Rightarrow>
        (v, sh\<lparr>storageManager := sm, sh_ios := s\<rparr>))"

definition sh_insert :: "IndexEntry \<Rightarrow> Shard \<Rightarrow> Shard" where
  "sh_insert e sh =
     (case im_insert (sh_ios sh) e (indexManager sh) of (im, s) \<Rightarrow>
        sh\<lparr>indexManager := im, sh_ios := s\<rparr>)"

definition sh_update :: "string \<Rightarrow> IndexEntry \<Rightarrow> Shard \<Rightarrow> Shard" where
  "sh_update k e sh =
     (case im_update (sh_ios sh) k e (indexManager sh) of (im, s) \<Rightarrow>
        sh\<lparr>indexManager := im, sh_ios := s\<rparr>)"

definition sh_put :: "IndexEntry \<Rightarrow> string \<Rightarrow> Shard \<Rightarrow> Shard" where
  "sh_put e v sh = sh\<lparr>sh_cache := cache_put e v (sh_cache sh)\<rparr>"

definition sh_uncache :: "string \<Rightarrow> Shard \<Rightarrow> Shard" where
  "sh_uncache k sh = sh\<lparr>sh_cache := cache_remove k (sh_cache sh)\<rparr>"

text \<open>The latency is measured and handed to one of the \<open>add...Stats\<close>.\<close>

definition record_stats ::
  "(bool \<Rightarrow> rat \<Rightarrow> PerfMonitoring \<Rightarrow> PerfMonitoring) \<Rightarrow> bool \<Rightarrow> Shard \<Rightarrow> Shard" where
  "record_stats add miss sh =
     sh\<lparr>perfMonitor := add miss (case sh_clock sh of [] \<Rightarrow> 0 | l # ls \<Rightarrow> l) (perfMonitor sh),
        sh_clock := tl (sh_clock sh)\<rparr>"

definition live_entry :: "IndexEntry \<Rightarrow> bool" where
  "live_entry e \<longleftrightarrow> ie_segmentId e \<noteq> INVALID_SEGMENT_ID \<and> \<not> ie_isTombstone e"

section \<open>Single-key commands\<close>

definition sh_get :: "string \<Rightarrow> Shard \<Rightarrow> ResultType \<times> Shard" where
  "sh_get k sh =
     (case cache_get k (sh_cache sh) of (ce, c) \<Rightarrow>
      let sh1 = sh\<lparr>sh_cache := c\<rparr> in
      if live_entry (ce_index ce)
      then (res Success (ce_value ce) 1, record_stats addGetStats False sh1)
      else let entry = search k (indexManager sh1) in
        if live_entry entry
        then case sh_read entry sh1 of (v, sh2) \<Rightarrow>
               if v = '''' then (res Error READ_FAILED 0, sh2)
               else (res Success v 1, record_stats addGetStats True (sh_put entry v sh2))
        else (res Error KEY_NOT_FOUND 0, record_stats addGetStats True sh1))"

definition segment_full_message :: string where
  "segment_full_message = ''Failed to write: segment full''"

definition sh_set :: "string \<Rightarrow> string \<Rightarrow> Shard \<Rightarrow> ResultType \<times> Shard" where
  "sh_set k v sh =
     (case sh_append v sh of (e, sh1) \<Rightarrow>
      if ie_segmentId e = INVALID_SEGMENT_ID
      then (res Error segment_full_message 0, record_stats addSetStats False sh1)
      else let entry = e\<lparr>ie_key := k\<rparr> in
        (res Success SUCCESS_SET 1,
         record_stats addSetStats False (sh_put entry v (sh_insert entry sh1))))"

definition sh_del :: "string \<Rightarrow> Shard \<Rightarrow> ResultType \<times> Shard" where
  "sh_del k sh =
     (let sh1 = sh_uncache k sh; entry = search k (indexManager sh1) in
      if live_entry entry
      then (res Success SUCCESS_DEL 1,
            record_stats addDelStats False
              (sh_uncache k (sh_update k (entry\<lparr>ie_isTombstone := True\<rparr>) sh1)))
      else (res Error KEY_NOT_FOUND 0, record_stats addDelStats False sh1))"

section \<open>Bulk commands\<close>

text \<open>
  The counter shared by the shards of one bulk command is passed in and handed back; \<open>None\<close> is
  the null pointer. \<open>take_slot\<close> is the increment that is undone when the limit was reached.
\<close>

definition limit_reached :: "ValidationRule \<Rightarrow> u32 option \<Rightarrow> bool" where
  "limit_reached valid g \<longleftrightarrow>
     limit valid \<noteq> UINT_MAX \<and> (case g of None \<Rightarrow> False | Some n \<Rightarrow> n \<ge> limit valid)"

definition take_slot :: "ValidationRule \<Rightarrow> u32 option \<Rightarrow> bool \<times> u32 option" where
  "take_slot valid g =
     (if limit valid \<noteq> UINT_MAX
      then case g of
             None \<Rightarrow> (True, None)
           | Some prev \<Rightarrow> if prev \<ge> limit valid then (False, Some (prev + 1 - 1)) else (True, Some (prev + 1))
      else (True, g))"

definition give_back :: "ValidationRule \<Rightarrow> u32 option \<Rightarrow> u32 option" where
  "give_back valid g = (if limit valid \<noteq> UINT_MAX then map_option (\<lambda>n. n - 1) g else g)"

definition matches :: "ValidationRule \<Rightarrow> u32 option \<Rightarrow> Shard \<Rightarrow> IndexEntry list" where
  "matches valid g sh = findMatching (func valid) (\<lambda>_. limit_reached valid g) (indexManager sh)"

fun getBy_loop ::
  "ValidationRule \<Rightarrow> IndexEntry list \<Rightarrow> u32 option \<Rightarrow> json list \<Rightarrow> Shard \<Rightarrow> json list \<times> u32 option \<times> Shard" where
  "getBy_loop valid [] g acc sh = (acc, g, sh)"
| "getBy_loop valid (e # es) g acc sh =
     (if \<not> live_entry e then getBy_loop valid es g acc sh
      else case take_slot valid g of (ok, g1) \<Rightarrow>
        if \<not> ok then (acc, g1, sh)
        else case sh_read e sh of (v, sh1) \<Rightarrow>
          if v = '''' then getBy_loop valid es g1 acc sh1
          else getBy_loop valid es g1 (acc @ [JObj [(ie_key e, JStr v)]]) sh1)"

definition sh_getBy ::
  "(json \<Rightarrow> string) \<Rightarrow> ValidationRule \<Rightarrow> u32 option \<Rightarrow> Shard \<Rightarrow> ResultType \<times> u32 option \<times> Shard" where
  "sh_getBy dump valid g sh =
     (case getBy_loop valid (matches valid g sh) g [] sh of (arr, g1, sh1) \<Rightarrow>
        (res Success (dump (JArr arr)) (int (length arr)), g1, record_stats addGetByStats False sh1))"

fun setBy_loop ::
  "ValidationRule \<Rightarrow> string \<Rightarrow> IndexEntry list \<Rightarrow> u32 option \<Rightarrow> int \<Rightarrow> Shard \<Rightarrow> int \<times> u32 option \<times> Shard" where
  "setBy_loop valid v [] g n sh = (n, g, sh)"
| "setBy_loop valid v (e # es) g n sh =
     (if \<not> live_entry e then setBy_loop valid v es g n sh
      else case take_slot valid g of (ok, g1) \<Rightarrow>
        if \<not> ok then (n, g1, sh)
        else case sh_append v sh of (ne, sh1) \<Rightarrow>
          if ie_segmentId ne = INVALID_SEGMENT_ID then setBy_loop valid v es (give_back valid g1) n sh1
          else let ne1 = ne\<lparr>ie_key := ie_key e\<rparr> in
            setBy_loop valid v es g1 (n + 1) (sh_put ne1 v (sh_insert ne1 sh1)))"

definition setBy_message :: "int \<Rightarrow> string" where
  "setBy_message n = ''Value successfully modified for '' @ show_int n @ '' entries''"

definition sh_setBy ::
  "ValidationRule \<Rightarrow> string \<Rightarrow> u32 option \<Rightarrow> Shard \<Rightarrow> ResultType \<times> u32 option \<times> Shard" where
  "sh_setBy valid v g sh =
     (case setBy_loop valid v (matches valid g sh) g 0 sh of (n, g1, sh1) \<Rightarrow>
        (res Success (setBy_message n) n, g1, record_stats addSetByStats False sh1))"

fun delBy_loop ::
  "ValidationRule \<Rightarrow> IndexEntry list \<Rightarrow> u32 option \<Rightarrow> int \<Rightarrow> Shard \<Rightarrow> int \<times> u32 option \<times> Shard" where
  "delBy_loop valid [] g n sh = (n, g, sh)"
| "delBy_loop valid (e # es) g n sh =
     (if \<not> live_entry e then delBy_loop valid es g n sh
      else case take_slot valid g of (ok, g1) \<Rightarrow>
        if \<not> ok then (n, g1, sh)
        else delBy_loop valid es g1 (n + 1)
               (sh_uncache (ie_key e) (sh_update (ie_key e) (e\<lparr>ie_isTombstone := True\<rparr>) sh)))"

definition delBy_message :: "int \<Rightarrow> string" where
  "delBy_message n = ''Successfully deleted '' @ show_int n @ '' entries''"

definition sh_delBy :: "ValidationRule \<Rightarrow> u32 option \<Rightarrow> Shard \<Rightarrow> ResultType \<times> u32 option \<times> Shard" where
  "sh_delBy valid g sh =
     (case delBy_loop valid (matches valid g sh) g 0 sh of (n, g1, sh1) \<Rightarrow>
        (res Success (delBy_message n) n, g1, record_stats addDelByStats False sh1))"

text \<open>
  \<open>std::nth_element\<close> leaves the order inside the two parts open, so it is an argument: \<open>nth_el n xs\<close>
  is \<open>xs\<close> after the call at position \<open>n\<close>.
\<close>

definition trim_keys :: "(nat \<Rightarrow> string list \<Rightarrow> string list) \<Rightarrow> u32 \<Rightarrow> string list \<Rightarrow> string list" where
  "trim_keys nth_el mx keys =
     (if length keys > unat mx then take (unat mx) (nth_el (unat mx) keys) else keys)"

definition matchingKeys ::
  "(nat \<Rightarrow> string list \<Rightarrow> string list) \<Rightarrow> ValidationRule \<Rightarrow> Shard \<Rightarrow> string list" where
  "matchingKeys nth_el valid sh =
     trim_keys nth_el (limit valid)
       (map ie_key (findMatching (func valid) (\<lambda>_. False) (indexManager sh)))"

section \<open>Flushing\<close>

definition sh_sm_flush :: "Shard \<Rightarrow> bool \<times> Shard" where
  "sh_sm_flush sh =
     (case sm_flush (sh_ios sh) (storageManager sh) of (ok, sm, s) \<Rightarrow>
        (ok, sh\<lparr>storageManager := sm, sh_ios := s\<rparr>))"

definition sh_im_flush :: "Shard \<Rightarrow> bool \<times> Shard" where
  "sh_im_flush sh =
     (case im_flush (sh_ios sh) (indexManager sh) of (ok, im, s) \<Rightarrow>
        (ok, sh\<lparr>indexManager := im, sh_ios := s\<rparr>))"

definition flushData :: "Shard \<Rightarrow> bool \<times> Shard" where
  "flushData sh =
     (case sh_sm_flush sh of (ok, sh1) \<Rightarrow> if ok then sh_im_flush sh1 else (False, sh1))"

definition sh_clear_wal :: "Shard \<Rightarrow> Shard" where
  "sh_clear_wal sh =
     (case wal_clear (sh_ios sh) (sh_wal sh) of (w, s) \<Rightarrow> sh\<lparr>sh_wal := w, sh_ios := s\<rparr>)"

definition sh_flush :: "Shard \<Rightarrow> Shard" where
  "sh_flush sh = (case flushData sh of (ok, sh1) \<Rightarrow> if ok then sh_clear_wal sh1 else sh1)"

definition sh_stop :: "Shard \<Rightarrow> Shard" where
  "sh_stop sh =
     (if isStopped sh then sh else case flushData sh of (ok, sh1) \<Rightarrow> sh1\<lparr>isStopped := True\<rparr>)"

section \<open>Compaction\<close>

definition liveBytes :: "IndexEntry list \<Rightarrow> u32 \<Rightarrow> u64" where
  "liveBytes es i = sum_list (map (\<lambda>e. ucast (ie_size e)) (filter (\<lambda>e. ie_segmentId e = i) es))"

fun compact_loop ::
  "u32 \<Rightarrow> (u32 \<Rightarrow> u64) \<Rightarrow> IndexEntry list \<Rightarrow> Shard \<Rightarrow> IndexEntry list \<times> bool \<times> Shard" where
  "compact_loop current live [] sh = ([], False, sh)"
| "compact_loop current live (e # es) sh =
     (if ie_segmentId e = current \<or> live (ie_segmentId e) * 2 \<ge> SegSize (sh_settings sh)
      then (case compact_loop current live es sh of (es1, moved, sh1) \<Rightarrow> (e # es1, moved, sh1))
      else case sh_read e sh of (v, sh1) \<Rightarrow>
        if v = '''' then (case compact_loop current live es sh1 of (es1, moved, sh2) \<Rightarrow> (e # es1, moved, sh2))
        else case sh_append v sh1 of (r, sh2) \<Rightarrow>
          if ie_segmentId r = INVALID_SEGMENT_ID
          then (case compact_loop current live es sh2 of (es1, moved, sh3) \<Rightarrow> (e # es1, moved, sh3))
          else let r1 = r\<lparr>ie_key := ie_key e\<rparr> in
            case compact_loop current live es (sh_insert r1 sh2) of (es1, moved, sh3) \<Rightarrow>
              (r1 # es1, True, sh3))"

definition sh_removeUnused :: "IndexEntry list \<Rightarrow> Shard \<Rightarrow> Shard" where
  "sh_removeUnused es sh =
     (case removeUnusedSegments (sh_ios sh) (map ie_segmentId es) (storageManager sh) of (sm, s) \<Rightarrow>
        sh\<lparr>storageManager := sm, sh_ios := s\<rparr>)"

definition compactSegments :: "IndexEntry list \<Rightarrow> Shard \<Rightarrow> Shard" where
  "compactSegments entries sh =
     (case compact_loop (currentSegmentId (storageManager sh)) (liveBytes entries) entries sh of
        (es, moved, sh1) \<Rightarrow>
          (case (if moved then flushData sh1 else (True, sh1)) of (ok, sh2) \<Rightarrow>
             if \<not> ok then sh2 else sh_removeUnused es sh2))"

text \<open>One round of the compactor thread.\<close>

definition compactor_round :: "Shard \<Rightarrow> Shard" where
  "compactor_round sh =
     (case im_compact (sh_ios sh) (indexManager sh) of (es, im, s) \<Rightarrow>
        compactSegments es (sh\<lparr>indexManager := im, sh_ios := s\<rparr>))"

section \<open>Boot\<close>

fun verify_loop :: "IndexEntry list \<Rightarrow> Shard \<Rightarrow> Shard" where
  "verify_loop [] sh = sh"
| "verify_loop (e # es) sh =
     (if \<not> live_entry e then verify_loop es sh
      else if \<not> contains e (storageManager sh)
      then verify_loop es (sh_update (ie_key e) (e\<lparr>ie_isTombstone := True\<rparr>) sh)
      else verify_loop es sh)"

definition verifyIndexEntries :: "Shard \<Rightarrow> Shard" where
  "verifyIndexEntries sh = verify_loop (getAll UINT_MAX (\<lambda>_. False) (indexManager sh)) sh"

fun fill_loop :: "IndexEntry list \<Rightarrow> string set \<Rightarrow> Shard \<Rightarrow> Shard" where
  "fill_loop [] seen sh = sh"
| "fill_loop (e # es) seen sh =
     (if \<not> live_entry e then fill_loop es seen sh
      else if ie_key e \<in> seen then fill_loop es seen sh
      else case sh_read e sh of (v, sh1) \<Rightarrow>
        if v = '''' then fill_loop es (insert (ie_key e) seen) sh1
        else fill_loop es (insert (ie_key e) seen) (sh_put e v sh1))"

definition fillCache :: "Shard \<Rightarrow> Shard" where
  "fillCache sh =
     (let entries = getAll UINT_MAX (\<lambda>_. False) (indexManager sh);
          entriesCount = (of_nat (length entries) :: u32);
          cacheLimit = (if CacheSize (sh_settings sh) < entriesCount
                        then CacheSize (sh_settings sh) else entriesCount) in
      fill_loop (take (unat cacheLimit) entries) {} sh)"

text \<open>What the shard's directory holds before boot; \<open>None\<close> is a file or directory that is absent.\<close>

record ShardFiles =
  f_dir :: bool
  f_index :: "bytes option"
  f_seg :: "(string \<times> bytes) list option"
  f_wal :: "bytes option"

datatype boot_error = FilesystemException | RuntimeError string

definition path_join :: "string \<Rightarrow> string \<Rightarrow> string" where
  "path_join p q = (if p = [] \<or> last p = CHR ''/'' then p @ q else p @ ''/'' @ q)"

definition shard_path :: "Settings \<Rightarrow> nat \<Rightarrow> string" where
  "shard_path st i = path_join (path_join (DbPath st) ''shards'') (show_nat i)"

definition shard_settings :: "Settings \<Rightarrow> nat \<Rightarrow> Settings" where
  "shard_settings st i =
     (let p = shard_path st i in
      st\<lparr>DbPath := p, IndexPath := path_join p ''INDEX'', WalPath := path_join p ''WAL''\<rparr>)"

text \<open>Creates what is absent; the outcome of each creation comes from the script.\<close>

definition create_missing ::
  "ios \<Rightarrow> boot_error \<Rightarrow> 'a \<Rightarrow> 'a option \<Rightarrow> boot_error + ('a \<times> ios)" where
  "create_missing s err blank f =
     (case f of
        Some x \<Rightarrow> Inr (x, s)
      | None \<Rightarrow> (case io_next s of (IoOk, s1) \<Rightarrow> Inr (blank, s1) | (IoFail k, s1) \<Rightarrow> Inl err))"

definition boot_files :: "ios \<Rightarrow> ShardFiles \<Rightarrow> boot_error + (bytes \<times> (string \<times> bytes) list \<times> bytes \<times> ios)" where
  "boot_files s f =
     (case create_missing s FilesystemException ()
             (if f_index f = None \<and> \<not> f_dir f then None else Some ()) of
        Inl e \<Rightarrow> Inl e
      | Inr (_, s1) \<Rightarrow>
     (case create_missing s1 (RuntimeError ''Failed to create INDEX for shard'') [] (f_index f) of
        Inl e \<Rightarrow> Inl e
      | Inr (idx, s2) \<Rightarrow>
     (case create_missing s2 FilesystemException [] (f_seg f) of
        Inl e \<Rightarrow> Inl e
      | Inr (seg, s3) \<Rightarrow>
     (case create_missing s3 (RuntimeError ''Failed to create WAL'') [] (f_wal f) of
        Inl e \<Rightarrow> Inl e
      | Inr (w, s4) \<Rightarrow> Inr (idx, seg, w, s4)))))"

definition sh_boot :: "Settings \<Rightarrow> nat \<Rightarrow> ios \<Rightarrow> rat list \<Rightarrow> ShardFiles \<Rightarrow> boot_error + Shard" where
  "sh_boot st i s clock f =
     (case boot_files s f of
        Inl e \<Rightarrow> Inl e
      | Inr (idx, seg, w, s1) \<Rightarrow>
          (case new_WAL s1 w of (wl, s2) \<Rightarrow>
           case new_IndexManager s2 idx of
             Inl _ \<Rightarrow> Inl FilesystemException
           | Inr (im, s3) \<Rightarrow>
               (case new_StorageManager s3 seg of (sm, s4) \<Rightarrow>
                  Inr (fillCache (verifyIndexEntries
                    \<lparr>sh_settings = shard_settings st i, shardId = i, perfMonitor = new_PerfMonitoring,
                     sh_wal = wl, indexManager = im, storageManager = sm,
                     sh_cache = new_LRUCache (CacheSize st), isStopped = False,
                     sh_ios = s4, sh_clock = clock\<rparr>)))))"

definition sh_reloadSettings :: "Settings \<Rightarrow> Shard \<Rightarrow> Shard" where
  "sh_reloadSettings st sh =
     sh\<lparr>sh_settings := shard_settings st (shardId sh),
        sh_cache := cache_resize (CacheSize st) (sh_cache sh)\<rparr>"

section \<open>Meaning and invariant\<close>

definition contents :: "Shard \<Rightarrow> string \<Rightarrow> string option" where
  "contents sh k = Option.bind (lookup (indexManager sh) k) (value_at (storageManager sh))"

text \<open>Every location of the index is that of a non-empty value of the segments.\<close>

definition index_live :: "Shard \<Rightarrow> bool" where
  "index_live sh \<longleftrightarrow>
     (\<forall>k l. lookup (indexManager sh) k = Some l \<longrightarrow>
        loc_segmentId l \<noteq> INVALID_SEGMENT_ID \<and> (\<exists>v. value_at (storageManager sh) l = Some v \<and> v \<noteq> ''''))"

definition store_inv :: "Shard \<Rightarrow> bool" where
  "store_inv sh \<longleftrightarrow> im_inv (indexManager sh) \<and> sm_inv (storageManager sh)
     \<and> segsize_ok (sh_settings sh) \<and> index_live sh"

definition shard_inv :: "Shard \<Rightarrow> bool" where
  "shard_inv sh \<longleftrightarrow> store_inv sh \<and> lru_inv (sh_cache sh) \<and> coherent (peek (sh_cache sh)) (contents sh)"

lemma contents_alt:
  "contents sh = (\<lambda>k. Option.bind (lookup (indexManager sh) k) (value_at (storageManager sh)))"
  by (simp add: contents_def fun_eq_iff)

lemma index_live_value:
  "index_live sh \<Longrightarrow> lookup (indexManager sh) k = Some l \<Longrightarrow> value_at (storageManager sh) l \<noteq> None"
  by (auto simp: index_live_def)

text \<open>What is recorded about a request changes neither the contents nor the invariant.\<close>

lemma record_stats_frame [simp]:
  "contents (record_stats add miss sh) = contents sh"
  "store_inv (record_stats add miss sh) = store_inv sh"
  "shard_inv (record_stats add miss sh) = shard_inv sh"
  "sh_ios (record_stats add miss sh) = sh_ios sh"
  "sh_settings (record_stats add miss sh) = sh_settings sh"
  "storageManager (record_stats add miss sh) = storageManager sh"
  "indexManager (record_stats add miss sh) = indexManager sh"
  "sh_cache (record_stats add miss sh) = sh_cache sh"
  "sh_wal (record_stats add miss sh) = sh_wal sh"
  by (auto simp: record_stats_def contents_def store_inv_def shard_inv_def index_live_def coherent_def)

text \<open>The cache is not part of the contents.\<close>

lemma cache_frame [simp]:
  "contents (sh\<lparr>sh_cache := c\<rparr>) = contents sh"
  "store_inv (sh\<lparr>sh_cache := c\<rparr>) = store_inv sh"
  by (auto simp: contents_def store_inv_def index_live_def)

lemma sh_append_spec:
  assumes "store_inv sh" and "ids_left (storageManager sh)" and "length v < 2 ^ 32"
    and "sh_append v sh = (e, sh')"
  shows "store_inv sh'" and "contents sh' = contents sh" and "sh_cache sh' = sh_cache sh"
    and "indexManager sh' = indexManager sh" and "sh_settings sh' = sh_settings sh"
    and "ie_segmentId e \<noteq> INVALID_SEGMENT_ID \<Longrightarrow>
           value_at (storageManager sh') (loc_of e) = Some v \<and> \<not> ie_isTombstone e"
proof -
  obtain sm s where a: "sm_append (sh_settings sh) (sh_ios sh) v (storageManager sh) = (e, sm, s)"
    and sh': "sh' = sh\<lparr>storageManager := sm, sh_ios := s\<rparr>"
    using assms(4) by (auto simp: sh_append_def split: prod.splits)
  have i: "segsize_ok (sh_settings sh) \<and> sm_inv (storageManager sh)" "index_live sh"
    using assms(1) by (auto simp: store_inv_def)
  note keep = bs.app_keeps [OF i(1) assms(2,3) a]
  have "index_live sh'" using i(2) keep by (fastforce simp: index_live_def sh')
  then show "store_inv sh'"
    using assms(1) bs.invar_app [OF i(1) assms(2,3) a] by (simp add: store_inv_def sh')
  show "contents sh' = contents sh"
    using bs.app_failed_meaning [OF i(1) assms(2,3) a, of "lookup (indexManager sh)"]
      index_live_value [OF i(2)] by (simp add: contents_alt sh')
  show "sh_cache sh' = sh_cache sh" "indexManager sh' = indexManager sh" "sh_settings sh' = sh_settings sh"
    by (simp_all add: sh')
  show "value_at (storageManager sh') (loc_of e) = Some v \<and> \<not> ie_isTombstone e"
    if "ie_segmentId e \<noteq> INVALID_SEGMENT_ID"
    using bs.app_new [OF i(1) assms(2,3) a that] by (simp add: sh')
qed

lemma sh_insert_spec:
  assumes "store_inv sh" and "value_at (storageManager sh) (loc_of e) = Some v" and "v \<noteq> ''''"
    and "ie_segmentId e \<noteq> INVALID_SEGMENT_ID" and "key_ok e"
  shows "store_inv (sh_insert e sh)" and "contents (sh_insert e sh) = (contents sh)(ie_key e \<mapsto> v)"
    and "sh_cache (sh_insert e sh) = sh_cache sh"
    and "storageManager (sh_insert e sh) = storageManager sh"
    and "sh_settings (sh_insert e sh) = sh_settings sh"
proof -
  obtain im s where i: "im_insert (sh_ios sh) e (indexManager sh) = (im, s)"
    by (cases "im_insert (sh_ios sh) e (indexManager sh)")
  then have sh': "sh_insert e sh = sh\<lparr>indexManager := im, sh_ios := s\<rparr>" by (simp add: sh_insert_def)
  note l = ix.lkp_ins [OF i]
  have "index_live (sh_insert e sh)"
    using assms(1-4) by (auto simp: index_live_def store_inv_def sh' l loc_of_def)
  then show "store_inv (sh_insert e sh)"
    using assms(1) ix.invar_ins [OF _ assms(5) i] by (simp add: store_inv_def sh')
  show "contents (sh_insert e sh) = (contents sh)(ie_key e \<mapsto> v)"
    using assms(2) by (auto simp: contents_def sh' l fun_eq_iff)
  show "sh_cache (sh_insert e sh) = sh_cache sh"
    "storageManager (sh_insert e sh) = storageManager sh"
    "sh_settings (sh_insert e sh) = sh_settings sh" by (simp_all add: sh')
qed

lemma sh_update_tomb_spec:
  assumes "store_inv sh" and "ie_isTombstone e"
  shows "store_inv (sh_update k e sh)" and "contents (sh_update k e sh) = (contents sh)(k := None)"
    and "sh_cache (sh_update k e sh) = sh_cache sh"
    and "storageManager (sh_update k e sh) = storageManager sh"
    and "sh_settings (sh_update k e sh) = sh_settings sh"
proof -
  obtain im s where i: "im_update (sh_ios sh) k e (indexManager sh) = (im, s)"
    by (cases "im_update (sh_ios sh) k e (indexManager sh)")
  then have sh': "sh_update k e sh = sh\<lparr>indexManager := im, sh_ios := s\<rparr>" by (simp add: sh_update_def)
  note l = ix.lkp_upd [OF i assms(2)]
  have "index_live (sh_update k e sh)"
    using assms(1) by (auto simp: index_live_def store_inv_def sh' l split: if_splits)
  then show "store_inv (sh_update k e sh)"
    using assms(1) ix.invar_upd [OF _ i] by (simp add: store_inv_def sh')
  show "contents (sh_update k e sh) = (contents sh)(k := None)"
    by (auto simp: contents_def sh' l fun_eq_iff)
  show "sh_cache (sh_update k e sh) = sh_cache sh"
    "storageManager (sh_update k e sh) = storageManager sh"
    "sh_settings (sh_update k e sh) = sh_settings sh" by (simp_all add: sh')
qed

lemma sh_read_spec:
  assumes "store_inv sh" and "sh_read e sh = (v, sh')"
  shows "store_inv sh'" and "contents sh' = contents sh" and "sh_cache sh' = sh_cache sh"
    and "indexManager sh' = indexManager sh" and "sh_settings sh' = sh_settings sh"
    and "value_at (storageManager sh') = value_at (storageManager sh)"
    and "latestSegmentId (storageManager sh') = latestSegmentId (storageManager sh)"
    and "value_at (storageManager sh) (loc_of e) = Some w \<Longrightarrow> v = w \<or> v = ''''"
    and "value_at (storageManager sh) (loc_of e) = Some w \<Longrightarrow> w \<noteq> '''' \<Longrightarrow> all_ok (sh_ios sh) \<Longrightarrow>
           v = w \<and> all_ok (sh_ios sh')"
proof -
  obtain sm s where r: "sm_read (sh_ios sh) e (storageManager sh) = (v, sm, s)"
    and sh': "sh' = sh\<lparr>storageManager := sm, sh_ios := s\<rparr>"
    using assms(2) by (auto simp: sh_read_def split: prod.splits)
  have i: "sm_inv (storageManager sh)" using assms(1) by (simp add: store_inv_def)
  note f = sm_read_frame [OF i r]
  show "store_inv sh'" using assms(1) f by (simp add: store_inv_def sh' index_live_def)
  show "contents sh' = contents sh" using f by (simp add: contents_alt sh')
  show "sh_cache sh' = sh_cache sh" "indexManager sh' = indexManager sh" "sh_settings sh' = sh_settings sh"
    "value_at (storageManager sh') = value_at (storageManager sh)"
    "latestSegmentId (storageManager sh') = latestSegmentId (storageManager sh)"
    using f by (simp_all add: sh')
  show "v = w \<or> v = ''''" if "value_at (storageManager sh) (loc_of e) = Some w"
    by (rule bs.rd_val [OF r that])
  show "v = w \<and> all_ok (sh_ios sh')"
    if "value_at (storageManager sh) (loc_of e) = Some w" "w \<noteq> ''''" "all_ok (sh_ios sh)"
    using sm_read_ok [OF that(3,1,2)] r by (auto simp: sh')
qed

section \<open>Single-key commands refine the map\<close>

lemma search_cases:
  assumes "store_inv sh"
  obtains (none) "lookup (indexManager sh) k = None" "contents sh k = None"
      "\<not> live_entry (search k (indexManager sh))"
  | (some) l v where "lookup (indexManager sh) k = Some l" "contents sh k = Some v" "v \<noteq> ''''"
      "value_at (storageManager sh) l = Some v" "search k (indexManager sh) = toEntry k l"
      "live_entry (search k (indexManager sh))"
proof (cases "lookup (indexManager sh) k")
  case None
  with none show ?thesis by (auto simp: contents_def search_def lookup_def live_entry_def)
next
  case (Some l)
  with assms obtain v where "value_at (storageManager sh) l = Some v" "v \<noteq> ''''"
    "loc_segmentId l \<noteq> INVALID_SEGMENT_ID"
    by (auto simp: store_inv_def index_live_def)
  with Some some show ?thesis by (auto simp: contents_def search_def lookup_def live_entry_def)
qed

lemma shard_inv_cached:
  assumes "store_inv sh" and "lru_inv c" and "coherent (peek c) (contents sh)"
  shows "shard_inv (sh\<lparr>sh_cache := c\<rparr>)"
  using assms by (simp add: shard_inv_def)

lemma sh_put_spec:
  assumes "store_inv sh" and "lru_inv (sh_cache sh)" and "coherent (peek (sh_cache sh)) m"
    and "live_entry e" and "contents sh = m(ie_key e \<mapsto> v)"
  shows "shard_inv (sh_put e v sh)" and "contents (sh_put e v sh) = contents sh"
proof -
  have "coherent (peek (cache_put e v (sh_cache sh))) (contents sh)"
    using lru.coherent_put [OF assms(2,3)] assms(4,5) by (simp add: live_entry_def)
  with assms(1,2) show "shard_inv (sh_put e v sh)"
    by (simp add: sh_put_def shard_inv_def lru.invar_put)
  show "contents (sh_put e v sh) = contents sh" by (simp add: sh_put_def)
qed

lemma sh_uncache_spec:
  assumes "store_inv sh" and "lru_inv (sh_cache sh)" and "coherent (peek (sh_cache sh)) m"
    and "contents sh = m(k := None) \<or> contents sh = m"
  shows "shard_inv (sh_uncache k sh)" and "contents (sh_uncache k sh) = contents sh"
    and "indexManager (sh_uncache k sh) = indexManager sh"
    and "storageManager (sh_uncache k sh) = storageManager sh"
proof -
  have "coherent (peek (cache_remove k (sh_cache sh))) (contents sh)"
    using lru.coherent_del [OF assms(2,3)] lru.coherent_del_same [OF assms(2,3)] assms(4) by auto
  with assms(1,2) show "shard_inv (sh_uncache k sh)"
    by (simp add: sh_uncache_def shard_inv_def lru.invar_del)
qed (simp_all add: sh_uncache_def)

lemma shard_invD:
  assumes "shard_inv sh"
  shows "store_inv sh" "lru_inv (sh_cache sh)" "coherent (peek (sh_cache sh)) (contents sh)"
  using assms by (auto simp: shard_inv_def)

lemma cache_get_shard:
  assumes "shard_inv sh" and "cache_get k (sh_cache sh) = (ce, c)"
  shows "shard_inv (sh\<lparr>sh_cache := c\<rparr>)"
    and "live_entry (ce_index ce) \<Longrightarrow> contents sh k = Some (ce_value ce)"
proof -
  note i = shard_invD [OF assms(1)]
  note g = cache_get_refines [OF i(2), of k]
  have p: "peek c = peek (sh_cache sh)" and "lru_inv c"
    and ce: "ce = (case peek (sh_cache sh) k of Some x \<Rightarrow> x | None \<Rightarrow> cache_miss)"
    using g assms(2) by auto
  with i show "shard_inv (sh\<lparr>sh_cache := c\<rparr>)" by (simp add: shard_inv_def)
  show "contents sh k = Some (ce_value ce)" if "live_entry (ce_index ce)"
    using that i(3) ce by (auto simp: coherent_def cache_miss_def live_entry_def split: option.splits)
qed

definition get_outcome :: "Shard \<Rightarrow> string \<Rightarrow> ResultType \<Rightarrow> Shard \<Rightarrow> bool" where
  "get_outcome sh k r sh' \<longleftrightarrow>
     shard_inv sh' \<and> contents sh' = contents sh \<and> get_answer (contents sh k) r
     \<and> (all_ok (sh_ios sh) \<longrightarrow> (\<forall>v. contents sh k = Some v \<longrightarrow> r = res Success v 1))
     \<and> latestSegmentId (storageManager sh') = latestSegmentId (storageManager sh)"

text \<open>A cache miss that the index resolves to the location \<open>l\<close> of the value \<open>w\<close>: the value is read back
  and cached, or the read fails and nothing is answered.\<close>
lemma sh_get_read:
  assumes "shard_inv sh" and "lookup (indexManager sh) k = Some l" and "contents sh k = Some w"
    and "value_at (storageManager sh) l = Some w" and "w \<noteq> ''''" and "live_entry (toEntry k l)"
    and "sh_read (toEntry k l) sh = (x, sh1)"
  shows "x = '''' \<Longrightarrow> get_outcome sh k (res Error READ_FAILED 0) sh1"
    and "x \<noteq> '''' \<Longrightarrow> x = w \<and> get_outcome sh k (res Success w 1) (record_stats addGetStats True (sh_put (toEntry k l) w sh1))"
proof -
  note i = shard_invD [OF assms(1)]
  note f = sh_read_spec [OF i(1) assms(7)]
  show "get_outcome sh k (res Error READ_FAILED 0) sh1" if "x = ''''"
  proof -
    have "shard_inv sh1" using f i by (simp add: shard_inv_def)
    moreover have "\<not> all_ok (sh_ios sh)" using f(9) [of w] assms(4,5) that by auto
    ultimately show ?thesis using assms(3) f by (simp add: get_outcome_def get_answer_def)
  qed
  assume "x \<noteq> ''''"
  then have x: "x = w" using f(8) [of w] assms(4) by simp
  have "contents sh1 = (contents sh1)(k \<mapsto> w)" using f(2) assms(3) by auto
  then have "shard_inv (sh_put (toEntry k l) w sh1)"
    using sh_put_spec [of sh1 "contents sh1" "toEntry k l" w] f i assms(6) by simp
  with x assms(3) f show "x = w \<and> get_outcome sh k (res Success w 1)
      (record_stats addGetStats True (sh_put (toEntry k l) w sh1))"
    by (simp add: get_outcome_def get_answer_def sh_put_def)
qed

lemma sh_get_spec:
  assumes "shard_inv sh" and "sh_get k sh = (r, sh')"
  shows "shard_inv sh'" and "contents sh' = contents sh" and "get_answer (contents sh k) r"
    and "all_ok (sh_ios sh) \<Longrightarrow> contents sh k = Some v \<Longrightarrow> r = res Success v 1"
    and "latestSegmentId (storageManager sh') = latestSegmentId (storageManager sh)"
proof -
  obtain ce c where g: "cache_get k (sh_cache sh) = (ce, c)" by (cases "cache_get k (sh_cache sh)")
  let ?sh1 = "sh\<lparr>sh_cache := c\<rparr>"
  note i1 = cache_get_shard [OF assms(1) g]
  note s1 = shard_invD [OF i1(1)]
  have "get_outcome sh k r sh'"
  proof (cases "live_entry (ce_index ce)")
    case True
    with i1 g assms(2) show ?thesis by (auto simp: sh_get_def get_outcome_def get_answer_def Let_def)
  next
    case miss: False
    from s1(1) show ?thesis
    proof (cases rule: search_cases [where k = k])
      case none
      with miss i1 g assms(2) show ?thesis
        by (auto simp: sh_get_def get_outcome_def get_answer_def Let_def)
    next
      case (some l w)
      obtain x sh2 where rd: "sh_read (toEntry k l) ?sh1 = (x, sh2)" by (cases "sh_read (toEntry k l) ?sh1")
      have o: "get_outcome ?sh1 k q t = get_outcome sh k q t" for q t by (simp add: get_outcome_def)
      note f = sh_get_read [OF i1(1) _ _ _ _ _ rd, unfolded o]
      show ?thesis
        by (cases "x = ''''") (use f some miss g assms(2) rd in \<open>auto simp: sh_get_def Let_def\<close>)
    qed
  qed
  then show "shard_inv sh'" "contents sh' = contents sh" "get_answer (contents sh k) r"
    "all_ok (sh_ios sh) \<Longrightarrow> contents sh k = Some v \<Longrightarrow> r = res Success v 1"
    "latestSegmentId (storageManager sh') = latestSegmentId (storageManager sh)"
    by (auto simp: get_outcome_def)
qed

text \<open>Appending a value and pointing the key at it, as \<open>set\<close> and \<open>setBy\<close> do.\<close>

lemma sh_store_spec:
  assumes "shard_inv sh" and "ids_left (storageManager sh)" and "length v < 2 ^ 32" and "v \<noteq> ''''"
    and "length k \<le> MAX_KEY_SIZE" and "sh_append v sh = (e, sh1)"
  defines "ne \<equiv> e\<lparr>ie_key := k\<rparr>"
  shows "ie_segmentId e = INVALID_SEGMENT_ID \<Longrightarrow> shard_inv sh1 \<and> contents sh1 = contents sh"
    and "ie_segmentId e \<noteq> INVALID_SEGMENT_ID \<Longrightarrow>
           shard_inv (sh_put ne v (sh_insert ne sh1))
           \<and> contents (sh_put ne v (sh_insert ne sh1)) = (contents sh)(k \<mapsto> v)
           \<and> storageManager (sh_put ne v (sh_insert ne sh1)) = storageManager sh1"
proof -
  note i = shard_invD [OF assms(1)]
  note a = sh_append_spec [OF i(1) assms(2,3,6)]
  show "shard_inv sh1 \<and> contents sh1 = contents sh"
    using i a by (simp add: shard_inv_def)
  assume v: "ie_segmentId e \<noteq> INVALID_SEGMENT_ID"
  have "value_at (storageManager sh1) (loc_of ne) = Some v" "key_ok ne" "live_entry ne"
    using a(6) [OF v] v assms(5) by (simp_all add: ne_def key_ok_def live_entry_def loc_of_def)
  note b = this sh_insert_spec [OF a(1) this(1) assms(4) _ this(2)]
  have seg: "ie_segmentId ne \<noteq> INVALID_SEGMENT_ID" and key: "ie_key ne = k"
    using v by (simp_all add: ne_def)
  have "contents (sh_insert ne sh1) = (contents sh)(ie_key ne \<mapsto> v)"
    using b(5) [OF seg] a(2) by simp
  then show "shard_inv (sh_put ne v (sh_insert ne sh1))
           \<and> contents (sh_put ne v (sh_insert ne sh1)) = (contents sh)(k \<mapsto> v)
           \<and> storageManager (sh_put ne v (sh_insert ne sh1)) = storageManager sh1"
    using sh_put_spec [OF b(4) [OF seg] _ _ b(3), of "contents sh" v] b(6,7) [OF seg] a(3) i key
    by (simp add: sh_put_def)
qed

lemma sh_set_spec:
  assumes "shard_inv sh" and "ids_left (storageManager sh)" and "length v < 2 ^ 32" and "v \<noteq> ''''"
    and "length k \<le> MAX_KEY_SIZE" and "sh_set k v sh = (r, sh')"
  shows "shard_inv sh'"
    and "contents sh' = (if code r = Success then (contents sh)(k \<mapsto> v) else contents sh)"
    and "r = res Success SUCCESS_SET 1 \<or> r = res Error segment_full_message 0"
proof -
  obtain e sh1 where a: "sh_append v sh = (e, sh1)" by (cases "sh_append v sh")
  note s = sh_store_spec [OF assms(1-5) a]
  show "shard_inv sh'"
    and "contents sh' = (if code r = Success then (contents sh)(k \<mapsto> v) else contents sh)"
    and "r = res Success SUCCESS_SET 1 \<or> r = res Error segment_full_message 0"
    using s assms(6) a by (auto simp: sh_set_def Let_def split: if_splits)
qed

lemma sh_set_succeeds:
  assumes "shard_inv sh" and "ids_left (storageManager sh)" and "dir_clean (storageManager sh)"
    and "length v \<le> unat (SegSize (sh_settings sh))" and "length v < 2 ^ 32" and "all_ok (sh_ios sh)"
  shows "code (fst (sh_set k v sh)) = Success"
proof -
  have "sm_inv (storageManager sh)" "segsize_ok (sh_settings sh)"
    using assms(1) by (auto simp: shard_inv_def store_inv_def)
  from sm_append_succeeds [OF this(1) assms(2,3) this(2) assms(4,5,6)] show ?thesis
    by (auto simp: sh_set_def sh_append_def Let_def)
qed

lemma sh_del_spec:
  assumes "shard_inv sh" and "sh_del k sh = (r, sh')"
  shows "shard_inv sh'" and "contents sh' = (contents sh)(k := None)"
    and "r = (if contents sh k = None then res Error KEY_NOT_FOUND 0 else res Success SUCCESS_DEL 1)"
    and "storageManager sh' = storageManager sh"
proof -
  note i = shard_invD [OF assms(1)]
  let ?sh1 = "sh_uncache k sh"
  note u = sh_uncache_spec [OF i, of k]
  have u1: "shard_inv ?sh1" "contents ?sh1 = contents sh" "storageManager ?sh1 = storageManager sh" using u by auto
  note i1 = shard_invD [OF u1(1)]
  from i1(1) have "shard_inv sh' \<and> contents sh' = (contents sh)(k := None)
      \<and> r = (if contents sh k = None then res Error KEY_NOT_FOUND 0 else res Success SUCCESS_DEL 1)
      \<and> storageManager sh' = storageManager sh"
  proof (cases rule: search_cases [where k = k])
    case none
    then show ?thesis using assms(2) u1 by (auto simp: sh_del_def Let_def fun_eq_iff)
  next
    case (some l v)
    let ?e = "(search k (indexManager ?sh1))\<lparr>ie_isTombstone := True\<rparr>"
    have t: "ie_isTombstone ?e" by simp
    note b = sh_update_tomb_spec [OF i1(1) t, of k]
    have "shard_inv (sh_uncache k (sh_update k ?e ?sh1))"
      "contents (sh_uncache k (sh_update k ?e ?sh1)) = (contents sh)(k := None)"
      "storageManager (sh_uncache k (sh_update k ?e ?sh1)) = storageManager sh"
      using sh_uncache_spec [OF b(1), of "contents ?sh1" k] b i1 u1 by simp_all
    with some u1 assms(2) show ?thesis by (auto simp: sh_del_def Let_def)
  qed
  then show "shard_inv sh'" "contents sh' = (contents sh)(k := None)"
    "r = (if contents sh k = None then res Error KEY_NOT_FOUND 0 else res Success SUCCESS_DEL 1)"
    "storageManager sh' = storageManager sh" by auto
qed

section \<open>Bulk commands refine the map\<close>

definition points :: "Shard \<Rightarrow> IndexEntry \<Rightarrow> bool" where
  "points sh e \<longleftrightarrow> live_entry e \<and> lookup (indexManager sh) (ie_key e) = Some (loc_of e)"

definition matching_entries :: "(string \<Rightarrow> bool) \<Rightarrow> Shard \<Rightarrow> IndexEntry list" where
  "matching_entries p sh = filter (\<lambda>e. p (ie_key e)) (tree_entries (memoryTree (indexManager sh)))"

lemma find_loop_stopped: "find_loop p (\<lambda>_. True) n t = []"
  by (cases t) auto

lemma matches_eq:
  "matches valid g sh = (if limit_reached valid g then [] else matching_entries (func valid) sh)"
  by (simp add: matches_def findMatching_all matching_entries_def findMatching_def find_loop_stopped
      find_loop_all)

lemma points_value:
  assumes "store_inv sh" and "points sh e"
  shows "\<exists>v. value_at (storageManager sh) (loc_of e) = Some v \<and> v \<noteq> '''' \<and> contents sh (ie_key e) = Some v"
  using assms by (auto simp: store_inv_def index_live_def points_def contents_def)

lemma contents_dom:
  assumes "store_inv sh"
  shows "contents sh k = None \<longleftrightarrow> lookup (indexManager sh) k = None"
  using assms by (cases rule: search_cases [where k = k]) auto

lemma matching_points:
  assumes "store_inv sh"
  shows "list_all (points sh) (matching_entries p sh)"
    and "distinct (map ie_key (matching_entries p sh))"
    and "set (map ie_key (matching_entries p sh)) = {k. p k \<and> contents sh k \<noteq> None}"
proof -
  let ?t = "memoryTree (indexManager sh)"
  have d: "distinct (map fst ?t)" using assms by (simp add: store_inv_def im_inv_def)
  have seg: "loc_segmentId l \<noteq> INVALID_SEGMENT_ID" if "lookup (indexManager sh) k = Some l" for k l
    using that assms by (simp add: store_inv_def index_live_def)
  have pts: "points sh e \<longleftrightarrow> e \<in> set (tree_entries ?t)" for e
    using set_tree_entries [OF d, of e] seg [of "ie_key e" "loc_of e"]
    by (auto simp: points_def lookup_def live_entry_def) (simp add: loc_of_def)
  then show "list_all (points sh) (matching_entries p sh)"
    by (simp add: matching_entries_def list_all_iff)
  have "distinct (map ie_key (tree_entries ?t))" using d by simp
  then show "distinct (map ie_key (matching_entries p sh))"
    unfolding matching_entries_def by (rule distinct_map_filter)
  have "fst ` set ?t = {k. contents sh k \<noteq> None}"
  proof -
    have "k \<in> fst ` set ?t \<longleftrightarrow> lookup (indexManager sh) k \<noteq> None" for k
      by (simp add: lookup_def map_of_eq_None_iff)
    then show ?thesis using contents_dom [OF assms] by auto
  qed
  moreover have "ie_key ` set (tree_entries ?t) = fst ` set ?t"
    using keys_tree_entries [of ?t] by (metis set_map)
  ultimately show "set (map ie_key (matching_entries p sh)) = {k. p k \<and> contents sh k \<noteq> None}"
    by (auto simp: matching_entries_def image_iff set_eq_iff) (metis image_iff mem_Collect_eq option.distinct(1))+
qed

text \<open>How many of \<open>m\<close> matches the shared counter still lets through.\<close>

definition slots :: "ValidationRule \<Rightarrow> u32 option \<Rightarrow> nat \<Rightarrow> nat" where
  "slots valid g m =
     (if limit valid = UINT_MAX then m
      else case g of None \<Rightarrow> m | Some n \<Rightarrow> min m (unat (limit valid) - unat n))"

lemma slots_le: "slots valid g m \<le> m"
  by (auto simp: slots_def split: option.splits)

lemma slots_0 [simp]: "slots valid g 0 = 0"
  using slots_le [of valid g 0] by simp

lemma slots_stop: "take_slot valid g = (False, g') \<Longrightarrow> slots valid g m = 0 \<and> g' = g"
  by (auto simp: take_slot_def slots_def word_le_nat_alt split: option.splits if_splits)

lemma slots_go: "take_slot valid g = (True, g') \<Longrightarrow> slots valid g (Suc m) = Suc (slots valid g' m)"
proof -
  assume t: "take_slot valid g = (True, g')"
  have "unat (n + 1) = unat n + 1" if "n < limit valid" for n
  proof (rule unat_Suc_id)
    show "unat n + 1 < 2 ^ 32"
      using that unat_u32_less [of "limit valid"] by (simp add: word_less_nat_alt)
  qed
  with t show ?thesis
    by (auto simp: take_slot_def slots_def word_less_nat_alt not_le split: option.splits if_splits)
qed

lemma slots_reached: "limit_reached valid g \<Longrightarrow> slots valid g m = 0"
  by (auto simp: limit_reached_def slots_def word_le_nat_alt split: option.splits)

definition found :: "Shard \<Rightarrow> IndexEntry \<Rightarrow> json" where
  "found sh e = JObj [(ie_key e, JStr (the (contents sh (ie_key e))))]"

text \<open>
  A bulk read returns matching entries with their values, in the order of the index, no more of
  them than the counter allows; reads that fail are left out.
\<close>

lemma found_cong: "contents a = contents b \<Longrightarrow> found a = found b"
  by (simp add: found_def fun_eq_iff)

lemma points_cong: "indexManager a = indexManager b \<Longrightarrow> points a = points b"
  by (simp add: points_def fun_eq_iff)

definition getBy_result :: "ValidationRule \<Rightarrow> IndexEntry list \<Rightarrow> u32 option \<Rightarrow> Shard \<Rightarrow> json list \<Rightarrow> json list \<Rightarrow> Shard \<Rightarrow> bool" where
  "getBy_result valid es g sh acc arr sh' \<longleftrightarrow>
     shard_inv sh' \<and> contents sh' = contents sh
     \<and> (\<exists>ys. arr = acc @ map (found sh) ys \<and> subseq ys (take (slots valid g (length es)) es)
           \<and> (all_ok (sh_ios sh) \<longrightarrow> ys = take (slots valid g (length es)) es))"

lemma getBy_result_skip:
  assumes "getBy_result valid es g1 sh1 acc arr sh'" and "take_slot valid g = (True, g1)"
    and "contents sh1 = contents sh" and "\<not> all_ok (sh_ios sh)"
  shows "getBy_result valid (e # es) g sh acc arr sh'"
proof -
  have sl: "slots valid g (length (e # es)) = Suc (slots valid g1 (length es))"
    using assms(2) by (simp add: slots_go)
  show ?thesis using assms(1,3,4) found_cong [OF assms(3)] unfolding getBy_result_def sl by auto
qed

lemma getBy_result_found:
  assumes "getBy_result valid es g1 sh1 (acc @ [found sh e]) arr sh'" and "take_slot valid g = (True, g1)"
    and "contents sh1 = contents sh" and "all_ok (sh_ios sh) \<Longrightarrow> all_ok (sh_ios sh1)"
  shows "getBy_result valid (e # es) g sh acc arr sh'"
proof -
  have sl: "slots valid g (length (e # es)) = Suc (slots valid g1 (length es))"
    using assms(2) by (simp add: slots_go)
  from assms(1,3) found_cong [OF assms(3)] obtain ys where ys: "arr = acc @ map (found sh) (e # ys)"
    "subseq ys (take (slots valid g1 (length es)) es)" "shard_inv sh'" "contents sh' = contents sh"
    "all_ok (sh_ios sh1) \<longrightarrow> ys = take (slots valid g1 (length es)) es"
    by (auto simp: getBy_result_def)
  with assms(4) show ?thesis unfolding getBy_result_def sl by (intro conjI exI [of _ "e # ys"]) auto
qed

lemma getBy_loop_result:
  "getBy_loop valid es g acc sh = (arr, g', sh') \<Longrightarrow> shard_inv sh \<Longrightarrow> list_all (points sh) es \<Longrightarrow>
     getBy_result valid es g sh acc arr sh'"
proof (induction es arbitrary: g acc sh)
  case Nil
  then show ?case by (simp add: getBy_result_def)
next
  case (Cons e es)
  note i = shard_invD [OF Cons.prems(2)]
  have e: "points sh e" "live_entry e" using Cons.prems(3) by (auto simp: points_def)
  obtain v where v: "value_at (storageManager sh) (loc_of e) = Some v" "v \<noteq> ''''"
    "contents sh (ie_key e) = Some v" using points_value [OF i(1) e(1)] by blast
  obtain ok g1 where t: "take_slot valid g = (ok, g1)" by (cases "take_slot valid g")
  obtain x sh1 where r: "sh_read e sh = (x, sh1)" by (cases "sh_read e sh")
  note f = sh_read_spec [OF i(1) r]
  have i1: "shard_inv sh1" using f i by (simp add: shard_inv_def)
  have p1: "list_all (points sh1) es" using Cons.prems(3) points_cong [OF f(4)] by simp
  consider (stop) "\<not> ok" | (unread) ok "x = ''''" | (read) ok "x = v" "x \<noteq> ''''"
    using f(8) [OF v(1)] by blast
  then show ?case
  proof cases
    case stop
    with t have "slots valid g (length (e # es)) = 0" by (simp add: slots_stop)
    with stop t e(2) Cons.prems show ?thesis by (simp add: getBy_result_def)
  next
    case unread
    then have "getBy_loop valid es g1 acc sh1 = (arr, g', sh')"
      using Cons.prems(1) e(2) t r by simp
    moreover have "\<not> all_ok (sh_ios sh)" using f(9) [OF v(1,2)] unread v(2) by auto
    ultimately show ?thesis using t unread(1) f(2) by (intro getBy_result_skip [OF Cons.IH [OF _ i1 p1]]) simp_all
  next
    case read
    then have "getBy_loop valid es g1 (acc @ [found sh e]) sh1 = (arr, g', sh')"
      using Cons.prems(1) e(2) t r v(3) by (simp add: found_def)
    from Cons.IH [OF this i1 p1] show ?thesis
      by (rule getBy_result_found) (use t read f(2) f(9) [OF v(1,2)] in auto)
  qed
qed

lemma sh_getBy_spec:
  assumes "shard_inv sh" and "sh_getBy dump valid g sh = (r, g', sh')"
  shows "\<exists>arr. r = res Success (dump (JArr arr)) (int (length arr))
            \<and> getBy_result valid (matching_entries (func valid) sh) g sh [] arr sh'"
proof -
  obtain arr sh1 where l: "getBy_loop valid (matches valid g sh) g [] sh = (arr, g', sh1)"
    and r: "r = res Success (dump (JArr arr)) (int (length arr))"
    and sh': "sh' = record_stats addGetByStats False sh1"
    using assms(2) by (auto simp: sh_getBy_def split: prod.splits)
  note m = matching_points [OF shard_invD(1) [OF assms(1)], of "func valid"]
  have "getBy_result valid (matching_entries (func valid) sh) g sh [] arr sh1"
  proof (cases "limit_reached valid g")
    case True
    with l assms(1) slots_reached [OF True] show ?thesis by (simp add: matches_eq getBy_result_def)
  next
    case False
    with getBy_loop_result [OF l assms(1)] m show ?thesis by (simp add: matches_eq)
  qed
  with r show ?thesis by (auto simp: getBy_result_def sh')
qed

text \<open>
  A bulk write gives the new value to some of the entries passed to it and to no other key; when
  no call fails and the value fits a segment, to all of those the counter lets through.
\<close>

definition room_for :: "string \<Rightarrow> Shard \<Rightarrow> bool" where
  "room_for v sh \<longleftrightarrow> all_ok (sh_ios sh) \<and> dir_clean (storageManager sh)
     \<and> length v \<le> unat (SegSize (sh_settings sh))"

definition assign :: "string \<Rightarrow> string set \<Rightarrow> (string \<Rightarrow> string option) \<Rightarrow> string \<Rightarrow> string option" where
  "assign v ks m k = (if k \<in> ks then Some v else m k)"

lemma assign_simps [simp]:
  "assign v {} m = m"
  "assign v ks (m(k \<mapsto> v)) = assign v (insert k ks) m"
  by (auto simp: assign_def fun_eq_iff)

definition setBy_result ::
  "ValidationRule \<Rightarrow> string \<Rightarrow> IndexEntry list \<Rightarrow> u32 option \<Rightarrow> Shard \<Rightarrow> nat \<Rightarrow> Shard \<Rightarrow> bool" where
  "setBy_result valid v es g sh n sh' \<longleftrightarrow>
     shard_inv sh'
     \<and> (\<exists>ys. n = length ys \<and> subseq ys es \<and> length ys \<le> slots valid g (length es)
           \<and> contents sh' = assign v (ie_key ` set ys) (contents sh)
           \<and> (room_for v sh \<longrightarrow> ys = take (slots valid g (length es)) es))"

lemma slots_mono: "m \<le> m' \<Longrightarrow> slots valid g m \<le> slots valid g m'"
  by (auto simp: slots_def split: option.splits)

lemma give_back_slot: "take_slot valid g = (True, g1) \<Longrightarrow> give_back valid g1 = g"
  by (auto simp: take_slot_def give_back_def split: option.splits if_splits)

lemma sh_append_room:
  assumes "shard_inv sh" and "room_for v sh" and "ids_left (storageManager sh)" and "length v < 2 ^ 32"
    and "sh_append v sh = (e, sh1)"
  shows "ie_segmentId e \<noteq> INVALID_SEGMENT_ID" and "room_for v sh1"
proof -
  obtain sm s where a: "sm_append (sh_settings sh) (sh_ios sh) v (storageManager sh) = (e, sm, s)"
    and sh1: "sh1 = sh\<lparr>storageManager := sm, sh_ios := s\<rparr>"
    using assms(5) by (auto simp: sh_append_def split: prod.splits)
  have r: "all_ok (sh_ios sh)" "dir_clean (storageManager sh)" "length v \<le> unat (SegSize (sh_settings sh))"
    using assms(2) by (auto simp: room_for_def)
  have i: "sm_inv (storageManager sh)" "segsize_ok (sh_settings sh)"
    using assms(1) by (auto simp: shard_inv_def store_inv_def)
  from sm_append_succeeds [OF i(1) assms(3) r(2) i(2) r(3) assms(4) r(1)] a
  show "ie_segmentId e \<noteq> INVALID_SEGMENT_ID" by auto
  show "room_for v sh1"
    using r sm_append_clean [OF a assms(3) r(2)] sm_append_calm [OF a r(1)]
    by (simp add: sh1 room_for_def)
qed

lemma sh_append_ids:
  "ids_for (Suc n) (storageManager sh) \<Longrightarrow> sh_append v sh = (e, sh1) \<Longrightarrow> ids_for n (storageManager sh1)"
  by (auto simp: sh_append_def split: prod.splits dest: ids_for_append)

lemma sh_insert_room [simp]:
  "room_for v sh \<Longrightarrow> room_for v (sh_insert e sh)"
  by (auto simp: room_for_def sh_insert_def split: prod.splits dest: calm)

lemma sh_put_room [simp]: "room_for v (sh_put e w sh) = room_for v sh"
  by (simp add: room_for_def sh_put_def)

lemma setBy_result_skip:
  assumes "setBy_result valid v es g sh1 m sh'" and "contents sh1 = contents sh" and "\<not> room_for v sh"
  shows "setBy_result valid v (e # es) g sh m sh'"
  using assms slots_mono [of "length es" "length (e # es)" valid g] by (fastforce simp: setBy_result_def)

lemma setBy_result_store:
  assumes "setBy_result valid v es g1 sh1 m sh'" and "take_slot valid g = (True, g1)"
    and "contents sh1 = (contents sh)(ie_key e \<mapsto> v)" and "room_for v sh \<Longrightarrow> room_for v sh1"
  shows "setBy_result valid v (e # es) g sh (Suc m) sh'"
proof -
  have sl: "slots valid g (length (e # es)) = Suc (slots valid g1 (length es))"
    using assms(2) by (simp add: slots_go)
  from assms(1,3) obtain ys where ys: "m = length ys" "subseq ys es" "length ys \<le> slots valid g1 (length es)"
    "shard_inv sh'" "contents sh' = assign v (ie_key ` set ys) ((contents sh)(ie_key e \<mapsto> v))"
    "room_for v sh1 \<longrightarrow> ys = take (slots valid g1 (length es)) es"
    by (auto simp: setBy_result_def)
  with assms(4) show ?thesis unfolding setBy_result_def sl
    by (intro conjI exI [of _ "e # ys"]) auto
qed

lemma setBy_loop_result:
  "setBy_loop valid v es g n sh = (n', g', sh') \<Longrightarrow> shard_inv sh \<Longrightarrow>
     ids_for (length es) (storageManager sh) \<Longrightarrow> length v < 2 ^ 32 \<Longrightarrow> v \<noteq> '''' \<Longrightarrow>
     list_all (\<lambda>e. live_entry e \<and> key_ok e) es \<Longrightarrow>
     \<exists>m. n' = n + int m \<and> setBy_result valid v es g sh m sh'"
proof (induction es arbitrary: g n sh)
  case Nil
  then show ?case by (auto simp: setBy_result_def intro: exI [of _ "0 :: nat"])
next
  case (Cons e es)
  note ids = ids_for_left [OF Cons.prems(3) [unfolded list.size(4) add_Suc_right add_0_right]]
  have e: "live_entry e" "length (ie_key e) \<le> MAX_KEY_SIZE"
    using Cons.prems(6) by (auto simp: key_ok_def)
  obtain ok g1 where t: "take_slot valid g = (ok, g1)" by (cases "take_slot valid g")
  obtain ne sh1 where a: "sh_append v sh = (ne, sh1)" by (cases "sh_append v sh")
  note st = sh_store_spec [OF Cons.prems(2) ids Cons.prems(4,5) e(2) a]
  have ids1: "ids_for (length es) (storageManager sh1)"
    using sh_append_ids [OF _ a] Cons.prems(3) by simp
  note rm = sh_append_room [OF Cons.prems(2) _ ids Cons.prems(4) a]
  consider (stop) "\<not> ok" | (full) ok "ie_segmentId ne = INVALID_SEGMENT_ID"
    | (stored) ok "ie_segmentId ne \<noteq> INVALID_SEGMENT_ID" by blast
  then show ?case
  proof cases
    case stop
    with t have "slots valid g (length (e # es)) = 0" by (simp add: slots_stop)
    with stop t e(1) Cons.prems show ?thesis
      by (auto simp: setBy_result_def intro!: exI [of _ "0 :: nat"])
  next
    case full
    then have l: "setBy_loop valid v es g n sh1 = (n', g', sh')"
      using Cons.prems(1) e(1) t a give_back_slot [of valid g g1] by simp
    have i1: "shard_inv sh1" "contents sh1 = contents sh" and no: "\<not> room_for v sh"
      using st(1) rm(1) full(2) by auto
    from Cons.IH [OF l i1(1) ids1 Cons.prems(4,5)] Cons.prems(6) setBy_result_skip [OF _ i1(2) no]
    show ?thesis by auto
  next
    case stored
    let ?ne = "ne\<lparr>ie_key := ie_key e\<rparr>"
    let ?sh2 = "sh_put ?ne v (sh_insert ?ne sh1)"
    have l: "setBy_loop valid v es g1 (n + 1) ?sh2 = (n', g', sh')"
      using Cons.prems(1) e(1) t a stored by (simp add: Let_def)
    note st2 = st(2) [OF stored(2)]
    have "ids_for (length es) (storageManager ?sh2)" using st2 ids1 by simp
    from Cons.IH [OF l _ this Cons.prems(4,5)] st2 Cons.prems(6) obtain m where
      m: "n' = n + 1 + int m" "setBy_result valid v es g1 ?sh2 m sh'" by auto
    have "setBy_result valid v (e # es) g sh (Suc m) sh'"
      by (rule setBy_result_store [OF m(2)]) (use t stored st2 rm(2) in auto)
    with m(1) show ?thesis by (intro exI [of _ "Suc m"]) simp
  qed
qed

lemma matching_live:
  assumes "store_inv sh"
  shows "list_all (\<lambda>e. live_entry e \<and> key_ok e) (matching_entries p sh)"
proof -
  have "list_all key_ok (tree_entries (memoryTree (indexManager sh)))"
    using assms key_ok_entries by (simp add: store_inv_def)
  with matching_points(1) [OF assms, of p] show ?thesis
    by (auto simp: list_all_iff matching_entries_def points_def)
qed

lemma sh_setBy_spec:
  assumes "shard_inv sh" and "sh_setBy valid v g sh = (r, g', sh')"
    and "ids_for (length (matching_entries (func valid) sh)) (storageManager sh)"
    and "length v < 2 ^ 32" and "v \<noteq> ''''"
  shows "\<exists>n. r = res Success (setBy_message (int n)) (int n)
           \<and> setBy_result valid v (matching_entries (func valid) sh) g sh n sh'"
proof -
  obtain n sh1 where l: "setBy_loop valid v (matches valid g sh) g 0 sh = (n, g', sh1)"
    and r: "r = res Success (setBy_message n) n" and sh': "sh' = record_stats addSetByStats False sh1"
    using assms(2) by (auto simp: sh_setBy_def split: prod.splits)
  have "\<exists>m. n = int m \<and> setBy_result valid v (matching_entries (func valid) sh) g sh m sh1"
  proof (cases "limit_reached valid g")
    case True
    with l assms(1) slots_reached [OF True] show ?thesis
      by (auto simp: matches_eq setBy_result_def intro!: exI [of _ "0 :: nat"])
  next
    case False
    then have "matches valid g sh = matching_entries (func valid) sh" by (simp add: matches_eq)
    with setBy_loop_result [OF l assms(1)] assms(3-5) matching_live [OF shard_invD(1) [OF assms(1)]]
    show ?thesis by auto
  qed
  with r show ?thesis by (auto simp: setBy_result_def sh')
qed

lemma delBy_loop_result:
  "delBy_loop valid es g n sh = (n', g', sh') \<Longrightarrow> shard_inv sh \<Longrightarrow> list_all live_entry es \<Longrightarrow>
     shard_inv sh' \<and> n' = n + int (slots valid g (length es))
     \<and> contents sh' = contents sh |` (- ie_key ` set (take (slots valid g (length es)) es))
     \<and> storageManager sh' = storageManager sh"
proof (induction es arbitrary: g n sh)
  case Nil
  then show ?case by simp
next
  case (Cons e es)
  obtain ok g1 where t: "take_slot valid g = (ok, g1)" by (cases "take_slot valid g")
  show ?case
  proof (cases ok)
    case False
    with t Cons.prems show ?thesis by (simp add: slots_stop)
  next
    case True
    let ?sh1 = "sh_update (ie_key e) (e\<lparr>ie_isTombstone := True\<rparr>) sh"
    note i = shard_invD [OF Cons.prems(2)]
    note b = sh_update_tomb_spec [OF i(1), of "e\<lparr>ie_isTombstone := True\<rparr>" "ie_key e", simplified]
    note u = sh_uncache_spec [OF b(1), of "contents sh" "ie_key e"]
    have 2: "shard_inv (sh_uncache (ie_key e) ?sh1)"
      "contents (sh_uncache (ie_key e) ?sh1) = (contents sh)(ie_key e := None)"
      "storageManager (sh_uncache (ie_key e) ?sh1) = storageManager sh"
      using u b i by simp_all
    have "delBy_loop valid es g1 (n + 1) (sh_uncache (ie_key e) ?sh1) = (n', g', sh')"
      using Cons.prems t True by simp
    from Cons.IH [OF this 2(1)] Cons.prems(3) 2 t True show ?thesis
      by (auto simp: slots_go restrict_map_def fun_eq_iff)
  qed
qed

lemma sh_delBy_spec:
  assumes "shard_inv sh" and "sh_delBy valid g sh = (r, g', sh')"
  defines "es \<equiv> matching_entries (func valid) sh"
  defines "n \<equiv> slots valid g (length es)"
  shows "shard_inv sh'" and "r = res Success (delBy_message (int n)) (int n)"
    and "contents sh' = contents sh |` (- ie_key ` set (take n es))"
    and "storageManager sh' = storageManager sh"
proof -
  obtain m sh1 where l: "delBy_loop valid (matches valid g sh) g 0 sh = (m, g', sh1)"
    and r: "r = res Success (delBy_message m) m" and sh': "sh' = record_stats addDelByStats False sh1"
    using assms(2) by (auto simp: sh_delBy_def split: prod.splits)
  have live: "list_all live_entry es"
    using matching_live [OF shard_invD(1) [OF assms(1)]] by (simp add: es_def list_all_iff)
  have "shard_inv sh1 \<and> m = int n \<and> contents sh1 = contents sh |` (- ie_key ` set (take n es))
      \<and> storageManager sh1 = storageManager sh"
  proof (cases "limit_reached valid g")
    case True
    with l assms(1) slots_reached [OF True] show ?thesis
      by (simp add: matches_eq n_def restrict_map_def)
  next
    case False
    then have m: "matches valid g sh = es" by (simp add: matches_eq es_def)
    from delBy_loop_result [OF l assms(1)] live show ?thesis by (simp add: m n_def)
  qed
  then show "shard_inv sh'" "r = res Success (delBy_message (int n)) (int n)"
    "contents sh' = contents sh |` (- ie_key ` set (take n es))"
    "storageManager sh' = storageManager sh" using r sh' by auto
qed

section \<open>Flushing and compaction keep the map\<close>

definition same_store :: "Shard \<Rightarrow> Shard \<Rightarrow> bool" where
  "same_store sh sh' \<longleftrightarrow>
     contents sh' = contents sh \<and> (store_inv sh \<longrightarrow> store_inv sh') \<and> sh_cache sh' = sh_cache sh
     \<and> lookup (indexManager sh') = lookup (indexManager sh)
     \<and> value_at (storageManager sh') = value_at (storageManager sh)
     \<and> latestSegmentId (storageManager sh') = latestSegmentId (storageManager sh)
     \<and> sh_wal sh' = sh_wal sh \<and> sh_settings sh' = sh_settings sh"

lemma same_store_refl [simp]: "same_store sh sh"
  by (simp add: same_store_def)

lemma same_store_trans: "same_store a b \<Longrightarrow> same_store b c \<Longrightarrow> same_store a c"
  by (simp add: same_store_def)

lemma same_store_inv: "same_store sh sh' \<Longrightarrow> shard_inv sh \<Longrightarrow> shard_inv sh' \<and> contents sh' = contents sh"
  by (simp add: same_store_def shard_inv_def)

lemma sh_sm_flush_same:
  assumes "store_inv sh" and "sh_sm_flush sh = (ok, sh')"
  shows "same_store sh sh'"
proof -
  obtain sm s where f: "sm_flush (sh_ios sh) (storageManager sh) = (ok, sm, s)"
    and sh': "sh' = sh\<lparr>storageManager := sm, sh_ios := s\<rparr>"
    using assms(2) by (auto simp: sh_sm_flush_def split: prod.splits)
  have "sm_inv (storageManager sh)" using assms(1) by (simp add: store_inv_def)
  from sm_flush_frame [OF this f] show ?thesis
    by (simp add: same_store_def sh' store_inv_def index_live_def contents_alt)
qed

lemma sh_im_flush_same:
  assumes "sh_im_flush sh = (ok, sh')"
  shows "same_store sh sh'"
proof -
  obtain im s where f: "im_flush (sh_ios sh) (indexManager sh) = (ok, im, s)"
    and sh': "sh' = sh\<lparr>indexManager := im, sh_ios := s\<rparr>"
    using assms by (auto simp: sh_im_flush_def split: prod.splits)
  from im_flush_tree [OF f] show ?thesis
    by (auto simp: same_store_def sh' store_inv_def index_live_def contents_def lookup_def im_inv_def fun_eq_iff)
qed

lemma flushData_same:
  assumes "store_inv sh" and "flushData sh = (ok, sh')"
  shows "same_store sh sh'"
proof -
  obtain b sh1 where 1: "sh_sm_flush sh = (b, sh1)" by (cases "sh_sm_flush sh")
  note s1 = sh_sm_flush_same [OF assms(1) 1]
  show ?thesis
  proof (cases b)
    case True
    with assms(2) 1 have "sh_im_flush sh1 = (ok, sh')" by (simp add: flushData_def)
    from same_store_trans [OF s1 sh_im_flush_same [OF this]] show ?thesis .
  next
    case False
    with assms(2) 1 s1 show ?thesis by (simp add: flushData_def)
  qed
qed

text \<open>Relocation: every entry of the list keeps its key and stays the one the index holds.\<close>

definition relocated :: "IndexEntry list \<Rightarrow> Shard \<Rightarrow> IndexEntry list \<Rightarrow> Shard \<Rightarrow> bool" where
  "relocated es sh es' sh' \<longleftrightarrow>
     shard_inv sh' \<and> contents sh' = contents sh \<and> map ie_key es' = map ie_key es
     \<and> list_all (points sh') es'
     \<and> (\<forall>k. k \<notin> ie_key ` set es \<longrightarrow> lookup (indexManager sh') k = lookup (indexManager sh) k)"

lemma relocated_Nil: "shard_inv sh \<Longrightarrow> relocated [] sh [] sh"
  by (simp add: relocated_def)

lemma relocated_Cons:
  assumes "relocated es sh1 es' sh'" and "contents sh1 = contents sh" and "ie_key r = ie_key e"
    and "points sh1 r" and "ie_key e \<notin> ie_key ` set es"
    and "\<And>k. k \<noteq> ie_key e \<Longrightarrow> lookup (indexManager sh1) k = lookup (indexManager sh) k"
  shows "relocated (e # es) sh (r # es') sh'"
  using assms by (auto simp: relocated_def points_def)

lemma sh_insert_lookup:
  "lookup (indexManager (sh_insert e sh)) = (lookup (indexManager sh))(ie_key e \<mapsto> loc_of e)"
proof -
  obtain im s where i: "im_insert (sh_ios sh) e (indexManager sh) = (im, s)"
    by (cases "im_insert (sh_ios sh) e (indexManager sh)")
  from ix.lkp_ins [OF i] i show ?thesis by (simp add: sh_insert_def)
qed

lemma sh_move_spec:
  assumes "shard_inv sh" and "ids_left (storageManager sh)" and "points sh e" and "key_ok e"
    and "sh_read e sh = (v, sh1)" and "v \<noteq> ''''" and "sh_append v sh1 = (r, sh2)"
  defines "r1 \<equiv> r\<lparr>ie_key := ie_key e\<rparr>"
  shows "ie_segmentId r = INVALID_SEGMENT_ID \<Longrightarrow>
           shard_inv sh2 \<and> contents sh2 = contents sh \<and> indexManager sh2 = indexManager sh"
    and "ie_segmentId r \<noteq> INVALID_SEGMENT_ID \<Longrightarrow>
           shard_inv (sh_insert r1 sh2) \<and> contents (sh_insert r1 sh2) = contents sh \<and> points (sh_insert r1 sh2) r1
           \<and> lookup (indexManager (sh_insert r1 sh2)) = (lookup (indexManager sh))(ie_key e \<mapsto> loc_of r1)
           \<and> storageManager (sh_insert r1 sh2) = storageManager sh2"
proof -
  note i = shard_invD [OF assms(1)]
  obtain w where w: "value_at (storageManager sh) (loc_of e) = Some w" "w \<noteq> ''''"
    "contents sh (ie_key e) = Some w" using points_value [OF i(1) assms(3)] by blast
  note f = sh_read_spec [OF i(1) assms(5)]
  have v: "v = w" using f(8) [OF w(1)] assms(6) by simp
  have "unat (loc_size (loc_of e)) = length w"
    using w(1) by (auto simp: value_at_def slice_def split: option.splits if_splits)
  then have len: "length v < 2 ^ 32" using v unat_u32_less by metis
  have ids1: "ids_left (storageManager sh1)" using assms(2) f(7) by (simp add: ids_left_def)
  note a = sh_append_spec [OF f(1) ids1 len assms(7)]
  have i2: "shard_inv sh2" using a f i by (simp add: shard_inv_def)
  then show "shard_inv sh2 \<and> contents sh2 = contents sh \<and> indexManager sh2 = indexManager sh"
    using a f by simp
  assume valid: "ie_segmentId r \<noteq> INVALID_SEGMENT_ID"
  have 3: "value_at (storageManager sh2) (loc_of r1) = Some v" "ie_segmentId r1 \<noteq> INVALID_SEGMENT_ID"
    "key_ok r1" "live_entry r1" "ie_key r1 = ie_key e"
    using a(6) [OF valid] valid assms(4) by (simp_all add: r1_def loc_of_def key_ok_def live_entry_def)
  note ins = sh_insert_spec [OF a(1) 3(1) assms(6) 3(2,3)]
  have c: "contents (sh_insert r1 sh2) = contents sh"
    using ins(2) a(2) f(2) w(3) v by (simp add: 3(5) fun_upd_idem)
  moreover have "shard_inv (sh_insert r1 sh2)"
    using ins c i a(3) f(3) by (simp add: shard_inv_def)
  ultimately show "shard_inv (sh_insert r1 sh2) \<and> contents (sh_insert r1 sh2) = contents sh
      \<and> points (sh_insert r1 sh2) r1
      \<and> lookup (indexManager (sh_insert r1 sh2)) = (lookup (indexManager sh))(ie_key e \<mapsto> loc_of r1)
      \<and> storageManager (sh_insert r1 sh2) = storageManager sh2"
    using 3 ins(4) a(4) f(4) by (simp add: points_def sh_insert_lookup)
qed

lemma ids_for_less: "ids_for (Suc n) sm \<Longrightarrow> ids_for n sm"
  by (simp add: ids_for_def)

lemma ids_for_latest: "latestSegmentId a = latestSegmentId b \<Longrightarrow> ids_for n a = ids_for n b"
  by (simp add: ids_for_def)

lemma compact_step:
  assumes "shard_inv sh" and "ids_for (Suc (length es)) (storageManager sh)" and "points sh e" and "key_ok e"
  obtains (stay) sh1 where "compact_loop cur live (e # es) sh
        = (case compact_loop cur live es sh1 of (es1, moved, sh2) \<Rightarrow> (e # es1, moved, sh2))"
      "shard_inv sh1" "contents sh1 = contents sh" "indexManager sh1 = indexManager sh"
      "ids_for (length es) (storageManager sh1)"
    | (move) r sh1 where "compact_loop cur live (e # es) sh
        = (case compact_loop cur live es sh1 of (es1, moved, sh2) \<Rightarrow> (r # es1, True, sh2))"
      "shard_inv sh1" "contents sh1 = contents sh" "ie_key r = ie_key e" "points sh1 r"
      "lookup (indexManager sh1) = (lookup (indexManager sh))(ie_key e \<mapsto> loc_of r)"
      "ids_for (length es) (storageManager sh1)"
proof -
  obtain v sh1 where rd: "sh_read e sh = (v, sh1)" by (cases "sh_read e sh")
  note f = sh_read_spec [OF shard_invD(1) [OF assms(1)] rd]
  have s1: "shard_inv sh1" using f assms(1) by (simp add: shard_inv_def)
  obtain r sh2 where ap: "sh_append v sh1 = (r, sh2)" by (cases "sh_append v sh1")
  have ids1: "ids_for (Suc (length es)) (storageManager sh1)" using assms(2) f(7) by (simp add: ids_for_def)
  have ids2: "ids_for (length es) (storageManager sh2)" using sh_append_ids [OF ids1 ap] .
  note m = sh_move_spec [OF assms(1) ids_for_left [OF assms(2)] assms(3,4) rd _ ap]
  consider (keep) "ie_segmentId e = cur \<or> live (ie_segmentId e) * 2 \<ge> SegSize (sh_settings sh)"
    | (unread) "\<not> (ie_segmentId e = cur \<or> live (ie_segmentId e) * 2 \<ge> SegSize (sh_settings sh))" "v = ''''"
    | (written) "\<not> (ie_segmentId e = cur \<or> live (ie_segmentId e) * 2 \<ge> SegSize (sh_settings sh))" "v \<noteq> ''''"
    by blast
  then show thesis
  proof cases
    case keep
    with assms(1) ids_for_less [OF assms(2)] show thesis by (intro stay [of sh]) auto
  next
    case unread
    with rd s1 f ids_for_less [OF ids1] show thesis by (intro stay [of sh1]) auto
  next
    case written
    show thesis
    proof (cases "ie_segmentId r = INVALID_SEGMENT_ID")
      case True
      with rd ap written m(1) ids2 show thesis by (intro stay [of sh2]) auto
    next
      case False
      with rd ap written m(2) ids2 show thesis
        by (intro move [of "r\<lparr>ie_key := ie_key e\<rparr>" "sh_insert (r\<lparr>ie_key := ie_key e\<rparr>) sh2"])
           (simp_all add: Let_def)
    qed
  qed
qed

lemma compact_loop_relocates:
  "compact_loop cur live es sh = (es', moved, sh') \<Longrightarrow> shard_inv sh \<Longrightarrow>
     ids_for (length es) (storageManager sh) \<Longrightarrow> list_all (points sh) es \<Longrightarrow> list_all key_ok es \<Longrightarrow>
     distinct (map ie_key es) \<Longrightarrow> relocated es sh es' sh' \<and> (\<not> moved \<longrightarrow> es' = es)"
proof (induction es arbitrary: sh es' moved sh')
  case Nil
  then show ?case by (simp add: relocated_Nil)
next
  case (Cons e es)
  have e: "ie_key e \<notin> ie_key ` set es" "points sh e" "key_ok e" using Cons.prems(4-6) by auto
  have ids: "ids_for (Suc (length es)) (storageManager sh)" using Cons.prems(3) by simp
  show ?case
  proof (rule compact_step [OF Cons.prems(2) ids e(2,3), of cur live], goal_cases stay move)
    case (stay sh1)
    obtain es1 where l: "compact_loop cur live es sh1 = (es1, moved, sh')" "es' = e # es1"
      using stay(1) Cons.prems(1) by (auto split: prod.splits)
    have p: "list_all (points sh1) es" "points sh1 e" using Cons.prems(4) points_cong [OF stay(4)] by auto
    from Cons.IH [OF l(1) stay(2,5) p(1)] Cons.prems(5,6)
    have "relocated es sh1 es1 sh'" "\<not> moved \<longrightarrow> es1 = es" by auto
    with relocated_Cons [OF this(1) stay(3) refl p(2) e(1)] stay(4) l(2) show ?case by simp
  next
    case (move r sh1)
    obtain es1 b where l: "compact_loop cur live es sh1 = (es1, b, sh')" "es' = r # es1" "moved"
      using move(1) Cons.prems(1) by (auto split: prod.splits)
    have "ie_key x \<noteq> ie_key e" if "x \<in> set es" for x using e(1) that by (metis imageI)
    with move(6) Cons.prems(4) have "list_all (points sh1) es" by (auto simp: list_all_iff points_def)
    from Cons.IH [OF l(1) move(2,7) this] Cons.prems(5,6) have "relocated es sh1 es1 sh'" by simp
    then have "relocated (e # es) sh (r # es1) sh'" by (rule relocated_Cons) (use move e in auto)
    with l(2,3) show ?case by simp
  qed
qed

text \<open>Removing the segments that no entry of the index uses keeps the contents.\<close>

lemma sh_removeUnused_spec:
  assumes "shard_inv sh" and "\<And>k l. lookup (indexManager sh) k = Some l \<Longrightarrow> loc_segmentId l \<in> ie_segmentId ` set es"
  shows "shard_inv (sh_removeUnused es sh)" and "contents (sh_removeUnused es sh) = contents sh"
    and "set (map fst (segments (storageManager (sh_removeUnused es sh))))
       = set (map fst (segments (storageManager sh))) \<inter> ie_segmentId ` set es"
proof -
  obtain sm s where r: "removeUnusedSegments (sh_ios sh) (map ie_segmentId es) (storageManager sh) = (sm, s)"
    by (cases "removeUnusedSegments (sh_ios sh) (map ie_segmentId es) (storageManager sh)")
  then have sh': "sh_removeUnused es sh = sh\<lparr>storageManager := sm, sh_ios := s\<rparr>"
    by (simp add: sh_removeUnused_def)
  note i = shard_invD [OF assms(1)]
  have "sm_inv (storageManager sh)" using i(1) by (simp add: store_inv_def)
  note f = removeUnusedSegments_spec [OF r this]
  have v: "value_at sm l = value_at (storageManager sh) l" if "lookup (indexManager sh) k = Some l" for k l
    using f(3) assms(2) [OF that] by simp
  show c: "contents (sh_removeUnused es sh) = contents sh"
  proof
    show "contents (sh_removeUnused es sh) k = contents sh k" for k
      using v [of k] by (cases "lookup (indexManager sh) k") (simp_all add: contents_def sh')
  qed
  have "store_inv (sh_removeUnused es sh)"
    using i(1) f(1) v by (auto simp: store_inv_def index_live_def sh')
  with i c show "shard_inv (sh_removeUnused es sh)" by (simp add: shard_inv_def sh')
  show "set (map fst (segments (storageManager (sh_removeUnused es sh))))
       = set (map fst (segments (storageManager sh))) \<inter> ie_segmentId ` set es"
    using f(4) by (simp add: sh')
qed

lemma relocated_covers:
  assumes "relocated es sh es' sh'" and "lookup (indexManager sh') = lookup (indexManager sh2)"
    and "{k. lookup (indexManager sh) k \<noteq> None} \<subseteq> ie_key ` set es"
    and "lookup (indexManager sh2) k = Some l"
  shows "loc_segmentId l \<in> ie_segmentId ` set es'"
proof -
  have "k \<in> ie_key ` set es"
    using assms by (cases "k \<in> ie_key ` set es") (auto simp: relocated_def)
  also have "ie_key ` set es = ie_key ` set es'"
    using assms(1) by (metis list.set_map relocated_def)
  finally obtain e where e: "e \<in> set es'" "k = ie_key e" by blast
  with assms(1,2,4) have "l = loc_of e" by (auto simp: relocated_def list_all_iff points_def)
  with e show ?thesis by (auto simp: loc_of_def)
qed

lemma compactSegments_spec:
  assumes "shard_inv sh" and "ids_for (length es) (storageManager sh)" and "list_all (points sh) es"
    and "list_all key_ok es" and "distinct (map ie_key es)"
    and "{k. lookup (indexManager sh) k \<noteq> None} \<subseteq> ie_key ` set es"
  shows "shard_inv (compactSegments es sh)" and "contents (compactSegments es sh) = contents sh"
proof -
  let ?cur = "currentSegmentId (storageManager sh)"
  obtain es' moved sh1 where l: "compact_loop ?cur (liveBytes es) es sh = (es', moved, sh1)"
    by (cases "compact_loop ?cur (liveBytes es) es sh")
  have rel: "relocated es sh es' sh1" using compact_loop_relocates [OF l assms(1-5)] by simp
  then have s1: "shard_inv sh1" "contents sh1 = contents sh" by (auto simp: relocated_def)
  obtain ok sh2 where fl: "(if moved then flushData sh1 else (True, sh1)) = (ok, sh2)"
    by (cases "if moved then flushData sh1 else (True, sh1)")
  have same: "same_store sh1 sh2"
    using fl flushData_same [OF shard_invD(1) [OF s1(1)]] by (auto split: if_splits)
  then have lk: "lookup (indexManager sh1) = lookup (indexManager sh2)" by (simp add: same_store_def)
  note s2 = same_store_inv [OF same s1(1)]
  note rm = sh_removeUnused_spec [OF conjunct1 [OF s2] relocated_covers [OF rel lk assms(6)]]
  have "compactSegments es sh = (if ok then sh_removeUnused es' sh2 else sh2)"
    using l fl by (simp add: compactSegments_def)
  with s1 s2 rm show "shard_inv (compactSegments es sh)" "contents (compactSegments es sh) = contents sh"
    by auto
qed

text \<open>One round of the compactor: the map is unchanged.\<close>

definition index_fits :: "Shard \<Rightarrow> bool" where
  "index_fits sh \<longleftrightarrow> length (memoryTree (indexManager sh)) \<le> unat UINT_MAX"

lemma compactor_round_spec:
  assumes "shard_inv sh" and "index_fits sh"
    and "ids_for (length (memoryTree (indexManager sh))) (storageManager sh)"
  shows "shard_inv (compactor_round sh)" and "contents (compactor_round sh) = contents sh"
proof -
  obtain es im s where c: "im_compact (sh_ios sh) (indexManager sh) = (es, im, s)"
    by (cases "im_compact (sh_ios sh) (indexManager sh)")
  let ?sh1 = "sh\<lparr>indexManager := im, sh_ios := s\<rparr>"
  have tree: "memoryTree im = memoryTree (indexManager sh)" by (rule im_compact_tree [OF c])
  have lk: "lookup im = lookup (indexManager sh)" using tree by (simp add: lookup_def fun_eq_iff)
  have ct: "contents ?sh1 = contents sh" by (simp add: contents_alt lk)
  have s1: "shard_inv ?sh1"
    using assms(1) ct lk im_inv_cong [OF tree] by (simp add: shard_inv_def store_inv_def index_live_def)
  have es: "es = matching_entries (\<lambda>_. True) ?sh1"
    using im_compact_entries [OF c] getAll_all assms(2) tree
    by (simp add: index_fits_def matching_entries_def)
  note m = matching_points [OF shard_invD(1) [OF s1], of "\<lambda>_. True"]
  have len: "length es = length (memoryTree (indexManager sh))"
    using es tree by (simp add: matching_entries_def tree_entries_def)
  have cover: "{k. lookup (indexManager ?sh1) k \<noteq> None} \<subseteq> ie_key ` set es"
    using m(3) es contents_dom [OF shard_invD(1) [OF s1]] by auto
  have "list_all key_ok es" using matching_live [OF shard_invD(1) [OF s1]] es by (simp add: list_all_iff)
  with compactSegments_spec [OF s1, of es] len assms(3) m(1,2) es cover
  have "shard_inv (compactSegments es ?sh1)" "contents (compactSegments es ?sh1) = contents ?sh1" by auto
  then show "shard_inv (compactor_round sh)" "contents (compactor_round sh) = contents sh"
    using c ct by (simp_all add: compactor_round_def)
qed

section \<open>The contract of a shard\<close>

text \<open>What a value must satisfy to be stored: there is a segment number left for it and it fits the record formats.\<close>

definition shard_fits :: "string \<Rightarrow> string \<Rightarrow> Shard \<Rightarrow> bool" where
  "shard_fits k v sh \<longleftrightarrow> ids_left (storageManager sh) \<and> length v < 2 ^ 32 \<and> v \<noteq> '''' \<and> length k \<le> MAX_KEY_SIZE"

interpretation shard_kv: kv_store contents shard_inv shard_fits sh_get sh_set sh_del
proof unfold_locales
  show "shard_inv s' \<and> contents s' = contents s \<and> get_answer (contents s k) r"
    if "shard_inv s" "sh_get k s = (r, s')" for s k r s'
    using sh_get_spec(1-3) [OF that] by blast
  show "shard_inv s' \<and> contents s' = (if code r = Success then (contents s)(k \<mapsto> v) else contents s)"
    if "shard_inv s" "shard_fits k v s" "sh_set k v s = (r, s')" for s k v r s'
    using sh_set_spec(1,2) [OF that(1) _ _ _ _ that(3)] that(2) by (simp add: shard_fits_def)
  show "shard_inv s' \<and> contents s' = (contents s)(k := None)
      \<and> r = (if contents s k = None then res Error KEY_NOT_FOUND 0 else res Success SUCCESS_DEL 1)"
    if "shard_inv s" "sh_del k s = (r, s')" for s k r s'
    using sh_del_spec(1-3) [OF that] by blast
qed

end
