(* ===== verification/ShardManager.thy ===== *)
theory ShardManager
  imports Shard
begin

text \<open>
  \<open>ShardManager.hpp\<close> and \<open>ShardManager.cpp\<close>: the shards and the routing of keys to them. The hash
  \<open>std::hash<std::string>\<close> is an argument of the definitions, as is \<open>std::nth_element\<close>, whose
  result the standard leaves partly open. \<open>mgr_nextSeq\<close> is the sequence counter that \<open>WAL.cpp\<close>
  keeps for the whole process.

  The tasks that a bulk command gives to the thread pool are run here in shard order; the last
  section shows that the shared match counter keeps its bound under every interleaving.
\<close>

record ShardManager =
  mgr_settings :: Settings
  mgr_shards :: "Shard list"
  mgr_nextSeq :: u64

section \<open>Operations\<close>

fun boot_shards ::
  "Settings \<Rightarrow> nat \<Rightarrow> (ios \<times> rat list \<times> ShardFiles) list \<Rightarrow> boot_error + Shard list" where
  "boot_shards st i [] = Inr []"
| "boot_shards st i ((s, clock, f) # fs) =
     (case sh_boot st i s clock f of
        Inl e \<Rightarrow> Inl e
      | Inr sh \<Rightarrow> (case boot_shards st (Suc i) fs of Inl e \<Rightarrow> Inl e | Inr shs \<Rightarrow> Inr (sh # shs)))"

definition new_ShardManager ::
  "Settings \<Rightarrow> u64 \<Rightarrow> (ios \<times> rat list \<times> ShardFiles) list \<Rightarrow> boot_error + ShardManager" where
  "new_ShardManager st seq fs =
     (case boot_shards st 0 fs of
        Inl e \<Rightarrow> Inl e
      | Inr shs \<Rightarrow> Inr \<lparr>mgr_settings = st, mgr_shards = shs, mgr_nextSeq = seq\<rparr>)"

definition getShardId :: "(string \<Rightarrow> u64) \<Rightarrow> ShardManager \<Rightarrow> string \<Rightarrow> nat" where
  "getShardId hash mgr k = unat (hash k mod of_nat (length (mgr_shards mgr)))"

definition on_shard :: "nat \<Rightarrow> (Shard \<Rightarrow> 'a \<times> Shard) \<Rightarrow> ShardManager \<Rightarrow> 'a \<times> ShardManager" where
  "on_shard i f mgr =
     (case f (mgr_shards mgr ! i) of (r, sh) \<Rightarrow> (r, mgr\<lparr>mgr_shards := (mgr_shards mgr)[i := sh]\<rparr>))"

definition mgr_get :: "(string \<Rightarrow> u64) \<Rightarrow> string \<Rightarrow> ShardManager \<Rightarrow> ResultType \<times> ShardManager" where
  "mgr_get hash k mgr = on_shard (getShardId hash mgr k) (sh_get k) mgr"

definition mgr_set :: "(string \<Rightarrow> u64) \<Rightarrow> string \<Rightarrow> string \<Rightarrow> ShardManager \<Rightarrow> ResultType \<times> ShardManager" where
  "mgr_set hash k v mgr = on_shard (getShardId hash mgr k) (sh_set k v) mgr"

definition mgr_del :: "(string \<Rightarrow> u64) \<Rightarrow> string \<Rightarrow> ShardManager \<Rightarrow> ResultType \<times> ShardManager" where
  "mgr_del hash k mgr = on_shard (getShardId hash mgr k) (sh_del k) mgr"

text \<open>The tasks of a bulk command, with the counter they share.\<close>

fun each_shard ::
  "(u32 option \<Rightarrow> Shard \<Rightarrow> ResultType \<times> u32 option \<times> Shard) \<Rightarrow> u32 option \<Rightarrow> Shard list
     \<Rightarrow> ResultType list \<times> u32 option \<times> Shard list" where
  "each_shard f g [] = ([], g, [])"
| "each_shard f g (sh # shs) =
     (case f g sh of (r, g1, sh1) \<Rightarrow>
      case each_shard f g1 shs of (rs, g2, shs1) \<Rightarrow> (r # rs, g2, sh1 # shs1))"

text \<open>The loop of \<open>getBy\<close> that cuts the brackets off each answer and joins the rest with commas.\<close>

fun merge_loop :: "ResultType list \<Rightarrow> string \<Rightarrow> int \<Rightarrow> string \<times> int" where
  "merge_loop [] merged n = (merged, n)"
| "merge_loop (r # rs) merged n =
     (if code r = Success \<and> length (response r) > 2
      then merge_loop rs
             ((if length merged > 1 then merged @ '','' else merged)
              @ take (length (response r) - 2) (drop 1 (response r)))
             (n + affectedRows r)
      else merge_loop rs merged n)"

definition mgr_getBy :: "(json \<Rightarrow> string) \<Rightarrow> ValidationRule \<Rightarrow> ShardManager \<Rightarrow> ResultType \<times> ShardManager" where
  "mgr_getBy dump valid mgr =
     (case each_shard (sh_getBy dump valid) (Some 0) (mgr_shards mgr) of (rs, g, shs) \<Rightarrow>
      case merge_loop rs ''['' 0 of (merged, n) \<Rightarrow>
        (res Success (merged @ '']'') n, mgr\<lparr>mgr_shards := shs\<rparr>))"

definition firstMatchingKeys ::
  "(nat \<Rightarrow> string list \<Rightarrow> string list) \<Rightarrow> ValidationRule \<Rightarrow> ShardManager \<Rightarrow> string list" where
  "firstMatchingKeys nth_el valid mgr =
     sort (trim_keys nth_el (limit valid) (concat (map (matchingKeys nth_el valid) (mgr_shards mgr))))"

fun for_keys :: "(string \<Rightarrow> ShardManager \<Rightarrow> ResultType \<times> ShardManager) \<Rightarrow> string list \<Rightarrow> int \<Rightarrow> ShardManager
     \<Rightarrow> int \<times> ShardManager" where
  "for_keys f [] n mgr = (n, mgr)"
| "for_keys f (k # ks) n mgr =
     (case f k mgr of (r, mgr1) \<Rightarrow> for_keys f ks (n + (if code r = Success then 1 else 0)) mgr1)"

definition sum_success :: "ResultType list \<Rightarrow> int" where
  "sum_success rs = sum_list (map affectedRows (filter (\<lambda>r. code r = Success) rs))"

text \<open>After the unlimited branch the total is cut to the limit, which can never apply there.\<close>

definition cap_total :: "ValidationRule \<Rightarrow> int \<Rightarrow> int" where
  "cap_total valid n = (if limit valid \<noteq> UINT_MAX \<and> n > uint (limit valid) then uint (limit valid) else n)"

definition mgr_setBy ::
  "(string \<Rightarrow> u64) \<Rightarrow> (nat \<Rightarrow> string list \<Rightarrow> string list) \<Rightarrow> ValidationRule \<Rightarrow> string \<Rightarrow> ShardManager
     \<Rightarrow> ResultType \<times> ShardManager" where
  "mgr_setBy hash nth_el valid v mgr =
     (if limit valid \<noteq> UINT_MAX
      then case for_keys (\<lambda>k. mgr_set hash k v) (firstMatchingKeys nth_el valid mgr) 0 mgr of (n, mgr1) \<Rightarrow>
             (res Success (setBy_message n) n, mgr1)
      else case each_shard (sh_setBy valid v) (Some 0) (mgr_shards mgr) of (rs, g, shs) \<Rightarrow>
             let n = cap_total valid (sum_success rs) in
             (res Success (setBy_message n) n, mgr\<lparr>mgr_shards := shs\<rparr>))"

definition mgr_delBy ::
  "(string \<Rightarrow> u64) \<Rightarrow> (nat \<Rightarrow> string list \<Rightarrow> string list) \<Rightarrow> ValidationRule \<Rightarrow> ShardManager
     \<Rightarrow> ResultType \<times> ShardManager" where
  "mgr_delBy hash nth_el valid mgr =
     (if limit valid \<noteq> UINT_MAX
      then case for_keys (mgr_del hash) (firstMatchingKeys nth_el valid mgr) 0 mgr of (n, mgr1) \<Rightarrow>
             (res Success (delBy_message n) n, mgr1)
      else case each_shard (sh_delBy valid) (Some 0) (mgr_shards mgr) of (rs, g, shs) \<Rightarrow>
             let n = cap_total valid (sum_success rs) in
             (res Success (delBy_message n) n, mgr\<lparr>mgr_shards := shs\<rparr>))"

definition clearAllWAL :: "ShardManager \<Rightarrow> ShardManager" where
  "clearAllWAL mgr = mgr\<lparr>mgr_shards := map sh_clear_wal (mgr_shards mgr)\<rparr>"

definition mgr_flush :: "ShardManager \<Rightarrow> ShardManager" where
  "mgr_flush mgr =
     (let rs = map flushData (mgr_shards mgr);
          mgr1 = mgr\<lparr>mgr_shards := map snd rs\<rparr> in
      if list_all fst rs then clearAllWAL mgr1 else mgr1)"

definition mgr_stop :: "ShardManager \<Rightarrow> ShardManager" where
  "mgr_stop mgr = (let mgr1 = mgr_flush mgr in mgr1\<lparr>mgr_shards := map sh_stop (mgr_shards mgr1)\<rparr>)"

definition sh_getCmds :: "Shard \<Rightarrow> WalEntry list \<times> Shard" where
  "sh_getCmds sh =
     (case getCmds (sh_ios sh) (sh_wal sh) of (es, w, s) \<Rightarrow> (es, sh\<lparr>sh_wal := w, sh_ios := s\<rparr>))"

text \<open>The first half of \<open>replayAllWAL\<close>: the entries of all logs in the order of their numbers.\<close>

definition collectLogs :: "ShardManager \<Rightarrow> WalEntry list \<times> ShardManager" where
  "collectLogs mgr =
     (let rs = map sh_getCmds (mgr_shards mgr);
          entries = sort_key we_seq (concat (map fst rs)) in
      (entries,
       mgr\<lparr>mgr_shards := map snd rs,
           mgr_nextSeq := (if entries = [] then mgr_nextSeq mgr
                           else advanceSequence (we_seq (last entries) + 1) (mgr_nextSeq mgr))\<rparr>))"

text \<open>
  The callback \<open>execCmdFunc\<close> changes the state \<open>'s\<close> in which the manager lives, and \<open>None\<close> is an
  exception it throws; its answer is only logged.
\<close>

fun replay_loop :: "(string \<Rightarrow> 's \<Rightarrow> 's option) \<Rightarrow> WalEntry list \<Rightarrow> 's \<Rightarrow> 's option" where
  "replay_loop exec [] z = Some z"
| "replay_loop exec (e # es) z =
     (case exec (we_cmd e) z of None \<Rightarrow> None | Some z1 \<Rightarrow> replay_loop exec es z1)"

definition replayAllWAL ::
  "('s \<Rightarrow> ShardManager) \<Rightarrow> (ShardManager \<Rightarrow> 's \<Rightarrow> 's) \<Rightarrow> (string \<Rightarrow> 's \<Rightarrow> 's option) \<Rightarrow> 's \<Rightarrow> 's option" where
  "replayAllWAL mgr_of with_mgr exec z =
     (case collectLogs (mgr_of z) of (entries, mgr1) \<Rightarrow>
        map_option (\<lambda>z1. with_mgr (mgr_flush (mgr_of z1)) z1) (replay_loop exec entries (with_mgr mgr1 z)))"

definition sh_sync :: "Shard \<Rightarrow> bool \<times> Shard" where
  "sh_sync sh =
     (case wal_sync (sh_settings sh) (sh_ios sh) (sh_wal sh) of (ok, w, s) \<Rightarrow>
        (ok, sh\<lparr>sh_wal := w, sh_ios := s\<rparr>))"

definition syncWAL :: "ShardManager \<Rightarrow> bool \<times> ShardManager" where
  "syncWAL mgr =
     (let rs = map sh_sync (mgr_shards mgr) in (list_all fst rs, mgr\<lparr>mgr_shards := map snd rs\<rparr>))"

definition appendToWAL :: "(string \<Rightarrow> u64) \<Rightarrow> string \<Rightarrow> string \<Rightarrow> ShardManager \<Rightarrow> bool \<times> ShardManager" where
  "appendToWAL hash k cmd mgr =
     (let i = getShardId hash mgr k; sh = mgr_shards mgr ! i in
      case wal_append (sh_ios sh) cmd (mgr_nextSeq mgr) (sh_wal sh) of (ok, q, w, s) \<Rightarrow>
        (ok, mgr\<lparr>mgr_shards := (mgr_shards mgr)[i := sh\<lparr>sh_wal := w, sh_ios := s\<rparr>], mgr_nextSeq := q\<rparr>))"

definition mgr_reloadSettings :: "Settings \<Rightarrow> ShardManager \<Rightarrow> ShardManager" where
  "mgr_reloadSettings st mgr =
     mgr\<lparr>mgr_settings := st, mgr_shards := map (sh_reloadSettings st) (mgr_shards mgr)\<rparr>"

section \<open>The database as one map\<close>

definition db :: "(string \<Rightarrow> u64) \<Rightarrow> ShardManager \<Rightarrow> string \<Rightarrow> string option" where
  "db hash mgr k = contents (mgr_shards mgr ! getShardId hash mgr k) k"

text \<open>Every shard keeps its invariant and holds only keys that are routed to it.\<close>

definition mgr_inv :: "(string \<Rightarrow> u64) \<Rightarrow> ShardManager \<Rightarrow> bool" where
  "mgr_inv hash mgr \<longleftrightarrow>
     mgr_shards mgr \<noteq> [] \<and> length (mgr_shards mgr) < 2 ^ 32
     \<and> (\<forall>i < length (mgr_shards mgr).
          shard_inv (mgr_shards mgr ! i)
          \<and> (\<forall>k. contents (mgr_shards mgr ! i) k \<noteq> None \<longrightarrow> home hash (length (mgr_shards mgr)) k = i))"

lemma getShardId_home: "getShardId hash mgr k = home hash (length (mgr_shards mgr)) k"
  by (simp add: getShardId_def home_def)

lemma db_whole: "db hash mgr = shard_kv.whole_view hash (mgr_shards mgr)"
  by (simp add: fun_eq_iff db_def getShardId_home shard_kv.whole_view_def)

lemma mgr_inv_whole: "mgr_inv hash mgr = shard_kv.whole_invar hash (mgr_shards mgr)"
  by (simp add: mgr_inv_def shard_kv.whole_invar_def)

lemma getShardId_less: "mgr_inv hash mgr \<Longrightarrow> getShardId hash mgr k < length (mgr_shards mgr)"
  by (simp add: getShardId_home mgr_inv_whole shard_kv.home_in_range)

lemma mgr_inv_shard: "mgr_inv hash mgr \<Longrightarrow> i < length (mgr_shards mgr) \<Longrightarrow> shard_inv (mgr_shards mgr ! i)"
  by (simp add: mgr_inv_def)

lemmas mgr_whole = mgr_inv_whole db_whole getShardId_home

text \<open>Replacing the shard of \<open>k\<close> by one whose contents differ at \<open>k\<close> only.\<close>

lemma on_home_shard:
  assumes "mgr_inv hash mgr" and "i = getShardId hash mgr k" and "shard_inv sh'"
    and "\<And>q. q \<noteq> k \<Longrightarrow> contents sh' q = contents (mgr_shards mgr ! i) q"
    and "mgr' = mgr\<lparr>mgr_shards := (mgr_shards mgr)[i := sh'], mgr_nextSeq := z\<rparr>"
  shows "mgr_inv hash mgr'" and "db hash mgr' = (db hash mgr)(k := contents sh' k)"
  using shard_kv.replace_home [of hash "mgr_shards mgr" sh' k] assms by (simp_all add: mgr_whole)

text \<open>The single-key operations of the manager are those of a shard at the home of the key.\<close>

lemma on_shard_home:
  "on_shard (getShardId hash mgr k) f mgr = (r, mgr') \<Longrightarrow>
     \<exists>sh'. f (mgr_shards mgr ! home hash (length (mgr_shards mgr)) k) = (r, sh')
       \<and> mgr' = mgr\<lparr>mgr_shards := (mgr_shards mgr)[home hash (length (mgr_shards mgr)) k := sh']\<rparr>"
  by (auto simp: on_shard_def getShardId_home split: prod.splits)

lemma mgr_get_spec:
  assumes "mgr_inv hash mgr" and "mgr_get hash k mgr = (r, mgr')"
  shows "mgr_inv hash mgr'" and "db hash mgr' = db hash mgr" and "get_answer (db hash mgr k) r"
    and "all_ok (sh_ios (mgr_shards mgr ! getShardId hash mgr k)) \<Longrightarrow> db hash mgr k = Some v \<Longrightarrow> r = res Success v 1"
proof -
  obtain sh' where g: "sh_get k (mgr_shards mgr ! home hash (length (mgr_shards mgr)) k) = (r, sh')"
    and m: "mgr' = mgr\<lparr>mgr_shards := (mgr_shards mgr)[home hash (length (mgr_shards mgr)) k := sh']\<rparr>"
    using on_shard_home [OF assms(2) [unfolded mgr_get_def]] by blast
  from shard_kv.home_get [OF assms(1) [unfolded mgr_inv_whole] g] m
  show "mgr_inv hash mgr'" "db hash mgr' = db hash mgr" "get_answer (db hash mgr k) r" by (simp_all add: mgr_whole)
  show "r = res Success v 1" if "all_ok (sh_ios (mgr_shards mgr ! getShardId hash mgr k))" "db hash mgr k = Some v"
    using sh_get_spec(4) [OF mgr_inv_shard [OF assms(1) getShardId_less [OF assms(1)]]] g that by (simp add: db_def getShardId_home)
qed

lemma mgr_set_spec:
  assumes "mgr_inv hash mgr" and "ids_left (storageManager (mgr_shards mgr ! getShardId hash mgr k))"
    and "length v < 2 ^ 32" and "v \<noteq> ''''" and "length k \<le> MAX_KEY_SIZE" and "mgr_set hash k v mgr = (r, mgr')"
  shows "mgr_inv hash mgr'"
    and "db hash mgr' = (if code r = Success then (db hash mgr)(k \<mapsto> v) else db hash mgr)"
    and "r = res Success SUCCESS_SET 1 \<or> r = res Error segment_full_message 0"
proof -
  let ?sh = "mgr_shards mgr ! home hash (length (mgr_shards mgr)) k"
  obtain sh' where g: "sh_set k v ?sh = (r, sh')"
    and m: "mgr' = mgr\<lparr>mgr_shards := (mgr_shards mgr)[home hash (length (mgr_shards mgr)) k := sh']\<rparr>"
    using on_shard_home [OF assms(6) [unfolded mgr_set_def]] by blast
  have f: "shard_fits k v ?sh" using assms(2-5) by (simp add: shard_fits_def getShardId_home)
  from shard_kv.home_set [OF assms(1) [unfolded mgr_inv_whole] f g] m
  show "mgr_inv hash mgr'" "db hash mgr' = (if code r = Success then (db hash mgr)(k \<mapsto> v) else db hash mgr)"
    by (simp_all add: mgr_whole)
  show "r = res Success SUCCESS_SET 1 \<or> r = res Error segment_full_message 0"
    using sh_set_spec(3) [OF mgr_inv_shard [OF assms(1) getShardId_less [OF assms(1)]] assms(2-5)] g by (simp add: getShardId_home)
qed

lemma mgr_del_spec:
  assumes "mgr_inv hash mgr" and "mgr_del hash k mgr = (r, mgr')"
  shows "mgr_inv hash mgr'" and "db hash mgr' = (db hash mgr)(k := None)"
    and "r = (if db hash mgr k = None then res Error KEY_NOT_FOUND 0 else res Success SUCCESS_DEL 1)"
proof -
  obtain sh' where g: "sh_del k (mgr_shards mgr ! home hash (length (mgr_shards mgr)) k) = (r, sh')"
    and m: "mgr' = mgr\<lparr>mgr_shards := (mgr_shards mgr)[home hash (length (mgr_shards mgr)) k := sh']\<rparr>"
    using on_shard_home [OF assms(2) [unfolded mgr_del_def]] by blast
  from shard_kv.home_del [OF assms(1) [unfolded mgr_inv_whole] g] m
  show "mgr_inv hash mgr'" "db hash mgr' = (db hash mgr)(k := None)"
    "r = (if db hash mgr k = None then res Error KEY_NOT_FOUND 0 else res Success SUCCESS_DEL 1)" by (simp_all add: mgr_whole)
qed

text \<open>So the manager keeps the contract that each of its shards keeps.\<close>

definition mgr_fits :: "(string \<Rightarrow> u64) \<Rightarrow> string \<Rightarrow> string \<Rightarrow> ShardManager \<Rightarrow> bool" where
  "mgr_fits hash k v mgr \<longleftrightarrow> shard_fits k v (mgr_shards mgr ! getShardId hash mgr k)"

interpretation mgr_kv: kv_store "db hash" "mgr_inv hash" "mgr_fits hash" "mgr_get hash" "mgr_set hash" "mgr_del hash"
  for hash
proof unfold_locales
  show "mgr_inv hash s' \<and> db hash s' = db hash s \<and> get_answer (db hash s k) r"
    if "mgr_inv hash s" "mgr_get hash k s = (r, s')" for s k r s'
    using mgr_get_spec(1-3) [OF that] by blast
  show "mgr_inv hash s' \<and> db hash s' = (if code r = Success then (db hash s)(k \<mapsto> v) else db hash s)"
    if "mgr_inv hash s" "mgr_fits hash k v s" "mgr_set hash k v s = (r, s')" for s k v r s'
    using mgr_set_spec(1,2) [OF that(1) _ _ _ _ that(3)] that(2) by (simp add: mgr_fits_def shard_fits_def)
  show "mgr_inv hash s' \<and> db hash s' = (db hash s)(k := None)
      \<and> r = (if db hash s k = None then res Error KEY_NOT_FOUND 0 else res Success SUCCESS_DEL 1)"
    if "mgr_inv hash s" "mgr_del hash k s = (r, s')" for s k r s'
    using mgr_del_spec [OF that] by blast
qed

section \<open>Joining the answers of the shards\<close>

definition arr_result :: "(json \<Rightarrow> string) \<Rightarrow> json list \<Rightarrow> ResultType" where
  "arr_result dump a = res Success (dump (JArr a)) (int (length a))"

definition all_objects :: "json list \<Rightarrow> bool" where
  "all_objects xs \<longleftrightarrow> list_all (\<lambda>x. \<exists>ms. x = JObj ms) xs"

lemma join_objects_nonempty:
  assumes "dumps_arrays dump" and "all_objects a" and "a \<noteq> []"
  shows "join '','' (map dump a) \<noteq> []"
  using assms by (intro join_nonempty) (auto simp: dumps_arrays_def all_objects_def list_all_iff)

lemma merge_loop_arrays:
  "dumps_arrays dump \<Longrightarrow> all_objects acc \<Longrightarrow> list_all all_objects arrs \<Longrightarrow>
     merge_loop (map (arr_result dump) arrs) (''['' @ join '','' (map dump acc)) n
       = (''['' @ join '','' (map dump (acc @ concat arrs)), n + int (length (concat arrs)))"
proof (induction arrs arbitrary: acc n)
  case Nil
  then show ?case by simp
next
  case (Cons a arrs)
  have d: "dump (JArr a) = ''['' @ join '','' (map dump a) @ '']''"
    using Cons.prems(1) by (simp add: dumps_arrays_def)
  show ?case
  proof (cases "a = []")
    case True
    with Cons.IH [OF Cons.prems(1,2)] Cons.prems(3) d show ?thesis by (simp add: arr_result_def)
  next
    case False
    have ne: "join '','' (map dump a) \<noteq> []" using join_objects_nonempty [OF Cons.prems(1) _ False] Cons.prems(3) by simp
    let ?m = "if acc = [] then ''['' else ''['' @ join '','' (map dump acc) @ '',''"
    have m: "join '','' (map dump acc) = [] \<longleftrightarrow> acc = []"
      using join_objects_nonempty [OF Cons.prems(1,2)] by auto
    have j: "?m @ join '','' (map dump a) = ''['' @ join '','' (map dump (acc @ a))"
      using join_append [of "map dump acc" "map dump a" "'',''"] False by auto
    have "length (dump (JArr a)) > 2" "take (length (dump (JArr a)) - 2) (drop 1 (dump (JArr a))) = join '','' (map dump a)"
      using ne by (simp_all add: d)
    then have "merge_loop (map (arr_result dump) (a # arrs)) (''['' @ join '','' (map dump acc)) n
        = merge_loop (map (arr_result dump) arrs) (?m @ join '','' (map dump a)) (n + int (length a))"
      using m by (simp add: arr_result_def)
    also have "\<dots> = (''['' @ join '','' (map dump ((acc @ a) @ concat arrs)),
          n + int (length a) + int (length (concat arrs)))"
      unfolding j using Cons.prems by (intro Cons.IH) (auto simp: all_objects_def)
    finally show ?thesis by simp
  qed
qed

lemma merge_arrays:
  assumes "dumps_arrays dump" and "list_all all_objects arrs"
  shows "merge_loop (map (arr_result dump) arrs) ''['' 0
     = (''['' @ join '','' (map dump (concat arrs)), int (length (concat arrs)))"
  using merge_loop_arrays [OF assms(1) _ assms(2), of "[]" 0] by (simp add: all_objects_def)

section \<open>The smallest keys\<close>

text \<open>What the standard says of \<open>nth_element\<close>: a permutation, split at the position.\<close>

definition selects :: "(nat \<Rightarrow> string list \<Rightarrow> string list) \<Rightarrow> bool" where
  "selects nth_el \<longleftrightarrow>
     (\<forall>n xs. n < length xs \<longrightarrow>
        mset (nth_el n xs) = mset xs
        \<and> (\<forall>x \<in> set (take n (nth_el n xs)). \<forall>y \<in> set (drop n (nth_el n xs)). x \<le> y))"

lemma sort_split:
  fixes a b :: "'a :: linorder list"
  assumes "\<And>x y. x \<in> set a \<Longrightarrow> y \<in> set b \<Longrightarrow> x \<le> y"
  shows "sort (a @ b) = sort a @ sort b"
  using assms by (intro properties_for_sort) (auto simp: sorted_append)

lemma sort_trim_keys:
  assumes "selects nth_el"
  shows "sort (trim_keys nth_el mx ks) = take (unat mx) (sort ks)"
proof (cases "unat mx < length ks")
  case True
  let ?n = "unat mx"
  let ?ys = "nth_el ?n ks"
  have p: "mset ?ys = mset ks" and o: "\<And>x y. x \<in> set (take ?n ?ys) \<Longrightarrow> y \<in> set (drop ?n ?ys) \<Longrightarrow> x \<le> y"
    using assms True unfolding selects_def by blast+
  have len: "length ?ys = length ks" using p by (metis size_mset)
  have "sort ks = sort (take ?n ?ys @ drop ?n ?ys)"
    using p by (intro properties_for_sort) (simp_all del: append_take_drop_id add: append_take_drop_id)
  also have "\<dots> = sort (take ?n ?ys) @ sort (drop ?n ?ys)" by (rule sort_split [OF o])
  finally have "take ?n (sort ks) = sort (take ?n ?ys)" using True len by simp
  with True show ?thesis by (simp add: trim_keys_def)
next
  case False
  then show ?thesis by (simp add: trim_keys_def)
qed

text \<open>
  Keeping only the \<open>L\<close> smallest of one part does not change the \<open>L\<close> smallest of the whole:
  an element that was cut can only be reached by passing \<open>L\<close> kept ones.
\<close>

lemma take_sort_drop_large:
  fixes a b c :: "'a :: linorder list"
  assumes le: "\<And>x y. x \<in> set a \<Longrightarrow> y \<in> set b \<Longrightarrow> x \<le> y" and L: "L \<le> length a"
  shows "take L (sort (a @ b @ c)) = take L (sort (a @ c))"
proof -
  define p where "p = take L (sort (a @ c))"
  define q where "q = drop L (sort (a @ c))"
  have pq: "p @ q = sort (a @ c)" by (simp add: p_def q_def)
  have lp: "length p = L" using L by (simp add: p_def)
  have s: "sorted p" "sorted q" "\<And>x y. x \<in> set p \<Longrightarrow> y \<in> set q \<Longrightarrow> x \<le> y"
    using sorted_append [of p q] pq by auto
  have pb: "x \<le> y" if x: "x \<in> set p" and y: "y \<in> set b" for x y
  proof (rule ccontr)
    assume "\<not> x \<le> y"
    then have lt: "\<And>z. z \<in> set a \<Longrightarrow> z < x" using le y by fastforce
    have "length (filter (\<lambda>z. z < x) (a @ c)) = length (filter (\<lambda>z. z < x) (p @ q))"
      unfolding pq by (metis mset_filter mset_sort size_mset)
    moreover have "filter (\<lambda>z. z < x) q = []" using s(3) x by (auto simp: filter_empty_conv not_less)
    ultimately have "length (filter (\<lambda>z. z < x) (a @ c)) = length (filter (\<lambda>z. z < x) p)" by simp
    also have "\<dots> < length p" using x by (intro length_filter_less) auto
    finally show False using lt lp L by (simp add: filter_id_conv [THEN iffD2])
  qed
  have "mset (p @ sort (q @ b)) = mset (a @ b @ c)"
    using arg_cong [OF pq, of mset] by (simp add: ac_simps)
  moreover have "sorted (p @ sort (q @ b))" using s pb by (auto simp: sorted_append)
  ultimately have "sort (a @ b @ c) = p @ sort (q @ b)" by (metis properties_for_sort)
  with lp show ?thesis by (simp add: p_def)
qed

lemma take_sort_take:
  fixes xs c :: "'a :: linorder list"
  shows "take L (sort (take L (sort xs) @ c)) = take L (sort (xs @ c))"
proof (cases "length xs \<le> L")
  case True
  then have "take L (sort xs) = sort xs" by simp
  moreover have "sort (sort xs @ c) = sort (xs @ c)" by (intro properties_for_sort) auto
  ultimately show ?thesis by simp
next
  case False
  let ?a = "take L (sort xs)" and ?b = "drop L (sort xs)"
  have "x \<le> y" if "x \<in> set ?a" "y \<in> set ?b" for x y
    using that sorted_append [of ?a ?b] by simp
  then have "take L (sort (?a @ ?b @ c)) = take L (sort (?a @ c))"
    using False by (intro take_sort_drop_large) auto
  moreover have "sort (?a @ ?b @ c) = sort (xs @ c)"
    by (intro properties_for_sort) (simp_all flip: append_assoc)
  ultimately show ?thesis by simp
qed

lemma take_sort_concat:
  fixes c :: "string list"
  assumes "selects nth_el"
  shows "take (unat mx) (sort (c @ concat (map (trim_keys nth_el mx) xss))) = take (unat mx) (sort (c @ concat xss))"
proof (induction xss arbitrary: c)
  case Nil
  show ?case by simp
next
  case (Cons xs xss)
  let ?L = "unat mx"
  have swap: "sort (u @ v) = sort (v @ u)" for u v :: "string list"
    by (intro properties_for_sort) (simp_all add: ac_simps)
  have re: "sort (c @ ys @ zs) = sort (ys @ (c @ zs))" for ys zs :: "string list"
    by (intro properties_for_sort) (simp_all add: ac_simps)
  have srt: "sort (ys @ d) = sort (sort ys @ d)" for ys d :: "string list"
    by (intro properties_for_sort) simp_all
  have "take ?L (sort (c @ concat (map (trim_keys nth_el mx) (xs # xss))))
      = take ?L (sort (trim_keys nth_el mx xs @ (c @ concat (map (trim_keys nth_el mx) xss))))"
    by (simp add: re)
  also have "\<dots> = take ?L (sort (take ?L (sort xs) @ (c @ concat (map (trim_keys nth_el mx) xss))))"
    by (subst srt) (simp add: sort_trim_keys [OF assms])
  also have "\<dots> = take ?L (sort (xs @ (c @ concat (map (trim_keys nth_el mx) xss))))"
    by (rule take_sort_take)
  also have "\<dots> = take ?L (sort ((xs @ c) @ concat xss))" using Cons.IH [of "xs @ c"] by simp
  also have "\<dots> = take ?L (sort (c @ concat (xs # xss)))" by (simp add: re)
  finally show ?case .
qed

lemma firstMatchingKeys_eq:
  assumes "selects nth_el"
  shows "firstMatchingKeys nth_el valid mgr
     = take (unat (limit valid))
         (sort (concat (map (\<lambda>sh. map ie_key (matching_entries (func valid) sh)) (mgr_shards mgr))))"
proof -
  let ?xss = "map (\<lambda>sh. map ie_key (matching_entries (func valid) sh)) (mgr_shards mgr)"
  have "map (matchingKeys nth_el valid) (mgr_shards mgr) = map (trim_keys nth_el (limit valid)) ?xss"
    by (simp add: matchingKeys_def findMatching_all matching_entries_def)
  with take_sort_concat [OF assms, of "limit valid" "[]" ?xss] show ?thesis
    unfolding firstMatchingKeys_def sort_trim_keys [OF assms] by (simp only: append_Nil)
qed

section \<open>The keys a rule matches\<close>

definition match_keys :: "(string \<Rightarrow> bool) \<Rightarrow> ShardManager \<Rightarrow> string list" where
  "match_keys p mgr = concat (map (\<lambda>sh. map ie_key (matching_entries p sh)) (mgr_shards mgr))"

lemma distinct_concat_disjoint:
  assumes "\<And>i. i < length xss \<Longrightarrow> distinct (xss ! i)"
    and "\<And>i j x. i < length xss \<Longrightarrow> j < length xss \<Longrightarrow> x \<in> set (xss ! i) \<Longrightarrow> x \<in> set (xss ! j) \<Longrightarrow> i = j"
  shows "distinct (concat xss)"
  using assms
proof (induction xss)
  case Nil
  show ?case by simp
next
  case (Cons xs xss)
  have "distinct (concat xss)"
  proof (rule Cons.IH)
    show "distinct (xss ! i)" if "i < length xss" for i using Cons.prems(1) [of "Suc i"] that by simp
    show "i = j" if "i < length xss" "j < length xss" "x \<in> set (xss ! i)" "x \<in> set (xss ! j)" for i j x
      using Cons.prems(2) [of "Suc i" "Suc j" x] that by simp
  qed
  moreover have "distinct xs" using Cons.prems(1) [of 0] by simp
  moreover have "x \<notin> set (concat xss)" if "x \<in> set xs" for x
  proof
    assume "x \<in> set (concat xss)"
    then obtain j where "j < length xss" "x \<in> set (xss ! j)" unfolding set_concat_nth by blast
    with Cons.prems(2) [of 0 "Suc j" x] that show False by simp
  qed
  ultimately show ?case by auto
qed

lemma shard_db:
  assumes "mgr_inv hash mgr" and "i < length (mgr_shards mgr)" and "contents (mgr_shards mgr ! i) k \<noteq> None"
  shows "db hash mgr k = contents (mgr_shards mgr ! i) k" and "getShardId hash mgr k = i"
  using assms by (auto simp: mgr_inv_def db_def getShardId_home)

lemma db_shard:
  assumes "mgr_inv hash mgr" and "db hash mgr k \<noteq> None"
  shows "\<exists>i < length (mgr_shards mgr). contents (mgr_shards mgr ! i) k = db hash mgr k"
  using getShardId_less [OF assms(1)] by (auto simp: db_def)

lemma match_keys_spec:
  assumes "mgr_inv hash mgr"
  shows "distinct (match_keys p mgr)" and "set (match_keys p mgr) = {k. p k \<and> db hash mgr k \<noteq> None}"
proof -
  let ?f = "\<lambda>sh. map ie_key (matching_entries p sh)" and ?n = "length (mgr_shards mgr)"
  have m: "distinct (?f (mgr_shards mgr ! i))"
      "set (?f (mgr_shards mgr ! i)) = {k. p k \<and> contents (mgr_shards mgr ! i) k \<noteq> None}" if "i < ?n" for i
    using matching_points [OF shard_invD(1) [OF mgr_inv_shard [OF assms that]]] by auto
  show "distinct (match_keys p mgr)" unfolding match_keys_def
  proof (rule distinct_concat_disjoint)
    show "distinct (map ?f (mgr_shards mgr) ! i)" if "i < length (map ?f (mgr_shards mgr))" for i
      using m(1) that by simp
    show "i = j" if "i < length (map ?f (mgr_shards mgr))" "j < length (map ?f (mgr_shards mgr))"
      "x \<in> set (map ?f (mgr_shards mgr) ! i)" "x \<in> set (map ?f (mgr_shards mgr) ! j)" for i j x
      using that m(2) [of i] m(2) [of j] shard_db(2) [OF assms, of i x] shard_db(2) [OF assms, of j x] by auto
  qed
  have "k \<in> set (match_keys p mgr) \<longleftrightarrow> (\<exists>i < ?n. k \<in> set (?f (mgr_shards mgr ! i)))" for k
    unfolding match_keys_def set_concat_nth by (simp cong: conj_cong)
  moreover have "(\<exists>i < ?n. k \<in> set (?f (mgr_shards mgr ! i))) \<longleftrightarrow> p k \<and> db hash mgr k \<noteq> None" for k
  proof
    assume "\<exists>i < ?n. k \<in> set (?f (mgr_shards mgr ! i))"
    then obtain i where i: "i < ?n" "k \<in> set (?f (mgr_shards mgr ! i))" by blast
    then have k: "p k" "contents (mgr_shards mgr ! i) k \<noteq> None" unfolding m(2) [OF i(1)] by simp_all
    with shard_db(1) [OF assms i(1) k(2)] show "p k \<and> db hash mgr k \<noteq> None" by simp
  next
    assume k: "p k \<and> db hash mgr k \<noteq> None"
    then obtain i where i: "i < ?n" "contents (mgr_shards mgr ! i) k = db hash mgr k"
      using db_shard [OF assms] by blast
    with k m(2) [OF i(1)] show "\<exists>i < ?n. k \<in> set (?f (mgr_shards mgr ! i))"
      by (intro exI [of _ i]) (simp del: set_map)
  qed
  ultimately show "set (match_keys p mgr) = {k. p k \<and> db hash mgr k \<noteq> None}" by auto
qed

lemma finite_matches: "mgr_inv hash mgr \<Longrightarrow> finite {k. p k \<and> db hash mgr k \<noteq> None}"
  using match_keys_spec(2) [of hash mgr p] by (metis List.finite_set)

lemma sort_match_keys:
  "mgr_inv hash mgr \<Longrightarrow> sort (match_keys p mgr) = sorted_list_of_set {k. p k \<and> db hash mgr k \<noteq> None}"
  using match_keys_spec [of hash mgr p] by (metis sorted_list_of_set_sort_remdups distinct_remdups_id)

lemma firstMatchingKeys_spec:
  assumes "mgr_inv hash mgr" and "selects nth_el"
  shows "firstMatchingKeys nth_el valid mgr
     = take (unat (limit valid)) (sorted_list_of_set {k. func valid k \<and> db hash mgr k \<noteq> None})"
  using firstMatchingKeys_eq [OF assms(2)] sort_match_keys [OF assms(1)] by (simp add: match_keys_def)

lemma match_key_length:
  assumes "mgr_inv hash mgr" and "db hash mgr k \<noteq> None"
  shows "length k \<le> MAX_KEY_SIZE"
proof -
  obtain i where i: "i < length (mgr_shards mgr)" "contents (mgr_shards mgr ! i) k \<noteq> None"
    using db_shard [OF assms] assms(2) by auto
  let ?im = "indexManager (mgr_shards mgr ! i)"
  have "im_inv ?im" using mgr_inv_shard [OF assms(1) i(1)] by (simp add: shard_inv_def store_inv_def)
  moreover obtain l where "lookup ?im k = Some l" using i(2) by (auto simp: contents_def bind_eq_None_conv)
  ultimately show ?thesis by (auto simp: im_inv_def lookup_def list_all_iff dest: map_of_SomeD)
qed

section \<open>Bulk commands by key\<close>

lemma mgr_set_shards:
  assumes "mgr_inv hash mgr" and "mgr_set hash k v mgr = (r, mgr')"
    and "\<And>i. i < length (mgr_shards mgr) \<Longrightarrow> ids_for (Suc n) (storageManager (mgr_shards mgr ! i))"
  shows "length (mgr_shards mgr') = length (mgr_shards mgr)"
    and "i < length (mgr_shards mgr) \<Longrightarrow> ids_for n (storageManager (mgr_shards mgr' ! i))"
proof -
  let ?j = "getShardId hash mgr k"
  obtain sh' where g: "sh_set k v (mgr_shards mgr ! ?j) = (r, sh')"
    and m: "mgr' = mgr\<lparr>mgr_shards := (mgr_shards mgr)[?j := sh']\<rparr>"
    using assms(2) by (auto simp: mgr_set_def on_shard_def split: prod.splits)
  show "length (mgr_shards mgr') = length (mgr_shards mgr)" by (simp add: m)
  assume i: "i < length (mgr_shards mgr)"
  obtain e sh1 where a: "sh_append v (mgr_shards mgr ! ?j) = (e, sh1)"
    by (cases "sh_append v (mgr_shards mgr ! ?j)")
  have "storageManager sh' = storageManager sh1"
    using g a by (auto simp: sh_set_def Let_def sh_put_def sh_insert_def split: if_splits prod.splits)
  moreover have "ids_for n (storageManager sh1)"
    using sh_append_ids [OF assms(3) a] getShardId_less [OF assms(1)] by simp
  ultimately show "ids_for n (storageManager (mgr_shards mgr' ! i))"
    using i ids_for_less [OF assms(3) [OF i]] nth_list_update [OF getShardId_less [OF assms(1)]]
    by (simp add: m)
qed

lemma for_keys_set:
  "for_keys (\<lambda>k. mgr_set hash k v) ks n mgr = (n', mgr') \<Longrightarrow> mgr_inv hash mgr \<Longrightarrow> distinct ks \<Longrightarrow>
     (\<And>i. i < length (mgr_shards mgr) \<Longrightarrow> ids_for (length ks) (storageManager (mgr_shards mgr ! i))) \<Longrightarrow>
     length v < 2 ^ 32 \<Longrightarrow> v \<noteq> '''' \<Longrightarrow> list_all (\<lambda>k. length k \<le> MAX_KEY_SIZE) ks \<Longrightarrow>
     mgr_inv hash mgr' \<and> (\<exists>ys. subseq ys ks \<and> n' = n + int (length ys) \<and> db hash mgr' = assign v (set ys) (db hash mgr))"
proof (induction ks arbitrary: n mgr)
  case Nil
  then show ?case by (auto intro!: exI [of _ "[]"])
next
  case (Cons k ks)
  obtain r mgr1 where s: "mgr_set hash k v mgr = (r, mgr1)" by (cases "mgr_set hash k v mgr")
  have ids: "i < length (mgr_shards mgr) \<Longrightarrow> ids_for (Suc (length ks)) (storageManager (mgr_shards mgr ! i))" for i
    using Cons.prems(4) by simp
  note sp = mgr_set_spec [OF Cons.prems(2) ids_for_left [OF ids [OF getShardId_less [OF Cons.prems(2)]]] Cons.prems(5,6) _ s]
  note sh = mgr_set_shards [OF Cons.prems(2) s ids]
  have "for_keys (\<lambda>k. mgr_set hash k v) ks (n + (if code r = Success then 1 else 0)) mgr1 = (n', mgr')"
    using Cons.prems(1) s by simp
  from Cons.IH [OF this] sp sh Cons.prems obtain ys where
    "mgr_inv hash mgr'" "subseq ys ks" "n' = n + (if code r = Success then 1 else 0) + int (length ys)"
    "db hash mgr' = assign v (set ys) (db hash mgr1)" by auto
  note ys = this
  show ?case
  proof (cases "code r = Success")
    case True
    with ys sp(2) Cons.prems(7) show ?thesis by (intro conjI exI [of _ "k # ys"]) auto
  next
    case False
    with ys sp(2) Cons.prems(7) show ?thesis by (intro conjI exI [of _ ys]) auto
  qed
qed

lemma for_keys_del:
  "for_keys (mgr_del hash) ks n mgr = (n', mgr') \<Longrightarrow> mgr_inv hash mgr \<Longrightarrow> distinct ks \<Longrightarrow>
     \<forall>k \<in> set ks. db hash mgr k \<noteq> None \<Longrightarrow>
     mgr_inv hash mgr' \<and> n' = n + int (length ks) \<and> db hash mgr' = db hash mgr |` (- set ks)"
proof (induction ks arbitrary: n mgr)
  case Nil
  then show ?case by (simp add: restrict_map_def)
next
  case (Cons k ks)
  obtain r mgr1 where s: "mgr_del hash k mgr = (r, mgr1)" by (cases "mgr_del hash k mgr")
  note sp = mgr_del_spec [OF Cons.prems(2) s]
  have "for_keys (mgr_del hash) ks (n + 1) mgr1 = (n', mgr')"
    using Cons.prems(1,4) s sp(3) by simp
  moreover have "\<forall>q \<in> set ks. db hash mgr1 q \<noteq> None" using Cons.prems(3,4) sp(2) by auto
  ultimately show ?case using Cons.IH [of "n + 1" mgr1] sp(1,2) Cons.prems(3)
    by (auto simp: restrict_map_def fun_eq_iff)
qed

section \<open>Bulk commands by shard\<close>

lemma each_shard_nth:
  "each_shard f g shs = (rs, g', shs') \<Longrightarrow>
     length rs = length shs \<and> length shs' = length shs
     \<and> (\<forall>i < length shs. \<exists>a b. f a (shs ! i) = (rs ! i, b, shs' ! i))"
proof (induction shs arbitrary: g rs shs')
  case Nil
  then show ?case by simp
next
  case (Cons sh shs)
  obtain r g1 sh1 rs1 shs1 where 1: "f g sh = (r, g1, sh1)" "each_shard f g1 shs = (rs1, g', shs1)"
    "rs = r # rs1" "shs' = sh1 # shs1" using Cons.prems by (auto split: prod.splits)
  note ih = Cons.IH [OF 1(2)]
  have "\<exists>a b. f a ((sh # shs) ! i) = (rs ! i, b, shs' ! i)" if "i < length (sh # shs)" for i
    using that 1 ih by (cases i) auto
  with ih 1 show ?case by simp
qed

lemma mgr_update_all:
  assumes "mgr_inv hash mgr" and "length shs' = length (mgr_shards mgr)"
    and "\<And>i. i < length (mgr_shards mgr) \<Longrightarrow> shard_inv (shs' ! i)"
    and "\<And>i k. i < length (mgr_shards mgr) \<Longrightarrow> contents (shs' ! i) k \<noteq> None \<Longrightarrow>
           contents (mgr_shards mgr ! i) k \<noteq> None"
    and "mgr' = mgr\<lparr>mgr_shards := shs'\<rparr>"
  shows "mgr_inv hash mgr'" and "db hash mgr' k = contents (shs' ! getShardId hash mgr k) k"
  using shard_kv.replace_all [OF assms(1) [unfolded mgr_inv_whole] assms(2-4)] assms(5) by (simp_all add: mgr_whole)

lemma home_matches:
  assumes "mgr_inv hash mgr"
  shows "k \<in> ie_key ` set (matching_entries p (mgr_shards mgr ! getShardId hash mgr k)) \<longleftrightarrow>
      p k \<and> db hash mgr k \<noteq> None"
  using matching_points(3) [OF shard_invD(1) [OF mgr_inv_shard [OF assms getShardId_less [OF assms]]], of p k]
  by (auto simp: db_def)

lemma length_match_keys:
  "length (match_keys p mgr) = sum_list (map (\<lambda>sh. length (matching_entries p sh)) (mgr_shards mgr))"
  by (simp add: match_keys_def length_concat comp_def)

lemma int_sum_list: "int (sum_list xs) = sum_list (map int xs)"
  by (induction xs) auto

lemma sum_success_lengths:
  assumes "length rs = length xs" and "\<And>i. i < length xs \<Longrightarrow> code (rs ! i) = Success \<and> affectedRows (rs ! i) = int (f (xs ! i))"
  shows "sum_success rs = int (sum_list (map f xs))"
proof -
  have "filter (\<lambda>r. code r = Success) rs = rs"
    using assms by (simp add: filter_id_conv all_set_conv_all_nth)
  moreover have "map affectedRows rs = map (int \<circ> f) xs"
    using assms by (intro nth_equalityI) auto
  ultimately show ?thesis by (simp add: sum_success_def int_sum_list comp_def)
qed

lemma mgr_delBy_unlimited:
  assumes "mgr_inv hash mgr" and "limit valid = UINT_MAX" and "mgr_delBy hash nth_el valid mgr = (r, mgr')"
  shows "mgr_inv hash mgr'"
    and "db hash mgr' = db hash mgr |` (- {k. func valid k \<and> db hash mgr k \<noteq> None})"
    and "r = res Success (delBy_message (int (length (match_keys (func valid) mgr))))
               (int (length (match_keys (func valid) mgr)))"
proof -
  let ?shs = "mgr_shards mgr" and ?n = "length (match_keys (func valid) mgr)"
  obtain rs g shs' where e: "each_shard (sh_delBy valid) (Some 0) ?shs = (rs, g, shs')"
    and m: "mgr' = mgr\<lparr>mgr_shards := shs'\<rparr>"
    and r: "r = res Success (delBy_message (cap_total valid (sum_success rs))) (cap_total valid (sum_success rs))"
    using assms(2,3) by (auto simp: mgr_delBy_def Let_def split: prod.splits)
  note n = each_shard_nth [OF e]
  have s: "shard_inv (shs' ! i)" "code (rs ! i) = Success \<and> affectedRows (rs ! i) = int (length (matching_entries (func valid) (?shs ! i)))"
    "contents (shs' ! i) = contents (?shs ! i) |` (- ie_key ` set (matching_entries (func valid) (?shs ! i)))"
    if i: "i < length ?shs" for i
  proof -
    obtain a b where f: "sh_delBy valid a (?shs ! i) = (rs ! i, b, shs' ! i)" using n i by blast
    note sp = sh_delBy_spec [OF mgr_inv_shard [OF assms(1) i] f]
    show "shard_inv (shs' ! i)" "code (rs ! i) = Success \<and> affectedRows (rs ! i) = int (length (matching_entries (func valid) (?shs ! i)))"
      "contents (shs' ! i) = contents (?shs ! i) |` (- ie_key ` set (matching_entries (func valid) (?shs ! i)))"
      using sp assms(2) by (auto simp: slots_def)
  qed
  have len: "length shs' = length ?shs" using n by simp
  have sub: "contents (?shs ! i) k \<noteq> None" if "i < length ?shs" "contents (shs' ! i) k \<noteq> None" for i k
    using that s(3) by (auto simp: restrict_map_def split: if_splits)
  note u = mgr_update_all [OF assms(1) len s(1) sub m]
  show "mgr_inv hash mgr'" using u(1) by blast
  show "db hash mgr' = db hash mgr |` (- {k. func valid k \<and> db hash mgr k \<noteq> None})"
  proof
    fix k
    have "db hash mgr' k = contents (shs' ! getShardId hash mgr k) k" using u(2) by blast
    also have "\<dots> = (if func valid k \<and> db hash mgr k \<noteq> None then None else db hash mgr k)"
      using s(3) [OF getShardId_less [OF assms(1)]] home_matches [OF assms(1), of k "func valid"]
      by (auto simp: restrict_map_def db_def)
    finally show "db hash mgr' k = (db hash mgr |` (- {k. func valid k \<and> db hash mgr k \<noteq> None})) k"
      by (simp add: restrict_map_def)
  qed
  have "sum_success rs = int ?n"
    using sum_success_lengths [OF _ s(2)] n by (simp add: length_match_keys)
  then show "r = res Success (delBy_message (int ?n)) (int ?n)" using r assms(2) by (simp add: cap_total_def)
qed

lemma mgr_delBy_limited:
  assumes "mgr_inv hash mgr" and "selects nth_el" and "limit valid \<noteq> UINT_MAX"
    and "mgr_delBy hash nth_el valid mgr = (r, mgr')"
  defines "ks \<equiv> take (unat (limit valid)) (sorted_list_of_set {k. func valid k \<and> db hash mgr k \<noteq> None})"
  shows "mgr_inv hash mgr'" and "db hash mgr' = db hash mgr |` (- set ks)"
    and "r = res Success (delBy_message (int (length ks))) (int (length ks))"
proof -
  have ks: "firstMatchingKeys nth_el valid mgr = ks"
    unfolding ks_def by (rule firstMatchingKeys_spec [OF assms(1,2)])
  obtain n where f: "for_keys (mgr_del hash) ks 0 mgr = (n, mgr')" and r: "r = res Success (delBy_message n) n"
    using assms(3,4) ks by (auto simp: mgr_delBy_def split: prod.splits)
  have "distinct ks" by (simp add: ks_def)
  moreover have "\<forall>k \<in> set ks. db hash mgr k \<noteq> None"
    using finite_matches [OF assms(1), of "func valid"] by (auto simp: ks_def dest!: in_set_takeD)
  ultimately have d: "mgr_inv hash mgr' \<and> n = 0 + int (length ks) \<and> db hash mgr' = db hash mgr |` (- set ks)"
    by (intro for_keys_del [OF f assms(1)])
  then show "mgr_inv hash mgr'" "db hash mgr' = db hash mgr |` (- set ks)"
    "r = res Success (delBy_message (int (length ks))) (int (length ks))" using r by auto
qed

lemma subseq_set: "subseq xs ys \<Longrightarrow> set xs \<subseteq> set ys"
  by (induction rule: list_emb.induct) auto

lemma subseq_distinct: "subseq xs ys \<Longrightarrow> distinct ys \<Longrightarrow> distinct xs"
  by (induction rule: list_emb.induct) (auto dest: subseq_set)

text \<open>Keys picked shard by shard from the matches.\<close>

lemma picked_keys:
  assumes "mgr_inv hash mgr" and "\<And>i. i < length (mgr_shards mgr) \<Longrightarrow>
      subseq (Y i) (matching_entries p (mgr_shards mgr ! i))"
  defines "ks \<equiv> concat (map (\<lambda>i. map ie_key (Y i)) [0..<length (mgr_shards mgr)])"
  shows "distinct ks" and "set ks \<subseteq> {k. p k \<and> db hash mgr k \<noteq> None}"
    and "k \<in> set ks \<longleftrightarrow> k \<in> ie_key ` set (Y (getShardId hash mgr k))"
proof -
  let ?n = "length (mgr_shards mgr)"
  have m: "set (map ie_key (matching_entries p (mgr_shards mgr ! i))) = {k. p k \<and> contents (mgr_shards mgr ! i) k \<noteq> None}"
    "distinct (map ie_key (matching_entries p (mgr_shards mgr ! i)))" if "i < ?n" for i
    using matching_points [OF shard_invD(1) [OF mgr_inv_shard [OF assms(1) that]]] by auto
  have Y: "distinct (map ie_key (Y i))" "ie_key ` set (Y i) \<subseteq> {k. p k \<and> contents (mgr_shards mgr ! i) k \<noteq> None}"
    if "i < ?n" for i
  proof -
    have s: "subseq (map ie_key (Y i)) (map ie_key (matching_entries p (mgr_shards mgr ! i)))"
      using assms(2) [OF that] by (rule subseq_map)
    show "distinct (map ie_key (Y i))" using subseq_distinct [OF s m(2) [OF that]] .
    show "ie_key ` set (Y i) \<subseteq> {k. p k \<and> contents (mgr_shards mgr ! i) k \<noteq> None}"
      using subseq_set [OF s] m(1) [OF that] by simp
  qed
  have at: "getShardId hash mgr q = i \<and> p q \<and> db hash mgr q \<noteq> None"
    if "q \<in> ie_key ` set (Y i)" "i < ?n" for q i
  proof -
    have q: "p q" "contents (mgr_shards mgr ! i) q \<noteq> None" using Y(2) [OF that(2)] that(1) by blast+
    with shard_db [OF assms(1) that(2) q(2)] show ?thesis by simp
  qed
  show "distinct ks" unfolding ks_def
  proof (rule distinct_concat_disjoint)
    show "distinct (map (\<lambda>i. map ie_key (Y i)) [0..<?n] ! i)"
      if "i < length (map (\<lambda>i. map ie_key (Y i)) [0..<?n])" for i using that Y(1) by simp
    show "i = j" if "i < length (map (\<lambda>i. map ie_key (Y i)) [0..<?n])" "j < length (map (\<lambda>i. map ie_key (Y i)) [0..<?n])"
      "x \<in> set (map (\<lambda>i. map ie_key (Y i)) [0..<?n] ! i)" "x \<in> set (map (\<lambda>i. map ie_key (Y i)) [0..<?n] ! j)" for i j x
      using that at [of x i] at [of x j] by simp
  qed
  have ks: "q \<in> set ks \<longleftrightarrow> (\<exists>i < ?n. q \<in> ie_key ` set (Y i))" for q
    by (auto simp: ks_def)
  show "set ks \<subseteq> {k. p k \<and> db hash mgr k \<noteq> None}" using ks at by blast
  show "k \<in> set ks \<longleftrightarrow> k \<in> ie_key ` set (Y (getShardId hash mgr k))"
    using ks at getShardId_less [OF assms(1)] by blast
qed

lemma length_picked: "length (concat (map (\<lambda>i. map f (Y i)) [0..<n])) = (\<Sum>i<n. length (Y i))"
  by (simp add: length_concat comp_def interv_sum_list_conv_sum_set_nat atLeast0LessThan)

lemma sum_success_sum:
  assumes "length rs = n" and "\<And>i. i < n \<Longrightarrow> code (rs ! i) = Success \<and> affectedRows (rs ! i) = int (h i)"
  shows "sum_success rs = int (\<Sum>i<n. h i)"
  using sum_success_lengths [of rs "[0..<n]" h] assms
  by (simp add: interv_sum_list_conv_sum_set_nat atLeast0LessThan)

text \<open>What one shard does of an unlimited \<open>sb\<close>: the entries \<open>ys\<close> it rewrote, all the matching ones when there
  is room.\<close>
definition setBy_pick :: "ValidationRule \<Rightarrow> string \<Rightarrow> Shard \<Rightarrow> ResultType \<Rightarrow> Shard \<Rightarrow> IndexEntry list \<Rightarrow> bool" where
  "setBy_pick valid v sh r sh' ys \<longleftrightarrow>
     shard_inv sh' \<and> code r = Success \<and> affectedRows r = int (length ys)
     \<and> subseq ys (matching_entries (func valid) sh)
     \<and> contents sh' = assign v (ie_key ` set ys) (contents sh)
     \<and> (room_for v sh \<longrightarrow> ys = matching_entries (func valid) sh)"

lemma sh_setBy_pick:
  assumes "shard_inv sh" and "limit valid = UINT_MAX" and "sh_setBy valid v g sh = (r, g', sh')"
    and "ids_for (length (matching_entries (func valid) sh)) (storageManager sh)"
    and "length v < 2 ^ 32" and "v \<noteq> ''''"
  shows "\<exists>ys. setBy_pick valid v sh r sh' ys"
  using sh_setBy_spec [OF assms(1,3-6)] assms(2) by (auto simp: setBy_pick_def setBy_result_def slots_def)

lemma setBy_pick_dom:
  assumes "shard_inv sh" and "setBy_pick valid v sh r sh' ys" and "contents sh' q \<noteq> None"
  shows "contents sh q \<noteq> None"
proof -
  have "ie_key ` set ys \<subseteq> ie_key ` set (matching_entries (func valid) sh)"
    using assms(2) subseq_set unfolding setBy_pick_def by blast
  also have "\<dots> \<subseteq> {k. contents sh k \<noteq> None}"
    using matching_points(3) [OF shard_invD(1) [OF assms(1)], of "func valid"] by auto
  finally show ?thesis using assms(2,3) by (auto simp: setBy_pick_def assign_def split: if_splits)
qed

lemma mgr_setBy_unlimited:
  assumes "mgr_inv hash mgr" and "limit valid = UINT_MAX" and "mgr_setBy hash nth_el valid v mgr = (r, mgr')"
    and "length v < 2 ^ 32" and "v \<noteq> ''''"
    and "\<And>i. i < length (mgr_shards mgr) \<Longrightarrow>
       ids_for (length (matching_entries (func valid) (mgr_shards mgr ! i))) (storageManager (mgr_shards mgr ! i))"
  shows "mgr_inv hash mgr' \<and> (\<exists>ks. distinct ks \<and> set ks \<subseteq> {k. func valid k \<and> db hash mgr k \<noteq> None}
     \<and> db hash mgr' = assign v (set ks) (db hash mgr)
     \<and> r = res Success (setBy_message (int (length ks))) (int (length ks))
     \<and> (list_all (room_for v) (mgr_shards mgr) \<longrightarrow> set ks = {k. func valid k \<and> db hash mgr k \<noteq> None}))"
proof -
  let ?shs = "mgr_shards mgr" and ?n = "length (mgr_shards mgr)" and ?p = "func valid"
  let ?ms = "\<lambda>i. matching_entries ?p (?shs ! i)"
  obtain rs g shs' where e: "each_shard (sh_setBy valid v) (Some 0) ?shs = (rs, g, shs')"
    and m: "mgr' = mgr\<lparr>mgr_shards := shs'\<rparr>"
    and r: "r = res Success (setBy_message (cap_total valid (sum_success rs))) (cap_total valid (sum_success rs))"
    using assms(2,3) by (auto simp: mgr_setBy_def Let_def split: prod.splits)
  note n = each_shard_nth [OF e]
  have "\<exists>ys. setBy_pick valid v (?shs ! i) (rs ! i) (shs' ! i) ys" if i: "i < ?n" for i
    using n i sh_setBy_pick [OF mgr_inv_shard [OF assms(1) i] assms(2) _ assms(6) [OF i] assms(4,5)] by blast
  then obtain Y where P: "i < ?n \<Longrightarrow> setBy_pick valid v (?shs ! i) (rs ! i) (shs' ! i) (Y i)" for i by metis
  note Y = P [unfolded setBy_pick_def]
  define ks where "ks = concat (map (\<lambda>i. map ie_key (Y i)) [0..<?n])"
  have sub: "i < ?n \<Longrightarrow> subseq (Y i) (?ms i)" for i using Y by blast
  note k = picked_keys [OF assms(1) sub, folded ks_def]
  have here: "q \<in> set ks \<longleftrightarrow> q \<in> ie_key ` set (Y (getShardId hash mgr q))" for q
    using k(3) by blast
  have dom: "contents (?shs ! i) q \<noteq> None" if "i < ?n" "contents (shs' ! i) q \<noteq> None" for i q
    using setBy_pick_dom [OF mgr_inv_shard [OF assms(1) that(1)] P [OF that(1)] that(2)] .
  have len: "length shs' = ?n" and inv: "\<And>i. i < ?n \<Longrightarrow> shard_inv (shs' ! i)" using n Y by auto
  note u = mgr_update_all [OF assms(1) len inv dom m]
  have "db hash mgr' q = assign v (set ks) (db hash mgr) q" for q
    using u(2) Y [OF getShardId_less [OF assms(1)], of q] here [of q] by (simp add: assign_def db_def)
  moreover have "sum_success rs = int (length ks)"
    using sum_success_sum [of rs ?n "\<lambda>i. length (Y i)"] Y n by (simp add: ks_def length_picked)
  moreover have "set ks = {k. ?p k \<and> db hash mgr k \<noteq> None}" if "list_all (room_for v) ?shs"
  proof -
    have "Y (getShardId hash mgr q) = ?ms (getShardId hash mgr q)" for q
      using that Y [OF getShardId_less [OF assms(1)], of q] getShardId_less [OF assms(1), of q]
      by (simp add: list_all_iff)
    then show ?thesis using here home_matches [OF assms(1), of _ ?p] by auto
  qed
  ultimately show ?thesis using u(1) k(1,2) r assms(2)
    by (intro conjI exI [of _ ks]) (auto simp: cap_total_def)
qed

lemma mgr_setBy_limited:
  assumes "mgr_inv hash mgr" and "selects nth_el" and "limit valid \<noteq> UINT_MAX"
    and "mgr_setBy hash nth_el valid v mgr = (r, mgr')" and "length v < 2 ^ 32" and "v \<noteq> ''''"
    and "\<And>i. i < length (mgr_shards mgr) \<Longrightarrow>
       ids_for (min (unat (limit valid)) (card {k. func valid k \<and> db hash mgr k \<noteq> None})) (storageManager (mgr_shards mgr ! i))"
  defines "ks \<equiv> take (unat (limit valid)) (sorted_list_of_set {k. func valid k \<and> db hash mgr k \<noteq> None})"
  shows "mgr_inv hash mgr' \<and> (\<exists>ys. subseq ys ks \<and> db hash mgr' = assign v (set ys) (db hash mgr)
     \<and> r = res Success (setBy_message (int (length ys))) (int (length ys)))"
proof -
  have ks: "firstMatchingKeys nth_el valid mgr = ks"
    unfolding ks_def by (rule firstMatchingKeys_spec [OF assms(1,2)])
  obtain n where f: "for_keys (\<lambda>k. mgr_set hash k v) ks 0 mgr = (n, mgr')" and r: "r = res Success (setBy_message n) n"
    using assms(3,4) ks by (auto simp: mgr_setBy_def split: prod.splits)
  have "length ks = min (unat (limit valid)) (card {k. func valid k \<and> db hash mgr k \<noteq> None})"
    by (simp add: ks_def min.commute)
  then have ids: "i < length (mgr_shards mgr) \<Longrightarrow> ids_for (length ks) (storageManager (mgr_shards mgr ! i))" for i
    using assms(7) [of i] by simp
  have "set ks \<subseteq> {k. db hash mgr k \<noteq> None}"
    using finite_matches [OF assms(1), of "func valid"] by (auto simp: ks_def dest!: in_set_takeD)
  then have "list_all (\<lambda>k. length k \<le> MAX_KEY_SIZE) ks"
    using match_key_length [OF assms(1)] by (auto simp: list_all_iff)
  from for_keys_set [OF f assms(1) _ ids assms(5,6) this] r show ?thesis by (auto simp: ks_def)
qed

section \<open>Bulk reads\<close>

text \<open>The counter after \<open>m\<close> matches were offered to it.\<close>

definition counted :: "ValidationRule \<Rightarrow> u32 option \<Rightarrow> nat \<Rightarrow> u32 option \<Rightarrow> bool" where
  "counted valid g m g' \<longleftrightarrow>
     (\<exists>n n'. g = Some n \<and> g' = Some n' \<and> (limit valid = UINT_MAX \<or> unat n' = unat n + slots valid g m))"

lemma slots_add: "counted valid g a g' \<Longrightarrow> slots valid g (a + b) = slots valid g a + slots valid g' b"
  by (auto simp: counted_def slots_def min_def)

lemma counted_0: "g = Some n \<Longrightarrow> counted valid g 0 g"
  by (simp add: counted_def)

lemma counted_stop: "take_slot valid (Some n) = (False, g') \<Longrightarrow> counted valid (Some n) m g'"
  using slots_stop [of valid "Some n" g' m] by (simp add: counted_def)

lemma take_slot_Some: "take_slot valid (Some n) = (b, g') \<Longrightarrow> \<exists>n'. g' = Some n'"
  by (auto simp: take_slot_def split: if_splits)

lemma counted_go:
  assumes "take_slot valid (Some n) = (True, g1)" and "counted valid g1 m g'"
  shows "counted valid (Some n) (Suc m) g'"
proof (cases "limit valid = UINT_MAX")
  case True
  with assms(2) show ?thesis by (auto simp: counted_def)
next
  case False
  with assms(1) have g1: "g1 = Some (n + 1)" "n < limit valid"
    by (auto simp: take_slot_def split: if_splits)
  have "unat (n + 1) = unat n + 1"
    using g1(2) unat_u32_less [of "limit valid"] by (intro unat_Suc_id) (simp add: word_less_nat_alt)
  with assms(2) False g1 slots_go [OF assms(1)] show ?thesis by (auto simp: counted_def)
qed

lemma getBy_loop_counted:
  "getBy_loop valid es (Some n) acc sh = (arr, g', sh') \<Longrightarrow> list_all live_entry es \<Longrightarrow>
     counted valid (Some n) (length es) g'"
proof (induction es arbitrary: n acc sh)
  case Nil
  then show ?case by (auto intro: counted_0)
next
  case (Cons e es)
  obtain ok g1 where t: "take_slot valid (Some n) = (ok, g1)" by (cases "take_slot valid (Some n)")
  obtain v sh1 where r: "sh_read e sh = (v, sh1)" by (cases "sh_read e sh")
  obtain n1 where n1: "g1 = Some n1" using take_slot_Some [OF t] by blast
  show ?case
  proof (cases ok)
    case False
    with Cons.prems t counted_stop [of valid n g1] show ?thesis by auto
  next
    case True
    with Cons.prems t r n1 obtain acc' where "getBy_loop valid es (Some n1) acc' sh1 = (arr, g', sh')"
      by (auto split: if_splits)
    from Cons.IH [OF this] Cons.prems(2) have "counted valid (Some n1) (length es) g'" by simp
    with counted_go [of valid n g1] t True n1 show ?thesis by simp
  qed
qed

lemma sh_getBy_counted:
  assumes "shard_inv sh" and "sh_getBy dump valid (Some n) sh = (r, g', sh')"
  shows "counted valid (Some n) (length (matching_entries (func valid) sh)) g'"
proof (cases "limit_reached valid (Some n)")
  case True
  with assms(2) have "g' = Some n" by (simp add: sh_getBy_def matches_eq)
  with slots_reached [OF True] show ?thesis by (simp add: counted_def)
next
  case False
  then obtain arr sh1 where "getBy_loop valid (matching_entries (func valid) sh) (Some n) [] sh = (arr, g', sh1)"
    using assms(2) by (auto simp: sh_getBy_def matches_eq split: prod.splits)
  moreover have "list_all live_entry (matching_entries (func valid) sh)"
    using matching_live [OF shard_invD(1) [OF assms(1)]] by (simp add: list_all_iff)
  ultimately show ?thesis by (rule getBy_loop_counted)
qed

definition getBy_pick :: "(json \<Rightarrow> string) \<Rightarrow> ValidationRule \<Rightarrow> Shard \<Rightarrow> ResultType \<Rightarrow> Shard \<Rightarrow> IndexEntry list \<Rightarrow> bool" where
  "getBy_pick dump valid sh r sh' ys \<longleftrightarrow>
     r = arr_result dump (map (found sh) ys) \<and> subseq ys (matching_entries (func valid) sh)
     \<and> shard_inv sh' \<and> contents sh' = contents sh"

lemma sh_getBy_pick:
  assumes "shard_inv sh" and "sh_getBy dump valid g sh = (r, g1, sh1)"
  defines "m \<equiv> length (matching_entries (func valid) sh)"
  shows "\<exists>ys. getBy_pick dump valid sh r sh1 ys \<and> length ys \<le> slots valid g m
    \<and> (all_ok (sh_ios sh) \<longrightarrow> length ys = slots valid g m)"
proof -
  let ?t = "take (slots valid g m) (matching_entries (func valid) sh)"
  obtain arr where arr: "r = arr_result dump arr" "getBy_result valid (matching_entries (func valid) sh) g sh [] arr sh1"
    using sh_getBy_spec [OF assms(1,2)] unfolding arr_result_def by blast
  then obtain ys where "arr = map (found sh) ys" "shard_inv sh1" "contents sh1 = contents sh" "subseq ys ?t"
    "all_ok (sh_ios sh) \<longrightarrow> ys = ?t"
    unfolding getBy_result_def m_def by auto
  with arr(1) have a: "r = arr_result dump (map (found sh) ys)" "shard_inv sh1" "contents sh1 = contents sh"
    "subseq ys ?t" "all_ok (sh_ios sh) \<longrightarrow> ys = ?t" by auto
  have "subseq ys (matching_entries (func valid) sh)"
    using a(4) by (meson subseq_order.trans prefix_imp_subseq take_is_prefix)
  moreover have "length ys \<le> slots valid g m"
    using list_emb_length [OF a(4)] by simp
  ultimately show ?thesis using a slots_le [of valid g m]
    by (intro exI [of _ ys]) (auto simp: getBy_pick_def m_def)
qed

lemma each_shard_getBy:
  "each_shard (sh_getBy dump valid) (Some n) shs = (rs, g', shs') \<Longrightarrow> list_all shard_inv shs \<Longrightarrow>
     \<exists>yss. length yss = length shs \<and> length rs = length shs \<and> length shs' = length shs
       \<and> (\<forall>i < length shs. getBy_pick dump valid (shs ! i) (rs ! i) (shs' ! i) (yss ! i))
       \<and> sum_list (map length yss)
           \<le> slots valid (Some n) (sum_list (map (\<lambda>sh. length (matching_entries (func valid) sh)) shs))
       \<and> (list_all (\<lambda>sh. all_ok (sh_ios sh)) shs \<longrightarrow> sum_list (map length yss)
           = slots valid (Some n) (sum_list (map (\<lambda>sh. length (matching_entries (func valid) sh)) shs)))"
proof (induction shs arbitrary: n rs shs')
  case Nil
  then show ?case by simp
next
  case (Cons sh shs)
  let ?m = "length (matching_entries (func valid) sh)"
    and ?k = "sum_list (map (\<lambda>sh. length (matching_entries (func valid) sh)) shs)"
  obtain r g1 sh1 rs1 shs1 where 1: "sh_getBy dump valid (Some n) sh = (r, g1, sh1)"
    "each_shard (sh_getBy dump valid) g1 shs = (rs1, g', shs1)" "rs = r # rs1" "shs' = sh1 # shs1"
    using Cons.prems(1) by (auto split: prod.splits)
  have i: "shard_inv sh" using Cons.prems(2) by simp
  have c: "counted valid (Some n) ?m g1" by (rule sh_getBy_counted [OF i 1(1)])
  note add = slots_add [OF c, of ?k]
  obtain ys where ys: "getBy_pick dump valid sh r sh1 ys" "length ys \<le> slots valid (Some n) ?m"
    "all_ok (sh_ios sh) \<longrightarrow> length ys = slots valid (Some n) ?m"
    using sh_getBy_pick [OF i 1(1)] by blast
  obtain n1 where n1: "g1 = Some n1" using c by (auto simp: counted_def)
  from Cons.IH [OF 1(2) [unfolded n1]] Cons.prems(2) obtain yss where y: "length yss = length shs"
    "length rs1 = length shs" "length shs1 = length shs"
    "\<forall>i < length shs. getBy_pick dump valid (shs ! i) (rs1 ! i) (shs1 ! i) (yss ! i)"
    "sum_list (map length yss) \<le> slots valid g1 ?k"
    "list_all (\<lambda>sh. all_ok (sh_ios sh)) shs \<longrightarrow> sum_list (map length yss) = slots valid g1 ?k"
    unfolding n1 by auto
  show ?case
  proof (intro exI [of _ "ys # yss"] conjI allI impI)
    show "getBy_pick dump valid ((sh # shs) ! i) (rs ! i) (shs' ! i) ((ys # yss) ! i)"
      if "i < length (sh # shs)" for i using that ys(1) y(4) 1(3,4) by (cases i) auto
  qed (use ys y add 1(3,4) in auto)
qed

definition pair_json :: "(string \<Rightarrow> string option) \<Rightarrow> string \<Rightarrow> json" where
  "pair_json m k = JObj [(k, JStr (the (m k)))]"

lemma found_pair:
  assumes "mgr_inv hash mgr" and "i < length (mgr_shards mgr)" and "x \<in> set (matching_entries p (mgr_shards mgr ! i))"
  shows "found (mgr_shards mgr ! i) x = pair_json (db hash mgr) (ie_key x)"
proof -
  have "contents (mgr_shards mgr ! i) (ie_key x) \<noteq> None"
    using assms(3) matching_points(3) [OF shard_invD(1) [OF mgr_inv_shard [OF assms(1,2)]], of p] by auto
  from shard_db(1) [OF assms(1,2) this] show ?thesis by (simp add: found_def pair_json_def)
qed

lemma mgr_getBy_spec:
  assumes "mgr_inv hash mgr" and "dumps_arrays dump" and "mgr_getBy dump valid mgr = (r, mgr')"
  defines "M \<equiv> {k. func valid k \<and> db hash mgr k \<noteq> None}"
  shows "mgr_inv hash mgr' \<and> db hash mgr' = db hash mgr \<and>
     (\<exists>ks. distinct ks \<and> set ks \<subseteq> M
        \<and> r = res Success (dump (JArr (map (pair_json (db hash mgr)) ks))) (int (length ks))
        \<and> (limit valid \<noteq> UINT_MAX \<longrightarrow> length ks \<le> unat (limit valid))
        \<and> (list_all (\<lambda>sh. all_ok (sh_ios sh)) (mgr_shards mgr) \<longrightarrow>
             length ks = (if limit valid = UINT_MAX then card M else min (card M) (unat (limit valid)))))"
proof -
  let ?shs = "mgr_shards mgr" and ?n = "length (mgr_shards mgr)" and ?p = "func valid"
  obtain rs g shs' where e: "each_shard (sh_getBy dump valid) (Some 0) ?shs = (rs, g, shs')"
    and m: "mgr' = mgr\<lparr>mgr_shards := shs'\<rparr>"
    and r: "r = (case merge_loop rs ''['' 0 of (merged, n) \<Rightarrow> res Success (merged @ '']'') n)"
    using assms(3) by (auto simp: mgr_getBy_def split: prod.splits)
  have "list_all shard_inv ?shs" using mgr_inv_shard [OF assms(1)] by (simp add: list_all_length)
  from each_shard_getBy [OF e this] obtain yss where y: "length yss = ?n" "length rs = ?n" "length shs' = ?n"
    "\<And>i. i < ?n \<Longrightarrow> getBy_pick dump valid (?shs ! i) (rs ! i) (shs' ! i) (yss ! i)"
    "sum_list (map length yss) \<le> slots valid (Some 0) (length (match_keys ?p mgr))"
    "list_all (\<lambda>sh. all_ok (sh_ios sh)) ?shs \<longrightarrow>
        sum_list (map length yss) = slots valid (Some 0) (length (match_keys ?p mgr))"
    unfolding length_match_keys by blast
  have sub: "i < ?n \<Longrightarrow> subseq (yss ! i) (matching_entries ?p (?shs ! i))" for i
    using y(4) by (simp add: getBy_pick_def)
  define ks where "ks = concat (map (\<lambda>i. map ie_key (yss ! i)) [0..<?n])"
  note k = picked_keys [OF assms(1) sub, folded ks_def]
  have u: "mgr_inv hash mgr'" "db hash mgr' q = contents (shs' ! getShardId hash mgr q) q" for q
    using mgr_update_all [OF assms(1) y(3) _ _ m] y(4) by (auto simp: getBy_pick_def)
  have same: "db hash mgr' = db hash mgr"
    using u(2) y(4) [OF getShardId_less [OF assms(1)]] by (auto simp: getBy_pick_def db_def fun_eq_iff)
  let ?arrs = "map (\<lambda>i. map (found (?shs ! i)) (yss ! i)) [0..<?n]"
  have rs: "rs = map (arr_result dump) ?arrs"
    using y(2,4) by (intro nth_equalityI) (auto simp: getBy_pick_def)
  have obj: "found (?shs ! i) x = pair_json (db hash mgr) (ie_key x)" if i: "i < ?n" "x \<in> set (yss ! i)" for i x
    using found_pair [OF assms(1) i(1)] subseq_set [OF sub [OF i(1)]] i(2) by blast
  have arrs: "?arrs = map (\<lambda>i. map (pair_json (db hash mgr)) (map ie_key (yss ! i))) [0..<?n]"
    using obj by (intro map_cong refl) (simp add: comp_def)
  have cat: "concat ?arrs = map (pair_json (db hash mgr)) ks"
    unfolding arrs ks_def by (simp add: map_concat comp_def)
  have "list_all all_objects ?arrs" by (simp add: all_objects_def list_all_iff found_def)
  from merge_arrays [OF assms(2) this] have
    "merge_loop rs ''['' 0 = (''['' @ join '','' (map dump (map (pair_json (db hash mgr)) ks)), int (length ks))"
    unfolding rs cat by simp
  then have r': "r = res Success (dump (JArr (map (pair_json (db hash mgr)) ks))) (int (length ks))"
    using r assms(2) by (simp add: dumps_arrays_def)
  have "map length yss = map (\<lambda>i. length (yss ! i)) [0..<?n]" using y(1) by (intro nth_equalityI) auto
  then have len: "length ks = sum_list (map length yss)" by (simp add: ks_def length_concat comp_def)
  have card: "length (match_keys ?p mgr) = card M"
    using match_keys_spec [OF assms(1), of ?p] distinct_card unfolding M_def by metis
  show ?thesis using u(1) same k(1,2) r' y(5,6) len card
    by (intro conjI exI [of _ ks]) (auto simp: slots_def M_def)
qed

section \<open>Flushing, logging and replay\<close>

lemma sh_clear_wal_frame [simp]:
  "contents (sh_clear_wal sh) = contents sh" "shard_inv (sh_clear_wal sh) = shard_inv sh"
  by (auto simp: sh_clear_wal_def contents_def shard_inv_def store_inv_def index_live_def coherent_def
      split: prod.splits)

lemma mgr_map_shards:
  assumes "mgr_inv hash mgr" and "\<And>sh. shard_inv sh \<Longrightarrow> shard_inv (f sh) \<and> contents (f sh) = contents sh"
    and "mgr' = mgr\<lparr>mgr_shards := map f (mgr_shards mgr), mgr_nextSeq := z\<rparr>"
  shows "mgr_inv hash mgr'" and "db hash mgr' = db hash mgr"
proof -
  let ?m = "mgr\<lparr>mgr_shards := map f (mgr_shards mgr)\<rparr>"
  have s: "i < length (mgr_shards mgr) \<Longrightarrow> shard_inv (map f (mgr_shards mgr) ! i)
      \<and> contents (map f (mgr_shards mgr) ! i) = contents (mgr_shards mgr ! i)" for i
    using assms(2) mgr_inv_shard [OF assms(1)] by simp
  have u: "mgr_inv hash ?m" "db hash ?m k = contents (map f (mgr_shards mgr) ! getShardId hash mgr k) k" for k
    using mgr_update_all [OF assms(1), of "map f (mgr_shards mgr)" ?m] s by auto
  have same: "mgr_inv hash mgr' = mgr_inv hash ?m" "db hash mgr' = db hash ?m"
    by (auto simp: assms(3) mgr_inv_def db_def getShardId_def fun_eq_iff)
  show "mgr_inv hash mgr'" using u(1) same by simp
  show "db hash mgr' = db hash mgr"
    using u(2) s [OF getShardId_less [OF assms(1)]] same by (auto simp: fun_eq_iff db_def)
qed

lemma flushData_frame:
  "shard_inv sh \<Longrightarrow> shard_inv (snd (flushData sh)) \<and> contents (snd (flushData sh)) = contents sh"
  using same_store_inv [OF flushData_same [OF shard_invD(1)]] by (cases "flushData sh") auto

lemma mgr_flush_spec:
  assumes "mgr_inv hash mgr"
  shows "mgr_inv hash (mgr_flush mgr)" and "db hash (mgr_flush mgr) = db hash mgr"
proof -
  let ?m = "mgr\<lparr>mgr_shards := map snd (map flushData (mgr_shards mgr))\<rparr>"
  have f: "mgr_inv hash ?m" "db hash ?m = db hash mgr"
    using mgr_map_shards [OF assms flushData_frame, of ?m "mgr_nextSeq mgr"] by (auto simp: comp_def)
  have c: "mgr_inv hash (clearAllWAL ?m)" "db hash (clearAllWAL ?m) = db hash ?m"
    using mgr_map_shards [OF f(1), of sh_clear_wal "clearAllWAL ?m" "mgr_nextSeq mgr"]
    by (auto simp: clearAllWAL_def)
  show "mgr_inv hash (mgr_flush mgr)" "db hash (mgr_flush mgr) = db hash mgr"
    using f c by (auto simp: mgr_flush_def Let_def)
qed

text \<open>A flush that fails in one shard leaves every log as it was.\<close>

lemma flushData_wal: "sh_wal (snd (flushData sh)) = sh_wal sh"
  by (auto simp: flushData_def sh_sm_flush_def sh_im_flush_def split: prod.splits if_splits)

lemma mgr_flush_keeps_logs:
  assumes "i < length (mgr_shards mgr)" and "\<not> fst (flushData (mgr_shards mgr ! i))"
  shows "map sh_wal (mgr_shards (mgr_flush mgr)) = map sh_wal (mgr_shards mgr)"
proof -
  have "\<not> list_all fst (map flushData (mgr_shards mgr))"
    using assms by (auto simp: list_all_length)
  then show ?thesis by (simp add: mgr_flush_def Let_def comp_def flushData_wal)
qed

lemma sh_getCmds_frame:
  "shard_inv sh \<Longrightarrow> shard_inv (snd (sh_getCmds sh)) \<and> contents (snd (sh_getCmds sh)) = contents sh"
  by (auto simp: sh_getCmds_def contents_def shard_inv_def store_inv_def index_live_def coherent_def
      split: prod.splits)

lemma sh_getCmds_logged:
  assumes "wal_logged (sh_wal sh) es" and "all_ok (sh_ios sh)"
  shows "fst (sh_getCmds sh) = es"
  using assms getCmds_logged [OF assms] by (auto simp: sh_getCmds_def split: prod.splits)

text \<open>Every logged command is collected once, in the order of the sequence numbers.\<close>

lemma collectLogs_logged:
  assumes "list_all2 (\<lambda>sh es. wal_logged (sh_wal sh) es) (mgr_shards mgr) logs"
    and "list_all (\<lambda>sh. all_ok (sh_ios sh)) (mgr_shards mgr)"
  shows "fst (collectLogs mgr) = sort_key we_seq (concat logs)"
proof -
  have "map (\<lambda>sh. fst (sh_getCmds sh)) (mgr_shards mgr) = logs"
    using assms sh_getCmds_logged by (intro nth_equalityI) (auto simp: list_all2_conv_all_nth list_all_length)
  then have "map fst (map sh_getCmds (mgr_shards mgr)) = logs" by (simp add: comp_def)
  then show ?thesis unfolding collectLogs_def Let_def fst_conv by (rule arg_cong)
qed

lemma collectLogs_spec:
  assumes "mgr_inv hash mgr"
  shows "mgr_inv hash (snd (collectLogs mgr))" and "db hash (snd (collectLogs mgr)) = db hash mgr"
  using mgr_map_shards [OF assms, of "\<lambda>sh. snd (sh_getCmds sh)" "snd (collectLogs mgr)"]
    sh_getCmds_frame
  by (auto simp: collectLogs_def Let_def comp_def)

section \<open>The shared match counter under interleaving\<close>

text \<open>
  The shards of one \<open>getBy\<close> run in parallel and share \<open>globalMatchCount\<close>. A worker that still
  scans has taken some matches; \<open>fetch_add\<close> either hands it one more or, when the limit was
  reached before, makes it undo the increment with \<open>fetch_sub\<close> and stop.
\<close>

datatype worker = Scanning nat | Undoing nat | Stopped nat

fun taken :: "worker \<Rightarrow> nat" where
  "taken (Scanning t) = t"
| "taken (Undoing t) = t"
| "taken (Stopped t) = t"

fun pending :: "worker \<Rightarrow> nat" where
  "pending (Undoing t) = 1"
| "pending (Scanning t) = 0"
| "pending (Stopped t) = 0"

inductive counter_step :: "u32 \<Rightarrow> u32 \<times> worker list \<Rightarrow> u32 \<times> worker list \<Rightarrow> bool" for lmt where
  take_match: "i < length ws \<Longrightarrow> ws ! i = Scanning t \<Longrightarrow> c < lmt \<Longrightarrow>
     counter_step lmt (c, ws) (c + 1, ws[i := Scanning (Suc t)])"
| over_limit: "i < length ws \<Longrightarrow> ws ! i = Scanning t \<Longrightarrow> c \<ge> lmt \<Longrightarrow>
     counter_step lmt (c, ws) (c + 1, ws[i := Undoing t])"
| undo: "i < length ws \<Longrightarrow> ws ! i = Undoing t \<Longrightarrow>
     counter_step lmt (c, ws) (c - 1, ws[i := Stopped t])"
| scan_done: "i < length ws \<Longrightarrow> ws ! i = Scanning t \<Longrightarrow>
     counter_step lmt (c, ws) (c, ws[i := Stopped t])"

inductive_cases counter_stepE: "counter_step lmt (c, ws) s'"

definition total_taken :: "worker list \<Rightarrow> nat" where
  "total_taken ws = sum_list (map taken ws)"

definition total_pending :: "worker list \<Rightarrow> nat" where
  "total_pending ws = sum_list (map pending ws)"

text \<open>The counter is what was taken plus the increments still to be undone.\<close>

definition counter_inv :: "u32 \<Rightarrow> nat \<Rightarrow> u32 \<times> worker list \<Rightarrow> bool" where
  "counter_inv lmt n s \<longleftrightarrow> (case s of (c, ws) \<Rightarrow>
     length ws = n \<and> unat c = total_taken ws + total_pending ws \<and> total_taken ws \<le> unat lmt
     \<and> (total_pending ws > 0 \<longrightarrow> total_taken ws = unat lmt))"

lemma sum_list_replace:
  fixes f :: "'a \<Rightarrow> nat"
  shows "i < length xs \<Longrightarrow> sum_list (map f (xs[i := y])) + f (xs ! i) = sum_list (map f xs) + f y"
proof (induction xs arbitrary: i)
  case Nil
  then show ?case by simp
next
  case (Cons x xs)
  show ?case
  proof (cases i)
    case 0
    then show ?thesis by simp
  next
    case (Suc j)
    with Cons.IH [of j] Cons.prems show ?thesis by simp
  qed
qed

lemma pending_le: "total_pending ws \<le> length ws"
  unfolding total_pending_def
proof (induction ws)
  case Nil
  show ?case by simp
next
  case (Cons w ws)
  then show ?case by (cases w) auto
qed

lemma counter_inv_step:
  assumes "counter_step lmt (c, ws) s'" and "counter_inv lmt n (c, ws)" and "unat lmt + n + 1 < 2 ^ 32"
  shows "counter_inv lmt n s'"
proof -
  have inv: "length ws = n" "unat c = total_taken ws + total_pending ws" "total_taken ws \<le> unat lmt"
    "total_pending ws > 0 \<longrightarrow> total_taken ws = unat lmt" using assms(2) by (auto simp: counter_inv_def)
  have "unat c + 1 < 2 ^ 32" using inv assms(3) pending_le [of ws] by linarith
  then have up: "unat (c + 1) = unat c + 1" by (rule unat_Suc_id)
  have upd: "total_taken (ws[i := w]) + taken (ws ! i) = total_taken ws + taken w"
    "total_pending (ws[i := w]) + pending (ws ! i) = total_pending ws + pending w" if "i < length ws" for i w
    using that sum_list_replace [of i ws] by (simp_all add: total_taken_def total_pending_def)
  from assms(1) show ?thesis
  proof (elim counter_stepE)
    fix i t assume 1: "s' = (c + 1, ws[i := Scanning (Suc t)])" "i < length ws" "ws ! i = Scanning t" "c < lmt"
    have "total_pending ws = 0" using inv 1(4) by (auto simp: word_less_nat_alt)
    with 1 upd [of i "Scanning (Suc t)"] inv up show ?thesis by (auto simp: counter_inv_def word_less_nat_alt)
  next
    fix i t assume 2: "s' = (c + 1, ws[i := Undoing t])" "i < length ws" "ws ! i = Scanning t" "lmt \<le> c"
    have "total_taken ws = unat lmt" using inv 2(4) by (cases "total_pending ws") (auto simp: word_le_nat_alt)
    with 2 upd [of i "Undoing t"] inv up show ?thesis by (auto simp: counter_inv_def)
  next
    fix i t assume 3: "s' = (c - 1, ws[i := Stopped t])" "i < length ws" "ws ! i = Undoing t"
    with upd [of i "Stopped t"] have p: "0 < total_pending ws" by simp
    then have "unat (c - 1) = unat c - 1" using inv by (subst unat_minus_one) (auto simp: word_unat_eq_iff)
    with 3 upd [of i "Stopped t"] inv p show ?thesis by (auto simp: counter_inv_def)
  next
    fix i t assume 4: "s' = (c, ws[i := Stopped t])" "i < length ws" "ws ! i = Scanning t"
    with upd [of i "Stopped t"] inv show ?thesis by (auto simp: counter_inv_def)
  qed
qed

lemma counter_reachable:
  "(counter_step lmt)\<^sup>*\<^sup>* (c, ws) s' \<Longrightarrow> counter_inv lmt n (c, ws) \<Longrightarrow> unat lmt + n + 1 < 2 ^ 32 \<Longrightarrow> counter_inv lmt n s'"
proof (induction rule: rtranclp_induct)
  case base
  then show ?case by simp
next
  case (step y z)
  then show ?case using counter_inv_step by (cases y) blast
qed

section \<open>Settings and room\<close>

lemma mgr_reloadSettings_spec:
  assumes "mgr_inv hash mgr"
  shows "db hash (mgr_reloadSettings st mgr) = db hash mgr"
    and "segsize_ok st \<Longrightarrow> mgr_inv hash (mgr_reloadSettings st mgr)"
proof -
  have c: "contents (sh_reloadSettings st sh) = contents sh" for sh
    by (simp add: sh_reloadSettings_def contents_alt)
  have i: "shard_inv (sh_reloadSettings st sh)" if "shard_inv sh" "segsize_ok st" for sh
    using that lru.coherent_rsz [of "sh_cache sh" "contents sh"] lru.invar_rsz [of "sh_cache sh"]
    by (auto simp: sh_reloadSettings_def shard_inv_def store_inv_def index_live_def contents_alt
        shard_settings_def Let_def segsize_ok_def)
  show "mgr_inv hash (mgr_reloadSettings st mgr)" if "segsize_ok st"
    using assms i [OF _ that] c by (simp add: mgr_inv_def mgr_reloadSettings_def)
  show "db hash (mgr_reloadSettings st mgr) = db hash mgr"
    using getShardId_less [OF assms] c by (auto simp: db_def getShardId_home mgr_reloadSettings_def)
qed

text \<open>
  Every shard can still number as many new segments as any command may need: one for each value it
  writes, and a command writes at most one value per stored key, or one new key.
\<close>

definition roomy :: "(string \<Rightarrow> u64) \<Rightarrow> ShardManager \<Rightarrow> bool" where
  "roomy hash mgr \<longleftrightarrow>
     list_all (\<lambda>sh. ids_for (Suc (card (dom (db hash mgr)))) (storageManager sh)) (mgr_shards mgr)"

lemma roomy_less:
  assumes "roomy hash mgr" and "i < length (mgr_shards mgr)" and "n \<le> Suc (card (dom (db hash mgr)))"
  shows "ids_for n (storageManager (mgr_shards mgr ! i))"
proof -
  have "ids_for (Suc (card (dom (db hash mgr)))) (storageManager (mgr_shards mgr ! i))"
    using assms(1,2) by (simp add: roomy_def list_all_length)
  with assms(3) show ?thesis by (simp add: ids_for_def)
qed

lemma finite_dom_db: "mgr_inv hash mgr \<Longrightarrow> finite (dom (db hash mgr))"
  using finite_matches [of hash mgr "\<lambda>_. True"] by (simp add: dom_def)

lemma card_matches: "mgr_inv hash mgr \<Longrightarrow> card {k. p k \<and> db hash mgr k \<noteq> None} \<le> card (dom (db hash mgr))"
  by (intro card_mono finite_dom_db) auto

lemma length_matching_entries:
  assumes "mgr_inv hash mgr" and "i < length (mgr_shards mgr)"
  shows "length (matching_entries p (mgr_shards mgr ! i)) \<le> card (dom (db hash mgr))"
proof -
  note m = matching_points [OF shard_invD(1) [OF mgr_inv_shard [OF assms]], of p]
  let ?ks = "map ie_key (matching_entries p (mgr_shards mgr ! i))"
  have "length ?ks = card (set ?ks)" using m(2) by (simp only: distinct_card)
  also have "\<dots> \<le> card (dom (db hash mgr))"
  proof (rule card_mono [OF finite_dom_db [OF assms(1)]])
    show "set ?ks \<subseteq> dom (db hash mgr)"
      using m(3) shard_db(1) [OF assms] by auto
  qed
  finally show ?thesis by simp
qed

end
