(* ===== verification/Recovery.thy ===== *)
theory Recovery
  imports Shard
begin

text \<open>
  Booting a shard (\<open>Shard::boot\<close> and the constructors it runs) on the files that a flush left on
  disk. \<open>disk_files\<close> is what survives a crash: the bytes of every file that have been synced. The
  main lemma says that a shard that was flushed comes back with the same contents.
\<close>

section \<open>Segment files by name\<close>

lemma seg_name_inj: "seg_name i = seg_name j \<Longrightarrow> i = j"
  using show_nat_inj [of "unat i" "unat j"] by (simp add: seg_name_def word_unat_eq_iff)

lemma path_extension_seg_name: "path_extension (seg_name i) = ''.seg''"
  using show_nat_nonempty [of "unat i"]
  by (cases "show_nat (unat i)") (simp_all add: path_extension_def seg_name_def)

lemma path_stem_seg_name: "path_stem (seg_name i) = show_nat (unat i)"
  unfolding path_stem_def path_extension_seg_name by (simp add: seg_name_def)

lemma parse_seg_name: "parse_unsigned (2 ^ 32) (path_stem (seg_name i)) = Some (unat i)"
  using unat_u32_less [of i] by (simp only: path_stem_seg_name parse_show_nat)

section \<open>Booting the storage\<close>

text \<open>The bytes found in the directory for segment \<open>i\<close>.\<close>

definition seg_file :: "(string \<times> bytes) list \<Rightarrow> u32 \<Rightarrow> bytes" where
  "seg_file dir i = (case map_of dir (seg_name i) of Some d \<Rightarrow> d | None \<Rightarrow> [])"

text \<open>Every open segment holds the bytes of its file; the other files are still in the directory.\<close>

definition loaded :: "(string \<times> bytes) list \<Rightarrow> StorageManager \<Rightarrow> bool" where
  "loaded dir sm \<longleftrightarrow>
     (\<forall>i. case map_of (segments sm) i of
            None \<Rightarrow> map_of (seg_dir sm) (seg_name i) = map_of dir (seg_name i)
          | Some g \<Rightarrow> fs_open (segment g) \<and> fs_good (segment g) \<and> fs_data (segment g) = seg_file dir i
                     \<and> fs_disk (segment g) = seg_file dir i \<and> currentOffset g = of_nat (length (seg_file dir i)))"

lemma make_segment_loaded:
  assumes "loaded dir sm" and "all_ok s" and "make_segment s i sm = (sm', s')"
  shows "loaded dir sm'" and "map_of (segments sm') i \<noteq> None"
    and "map_of (segments sm) j \<noteq> None \<Longrightarrow> map_of (segments sm') j \<noteq> None"
proof -
  have ld: "case map_of (segments sm) j of
            None \<Rightarrow> map_of (seg_dir sm) (seg_name j) = map_of dir (seg_name j)
          | Some g \<Rightarrow> fs_open (segment g) \<and> fs_good (segment g) \<and> fs_data (segment g) = seg_file dir j
              \<and> fs_disk (segment g) = seg_file dir j \<and> currentOffset g = of_nat (length (seg_file dir j))" for j
    using assms(1) by (simp add: loaded_def)
  let ?x = "case existing_file i sm of Some x \<Rightarrow> x | None \<Rightarrow> []"
  have x: "?x = seg_file dir i"
    using ld [of i] by (auto simp: existing_file_def seg_file_def split: option.splits)
  obtain s1 where n: "new_DataSegment s i (existing_file i sm) =
     (refreshFullStatus \<lparr>ds_segmentId = i, currentOffset = 0, segment = fs_fresh True ?x ?x,
          ds_canFlush = False, atWriteEnd = False\<rparr>, s1)"
    using new_DataSegment_ok [OF assms(2)] by blast
  then have sm': "segments sm' = AList.update i (refreshFullStatus \<lparr>ds_segmentId = i, currentOffset = 0,
        segment = fs_fresh True ?x ?x, ds_canFlush = False, atWriteEnd = False\<rparr>) (segments sm)"
    "seg_dir sm' = AList.delete (seg_name i) (seg_dir sm)"
    using assms(3) by (auto simp: make_segment_def)
  show "loaded dir sm'" unfolding loaded_def
  proof
    fix j
    show "case map_of (segments sm') j of
            None \<Rightarrow> map_of (seg_dir sm') (seg_name j) = map_of dir (seg_name j)
          | Some g \<Rightarrow> fs_open (segment g) \<and> fs_good (segment g) \<and> fs_data (segment g) = seg_file dir j
              \<and> fs_disk (segment g) = seg_file dir j \<and> currentOffset g = of_nat (length (seg_file dir j))"
    proof (cases "j = i")
      case True
      then show ?thesis by (simp add: sm' x refreshFullStatus_def fs_fresh_def)
    next
      case False
      then have "seg_name j \<noteq> seg_name i" using seg_name_inj by blast
      with False ld [of j] show ?thesis by (simp add: sm' split: option.splits)
    qed
  qed
  show "map_of (segments sm') i \<noteq> None"
    "map_of (segments sm) j \<noteq> None \<Longrightarrow> map_of (segments sm') j \<noteq> None" by (simp_all add: sm')
qed

lemma boot_loop_loaded:
  "boot_loop s fs sm nb = (sm', nb', s') \<Longrightarrow> loaded dir sm \<Longrightarrow> all_ok s \<Longrightarrow>
     loaded dir sm' \<and> all_ok s' \<and> (\<forall>i. map_of (segments sm) i \<noteq> None \<longrightarrow> map_of (segments sm') i \<noteq> None)
     \<and> (\<forall>i d. (seg_name i, d) \<in> set fs \<longrightarrow> map_of (segments sm') i \<noteq> None)"
proof (induction fs arbitrary: s sm nb)
  case Nil
  then show ?case by simp
next
  case (Cons f fs)
  obtain name d where f: "f = (name, d)" by (cases f)
  show ?case
  proof (cases "path_extension name = ''.seg'' \<and> parse_unsigned (2 ^ 32) (path_stem name) \<noteq> None")
    case False
    have nn: "name \<noteq> seg_name i" for i
    proof
      assume "name = seg_name i"
      with False path_extension_seg_name [of i] parse_seg_name [of i] show False by simp
    qed
    have "boot_loop s fs sm nb = (sm', nb', s')"
      using False Cons.prems(1) by (auto simp: f split: option.splits if_splits)
    from Cons.IH [OF this Cons.prems(2,3)] show ?thesis using nn by (auto simp: f)
  next
    case True
    then obtain n where n: "parse_unsigned (2 ^ 32) (path_stem name) = Some n" by blast
    obtain sm1 s1 where m: "make_segment s (of_nat n) sm = (sm1, s1)"
      by (cases "make_segment s (of_nat n) sm")
    note l = make_segment_loaded [OF Cons.prems(2,3) m]
    have "boot_loop s1 fs sm1 (Suc nb) = (sm', nb', s')" using Cons.prems(1) True n m by (simp add: f)
    note r = Cons.IH [OF this l(1) make_segment_calm [OF m Cons.prems(3)]]
    have "of_nat n = i" if "name = seg_name i" for i
      using n that parse_seg_name [of i] by simp
    with r l(2,3) show ?thesis by (auto simp: f)
  qed
qed

lemma new_StorageManager_loaded:
  assumes "new_StorageManager s dir = (sm, s')" and "all_ok s"
  shows "loaded dir sm" and "all_ok s'"
    and "(seg_name i, d) \<in> set dir \<Longrightarrow> map_of (segments sm) i \<noteq> None"
proof -
  let ?sm0 = "\<lparr>segments = [], latestSegmentId = 0, seg_dir = dir\<rparr> :: StorageManager"
  obtain sm1 nb s1 where b: "boot_loop s dir ?sm0 0 = (sm1, nb, s1)" by (cases "boot_loop s dir ?sm0 0")
  have "loaded dir ?sm0" by (simp add: loaded_def)
  note l = boot_loop_loaded [OF b this assms(2)]
  have r: "(sm, s') = (case make_segment s1 1 sm1 of (sm2, s2) \<Rightarrow> (sm2\<lparr>latestSegmentId := 1\<rparr>, s2))
      \<or> (sm, s') = (sm1\<lparr>latestSegmentId := max_id 0 (map fst (segments sm1))\<rparr>, s1)"
    using assms(1) b by (simp add: new_StorageManager_def sm_boot_def split: if_splits)
  obtain sm2 s2 where m: "make_segment s1 1 sm1 = (sm2, s2)" by (cases "make_segment s1 1 sm1")
  have l1: "loaded dir sm1" "all_ok s1" using l by auto
  note ms = make_segment_loaded [OF l1 m]
  have ld: "loaded dir (x\<lparr>latestSegmentId := n\<rparr>) = loaded dir x" for x n
    by (simp add: loaded_def cong: option.case_cong)
  show "loaded dir sm" using r m ms(1) l by (auto simp: ld)
  show "all_ok s'" using r m l make_segment_calm [OF m] by auto
  show "map_of (segments sm) i \<noteq> None" if "(seg_name i, d) \<in> set dir"
    using r m ms(3) [of i] l that by auto
qed

lemma loaded_value:
  assumes "loaded dir sm" and "length (seg_file dir i) < off_bound" and "map_of (segments sm) i \<noteq> None"
    and "loc_segmentId l = i"
  shows "value_at sm l = slice (unat (loc_offset l)) (unat (loc_size l)) (seg_file dir i)"
proof -
  obtain g where g: "map_of (segments sm) i = Some g" using assms(3) by blast
  have "committed g = seg_file dir i"
    using assms(1,2) g by (simp add: loaded_def committed_def unat_of_nat_u64 split: option.splits)
  with g assms(4) show ?thesis by (simp add: value_at_def)
qed

section \<open>Booting the index\<close>

lemma apply_record_inv:
  assumes "distinct (map fst t) \<and> list_all (\<lambda>(k, loc). length k \<le> MAX_KEY_SIZE) t" and "key_ok e"
  shows "distinct (map fst (apply_record e t)) \<and> list_all (\<lambda>(k, loc). length k \<le> MAX_KEY_SIZE) (apply_record e t)"
proof -
  have "set (apply_record e t) \<subseteq> insert (ie_key e, loc_of e) (set t)"
    using set_update_subset [of "ie_key e" "loc_of e" t] set_delete_subset [of "ie_key e" t]
    by (auto simp: apply_record_def)
  with assms show ?thesis
    by (fastforce simp: apply_record_def list_all_iff key_ok_def)
qed

lemma load_loop_inv:
  "load_loop bs t = (t', rest) \<Longrightarrow> distinct (map fst t) \<and> list_all (\<lambda>(k, loc). length k \<le> MAX_KEY_SIZE) t \<Longrightarrow>
     distinct (map fst t') \<and> list_all (\<lambda>(k, loc). length k \<le> MAX_KEY_SIZE) t'"
proof (induction bs t rule: load_loop.induct)
  case (1 bs t)
  show ?case
  proof (cases "deserialize bs")
    case None
    with 1 show ?thesis by (simp add: load_loop_None)
  next
    case (Some p)
    obtain e r where p: "p = (e, r)" by (cases p)
    have "key_ok e" using Some p by (auto simp: deserialize_Some key_ok_def entry_of_header_def)
    from apply_record_inv [OF 1(3) this] 1(1) [OF Some p [symmetric]] 1(2) Some p show ?thesis
      by (simp add: load_loop_Some)
  qed
qed

lemma new_IndexManager_ok:
  assumes "all_ok s" and "length (fst (load_loop d [])) \<le> unat UINT_MAX"
  shows "\<exists>im s'. new_IndexManager s d = Inr (im, s') \<and> memoryTree im = fst (load_loop d [])
           \<and> im_inv im \<and> im_logged im \<and> fs_disk (im_index im) = fs_data (im_index im) \<and> all_ok s'"
proof -
  obtain t rest where l: "load_loop d [] = (t, rest)" by (cases "load_loop d []")
  obtain r s1 where 1: "io_next s = (r, s1)" by (cases "io_next s")
  have r: "r = IoOk" "all_ok s1" using all_ok_io_next [OF assms(1) 1] by auto
  let ?im0 = "\<lparr>im_index = fs_fresh True d d, memoryTree = [], im_canFlush = False\<rparr> :: IndexManager"
  obtain im1 s2 where 2: "loadIndexIntoMemory s1 ?im0 = Inr (im1, s2)" "memoryTree im1 = t" "all_ok s2"
  proof -
    obtain r2 s2 where a: "io_next s1 = (r2, s2)" by (cases "io_next s1")
    obtain r3 s3 where b: "io_next s2 = (r3, s3)" by (cases "io_next s2")
    obtain r4 s4 where c: "io_next s3 = (r4, s4)" by (cases "io_next s3")
    have ok: "r2 = IoOk" "all_ok s2" "r3 = IoOk" "all_ok s3" "r4 = IoOk" "all_ok s4"
      using r(2) a b c all_ok_io_next by blast+
    let ?p = "length d - length rest"
    show thesis
    proof (cases "?p < length d")
      case True
      with a b c ok l show ?thesis
        by (intro that [of "?im0\<lparr>im_index := fs_fresh True (take ?p d) (take ?p d), memoryTree := t\<rparr>" s4])
           (simp_all add: loadIndexIntoMemory_def Let_def fs_fresh_def)
    next
      case False
      with a ok l show ?thesis
        by (intro that [of "?im0\<lparr>im_index := fs_clear (fs_fresh True d d), memoryTree := t\<rparr>" s2])
           (simp_all add: loadIndexIntoMemory_def Let_def fs_fresh_def)
    qed
  qed
  obtain es im s3 where 3: "im_compact s2 im1 = (es, im, s3)" by (cases "im_compact s2 im1")
  have inv: "im_inv im1" using load_loop_inv [OF l] 2(2) by (simp add: im_inv_def)
  have len: "length (memoryTree im1) \<le> unat UINT_MAX" using assms(2) l 2(2) by simp
  note c = im_compact_ok [OF inv len 2(3) 3] im_compact_tree [OF 3]
  have "new_IndexManager s d = Inr (im, s3)"
    using 1 r 2 3 by (simp add: new_IndexManager_def open_index_def)
  with c 2(2) l im_inv_cong [OF c(2) inv] show ?thesis by auto
qed

section \<open>Verifying the index\<close>

definition unbacked :: "StorageManager \<Rightarrow> IndexEntry \<Rightarrow> bool" where
  "unbacked sm e \<longleftrightarrow> live_entry e \<and> \<not> contains e sm"

lemma verify_loop_buries:
  "verify_loop es sh =
     (case ix.bury (sh_ios sh) (filter (unbacked (storageManager sh)) es) (indexManager sh) of (im, s) \<Rightarrow>
        sh\<lparr>indexManager := im, sh_ios := s\<rparr>)"
proof (induction es arbitrary: sh)
  case Nil
  show ?case by simp
next
  case (Cons e es)
  then show ?case
    by (cases "unbacked (storageManager sh) e")
       (auto simp: unbacked_def sh_update_def split: prod.splits)
qed

text \<open>The verification drops exactly the entries that no segment backs.\<close>

lemma verifyIndexEntries_spec:
  assumes "im_inv (indexManager sh)" and "index_fits sh"
  shows "lookup (indexManager (verifyIndexEntries sh)) k =
           (case lookup (indexManager sh) k of
              None \<Rightarrow> None
            | Some l \<Rightarrow> if unbacked (storageManager sh) (toEntry k l) then None else Some l)"
    and "im_inv (indexManager (verifyIndexEntries sh))"
    and "\<exists>im s. verifyIndexEntries sh = sh\<lparr>indexManager := im, sh_ios := s\<rparr>"
proof -
  let ?t = "memoryTree (indexManager sh)" and ?bad = "unbacked (storageManager sh)"
  obtain im s where b: "ix.bury (sh_ios sh) (filter ?bad (tree_entries ?t)) (indexManager sh) = (im, s)"
    by (cases "ix.bury (sh_ios sh) (filter ?bad (tree_entries ?t)) (indexManager sh)")
  have v: "verifyIndexEntries sh = sh\<lparr>indexManager := im, sh_ios := s\<rparr>"
    using assms(2) b by (simp add: verifyIndexEntries_def verify_loop_buries index_fits_def getAll_all)
  then show "\<exists>im s. verifyIndexEntries sh = sh\<lparr>indexManager := im, sh_ios := s\<rparr>" by blast
  show "im_inv (indexManager (verifyIndexEntries sh))"
    using ix.bury_invar [OF b assms(1)] by (simp add: v)
  have d: "distinct (map fst ?t)" using assms(1) by (simp add: im_inv_def)
  have "k \<in> ie_key ` set (filter ?bad (tree_entries ?t)) \<longleftrightarrow>
      (\<exists>l. lookup (indexManager sh) k = Some l \<and> ?bad (toEntry k l))"
  proof
    assume "k \<in> ie_key ` set (filter ?bad (tree_entries ?t))"
    then obtain e where e: "e \<in> set (tree_entries ?t)" "?bad e" "k = ie_key e" by auto
    then have "map_of ?t k = Some (loc_of e)" "toEntry k (loc_of e) = e"
      using set_tree_entries [OF d] toEntry_loc_of by auto
    with e show "\<exists>l. lookup (indexManager sh) k = Some l \<and> ?bad (toEntry k l)"
      by (auto simp: lookup_def)
  next
    assume "\<exists>l. lookup (indexManager sh) k = Some l \<and> ?bad (toEntry k l)"
    then obtain l where l: "lookup (indexManager sh) k = Some l" "?bad (toEntry k l)" by blast
    then have "toEntry k l \<in> set (tree_entries ?t)" by (simp add: set_tree_entries [OF d] lookup_def)
    with l show "k \<in> ie_key ` set (filter ?bad (tree_entries ?t))" by force
  qed
  then show "lookup (indexManager (verifyIndexEntries sh)) k =
           (case lookup (indexManager sh) k of None \<Rightarrow> None
            | Some l \<Rightarrow> if ?bad (toEntry k l) then None else Some l)"
    using ix.bury_lkp [OF b] by (auto simp: v restrict_map_def split: option.splits)
qed

text \<open>A location as the program writes it: a real segment, a non-empty value, no wrap-around.\<close>

definition loc_sane :: "Location \<Rightarrow> bool" where
  "loc_sane l \<longleftrightarrow> loc_segmentId l \<noteq> INVALID_SEGMENT_ID \<and> 0 < loc_size l
     \<and> unat (loc_offset l) + unat (loc_size l) < 2 ^ 64"

definition stored_value :: "(string \<times> bytes) list \<Rightarrow> Location \<Rightarrow> string option" where
  "stored_value dir l = slice (unat (loc_offset l)) (unat (loc_size l)) (seg_file dir (loc_segmentId l))"

lemma contains_loaded:
  assumes "loaded dir sm" and "length (seg_file dir (loc_segmentId l)) < off_bound" and "loc_sane l"
    and "\<And>i d. (seg_name i, d) \<in> set dir \<Longrightarrow> map_of (segments sm) i \<noteq> None"
  shows "contains (toEntry k l) sm \<longleftrightarrow> stored_value dir l \<noteq> None"
    and "contains (toEntry k l) sm \<Longrightarrow> value_at sm l = stored_value dir l"
proof -
  let ?i = "loc_segmentId l" and ?n = "unat (loc_offset l) + unat (loc_size l)"
  have sz: "0 < unat (loc_size l)" using assms(3) by (simp add: loc_sane_def word_less_nat_alt)
  have "(contains (toEntry k l) sm \<longleftrightarrow> stored_value dir l \<noteq> None)
      \<and> (contains (toEntry k l) sm \<longrightarrow> value_at sm l = stored_value dir l)"
  proof (cases "map_of (segments sm) ?i")
    case None
    then have "map_of dir (seg_name ?i) = None"
      using assms(4) [OF map_of_SomeD] by (cases "map_of dir (seg_name ?i)") auto
    with None sz show ?thesis by (simp add: contains_def stored_value_def seg_file_def slice_def)
  next
    case (Some g)
    then have g: "currentOffset g = of_nat (length (seg_file dir ?i))"
      using assms(1) by (simp add: loaded_def split: option.splits)
    have "unat (loc_offset l + ucast (loc_size l)) = ?n"
      using assms(3) by (simp add: loc_sane_def unat_word_ariths unat_ucast_u64)
    then have "contains (toEntry k l) sm \<longleftrightarrow> ?n \<le> length (seg_file dir ?i)"
      using Some g assms(2) by (simp add: contains_def getWritePosition_def word_le_nat_alt unat_of_nat_u64)
    with loaded_value [OF assms(1,2) _ refl] Some show ?thesis
      by (simp add: stored_value_def slice_def)
  qed
  then show "contains (toEntry k l) sm \<longleftrightarrow> stored_value dir l \<noteq> None"
    "contains (toEntry k l) sm \<Longrightarrow> value_at sm l = stored_value dir l" by auto
qed

section \<open>Warming the cache\<close>

lemma fill_loop_spec:
  "shard_inv sh \<Longrightarrow> list_all (points sh) es \<Longrightarrow>
     shard_inv (fill_loop es seen sh) \<and> contents (fill_loop es seen sh) = contents sh
     \<and> indexManager (fill_loop es seen sh) = indexManager sh
     \<and> sh_settings (fill_loop es seen sh) = sh_settings sh"
proof (induction es arbitrary: seen sh)
  case Nil
  then show ?case by simp
next
  case (Cons e es)
  obtain v sh1 where r: "sh_read e sh = (v, sh1)" by (cases "sh_read e sh")
  note i = shard_invD [OF Cons.prems(1)]
  note f = sh_read_spec [OF i(1) r]
  have e: "points sh e" "live_entry e" using Cons.prems(2) by (auto simp: points_def)
  obtain w where w: "value_at (storageManager sh) (loc_of e) = Some w" "contents sh (ie_key e) = Some w"
    using points_value [OF i(1) e(1)] by blast
  have s1: "shard_inv sh1" using f i by (simp add: shard_inv_def)
  have p1: "list_all (points sh1) es" using Cons.prems(2) points_cong [OF f(4)] by simp
  have "shard_inv (sh_put e v sh1) \<and> contents (sh_put e v sh1) = contents sh" if "v \<noteq> ''''"
  proof -
    have "v = w" using f(8) [OF w(1)] that by simp
    then have "contents sh1 = (contents sh)(ie_key e \<mapsto> v)" using f(2) w(2) by auto
    with sh_put_spec [of sh1 "contents sh" e v] f i e(2) show ?thesis by simp
  qed
  moreover have "points (sh_put e v sh1) = points sh1" by (intro points_cong) (simp add: sh_put_def)
  moreover have "indexManager (sh_put e v sh1) = indexManager sh1" "sh_settings (sh_put e v sh1) = sh_settings sh1"
    by (simp_all add: sh_put_def)
  ultimately show ?case
    using Cons.prems e(2) r s1 p1 f Cons.IH [of sh seen] Cons.IH [of sh1 "insert (ie_key e) seen"]
      Cons.IH [of "sh_put e v sh1" "insert (ie_key e) seen"]
    by simp
qed

lemma fillCache_spec:
  assumes "shard_inv sh" and "index_fits sh"
  shows "shard_inv (fillCache sh)" and "contents (fillCache sh) = contents sh"
    and "indexManager (fillCache sh) = indexManager sh"
proof -
  let ?es = "matching_entries (\<lambda>_. True) sh"
  have "list_all (points sh) ?es" using matching_points(1) [OF shard_invD(1) [OF assms(1)]] .
  then have "list_all (points sh) (take n ?es)" for n by (auto simp: list_all_iff dest: in_set_takeD)
  from fill_loop_spec [OF assms(1) this] show "shard_inv (fillCache sh)" "contents (fillCache sh) = contents sh"
    "indexManager (fillCache sh) = indexManager sh"
    using assms(2) by (simp_all add: fillCache_def Let_def index_fits_def getAll_all matching_entries_def)
qed

section \<open>Boot\<close>

definition file_bytes :: "bytes option \<Rightarrow> bytes" where
  "file_bytes f = (case f of Some d \<Rightarrow> d | None \<Rightarrow> [])"

definition dir_files :: "(string \<times> bytes) list option \<Rightarrow> (string \<times> bytes) list" where
  "dir_files f = (case f of Some d \<Rightarrow> d | None \<Rightarrow> [])"

text \<open>Files that a boot accepts: sizes below \<open>2 ^ 63\<close> and locations that the program could have written.\<close>

definition files_ok :: "ShardFiles \<Rightarrow> bool" where
  "files_ok f \<longleftrightarrow>
     list_all (\<lambda>(n, d). length d < off_bound) (dir_files (f_seg f))
     \<and> length (fst (load_loop (file_bytes (f_index f)) [])) \<le> unat UINT_MAX
     \<and> list_all (\<lambda>(k, l). loc_sane l) (fst (load_loop (file_bytes (f_index f)) []))"

lemma create_missing_ok:
  assumes "all_ok s"
  shows "\<exists>s'. create_missing s err b f = Inr (case f of Some x \<Rightarrow> x | None \<Rightarrow> b, s') \<and> all_ok s'"
proof -
  obtain r s1 where 1: "io_next s = (r, s1)" by (cases "io_next s")
  with all_ok_io_next [OF assms 1] assms show ?thesis
    by (cases f) (auto simp: create_missing_def)
qed

lemma boot_files_ok:
  assumes "all_ok s"
  shows "\<exists>s'. boot_files s f = Inr (file_bytes (f_index f), dir_files (f_seg f), file_bytes (f_wal f), s') \<and> all_ok s'"
proof -
  obtain s1 where 1: "create_missing s FilesystemException ()
      (if f_index f = None \<and> \<not> f_dir f then None else Some ()) = Inr ((), s1)" "all_ok s1"
    using create_missing_ok [OF assms, of FilesystemException "()"] by force
  obtain s2 where 2: "create_missing s1 (RuntimeError ''Failed to create INDEX for shard'') [] (f_index f)
      = Inr (file_bytes (f_index f), s2)" "all_ok s2"
    using create_missing_ok [OF 1(2)] by (force simp: file_bytes_def)
  obtain s3 where 3: "create_missing s2 FilesystemException [] (f_seg f) = Inr (dir_files (f_seg f), s3)" "all_ok s3"
    using create_missing_ok [OF 2(2)] by (force simp: dir_files_def)
  obtain s4 where 4: "create_missing s3 (RuntimeError ''Failed to create WAL'') [] (f_wal f)
      = Inr (file_bytes (f_wal f), s4)" "all_ok s4"
    using create_missing_ok [OF 3(2)] by (force simp: file_bytes_def)
  from 1 2 3 4 show ?thesis by (simp add: boot_files_def)
qed

lemma seg_file_short:
  "list_all (\<lambda>(n, d). length d < off_bound) dir \<Longrightarrow> length (seg_file dir i) < off_bound"
  by (auto simp: seg_file_def list_all_iff split: option.splits dest!: map_of_SomeD)

lemma new_WAL_ok:
  assumes "all_ok s"
  shows "\<exists>s'. new_WAL s d = (\<lparr>wal = fs_fresh True d d, canClear = True, dirty = False\<rparr>, s') \<and> all_ok s'"
proof -
  obtain r s1 where 1: "io_next s = (r, s1)" by (cases "io_next s")
  from all_ok_io_next [OF assms 1] 1 show ?thesis by (simp add: new_WAL_def)
qed

lemma shard_settings_simps [simp]:
  "SegSize (shard_settings st i) = SegSize st" "CacheSize (shard_settings st i) = CacheSize st"
  by (simp_all add: shard_settings_def Let_def)

lemma index_size_mono:
  assumes "im_inv a" and "im_inv b" and "dom (lookup a) \<subseteq> dom (lookup b)"
  shows "length (memoryTree a) \<le> length (memoryTree b)"
proof -
  have n: "length (memoryTree x) = card (dom (lookup x))" if "im_inv x" for x
  proof -
    have "dom (lookup x) = set (map fst (memoryTree x))"
      by (simp add: lookup_def [abs_def] dom_map_of_conv_image_fst)
    moreover have "card (set (map fst (memoryTree x))) = length (map fst (memoryTree x))"
      using that by (intro distinct_card) (simp add: im_inv_def)
    ultimately show ?thesis by simp
  qed
  have "finite (dom (lookup b))" by (simp add: lookup_def [abs_def] finite_dom_map_of)
  with assms n show ?thesis by (simp add: card_mono)
qed

lemma verify_fits:
  assumes "im_inv (indexManager sh)" and "index_fits sh"
  shows "index_fits (verifyIndexEntries sh)"
proof -
  note v = verifyIndexEntries_spec [OF assms]
  have "dom (lookup (indexManager (verifyIndexEntries sh))) \<subseteq> dom (lookup (indexManager sh))"
    using v(1) by (auto split: option.splits)
  from index_size_mono [OF v(2) assms(1) this] assms(2) show ?thesis by (simp add: index_fits_def)
qed

lemma verified_index:
  assumes "im_inv (indexManager sh)" and "index_fits sh" and "loaded dir (storageManager sh)"
    and "list_all (\<lambda>(n, d). length d < off_bound) dir"
    and "\<forall>i d. (seg_name i, d) \<in> set dir \<longrightarrow> map_of (segments (storageManager sh)) i \<noteq> None"
    and "list_all (\<lambda>(k, l). loc_sane l) (memoryTree (indexManager sh))"
    and "verifyIndexEntries sh = sh\<lparr>indexManager := im, sh_ios := s\<rparr>"
  shows "lookup im q = Some l \<longleftrightarrow> lookup (indexManager sh) q = Some l \<and> stored_value dir l \<noteq> None"
    and "lookup im q = Some l \<Longrightarrow> value_at (storageManager sh) l = stored_value dir l
           \<and> stored_value dir l \<noteq> Some '''' \<and> loc_sane l"
proof -
  note v = verifyIndexEntries_spec [OF assms(1,2)]
  have sane: "loc_sane l" if "lookup (indexManager sh) q = Some l"
    using that assms(6) by (auto simp: lookup_def list_all_iff dest!: map_of_SomeD)
  have c: "contains (toEntry q l) (storageManager sh) \<longleftrightarrow> stored_value dir l \<noteq> None"
    "contains (toEntry q l) (storageManager sh) \<Longrightarrow> value_at (storageManager sh) l = stored_value dir l"
    if "lookup (indexManager sh) q = Some l"
    using contains_loaded [OF assms(3) seg_file_short [OF assms(4)] sane [OF that]] assms(5) by auto
  have live: "live_entry (toEntry q l)" if "lookup (indexManager sh) q = Some l"
    using sane [OF that] by (simp add: live_entry_def loc_sane_def)
  show new: "lookup im q = Some l \<longleftrightarrow> lookup (indexManager sh) q = Some l \<and> stored_value dir l \<noteq> None"
    using v(1) [of q] live c(1) by (auto simp: assms(7) unbacked_def split: option.splits if_splits)
  assume "lookup im q = Some l"
  with new have "lookup (indexManager sh) q = Some l" "stored_value dir l \<noteq> None" by auto
  with c sane show "value_at (storageManager sh) l = stored_value dir l
      \<and> stored_value dir l \<noteq> Some '''' \<and> loc_sane l"
    by (auto simp: stored_value_def slice_def loc_sane_def word_less_nat_alt split: if_splits)
qed

lemma verify_store:
  assumes "im_inv (indexManager sh)" and "index_fits sh" and "sm_inv (storageManager sh)"
    and "segsize_ok (sh_settings sh)" and "loaded dir (storageManager sh)"
    and "list_all (\<lambda>(n, d). length d < off_bound) dir"
    and "\<And>i d. (seg_name i, d) \<in> set dir \<Longrightarrow> map_of (segments (storageManager sh)) i \<noteq> None"
    and "list_all (\<lambda>(k, l). loc_sane l) (memoryTree (indexManager sh))"
  shows "store_inv (verifyIndexEntries sh)"
    and "contents (verifyIndexEntries sh) k
       = Option.bind (map_of (memoryTree (indexManager sh)) k) (stored_value dir)"
proof -
  note v = verifyIndexEntries_spec [OF assms(1,2)]
  obtain im s where sh': "verifyIndexEntries sh = sh\<lparr>indexManager := im, sh_ios := s\<rparr>" using v(3) by blast
  have segs: "\<forall>i d. (seg_name i, d) \<in> set dir \<longrightarrow> map_of (segments (storageManager sh)) i \<noteq> None"
    using assms(7) by blast
  note x = verified_index [OF assms(1,2,5,6) segs assms(8) sh']
  have "index_live (verifyIndexEntries sh)"
    unfolding index_live_def sh'
  proof (simp, intro allI impI conjI)
    fix q l assume q: "lookup im q = Some l"
    with x(2) show "loc_segmentId l \<noteq> INVALID_SEGMENT_ID" by (auto simp: loc_sane_def)
    from q x [where q = q and l = l] show "\<exists>v. value_at (storageManager sh) l = Some v \<and> v \<noteq> ''''" by fastforce
  qed
  with assms(3,4) v(2) show "store_inv (verifyIndexEntries sh)" by (simp add: store_inv_def sh')
  show "contents (verifyIndexEntries sh) k
       = Option.bind (map_of (memoryTree (indexManager sh)) k) (stored_value dir)"
  proof (cases "lookup im k")
    case None
    then have "lookup (indexManager sh) k = Some l \<Longrightarrow> stored_value dir l = None" for l
      using x(1) [where q = k and l = l] by auto
    with None show ?thesis
      by (cases "lookup (indexManager sh) k") (simp_all add: contents_def sh' lookup_def)
  next
    case (Some l)
    with x(1) [where q = k and l = l] have "map_of (memoryTree (indexManager sh)) k = Some l" by (simp add: lookup_def)
    with Some x(2) [OF Some] show ?thesis by (simp add: contents_def sh')
  qed
qed

lemma sh_boot_ok:
  assumes "all_ok s" and "segsize_ok st" and "files_ok f"
  shows "\<exists>sh. sh_boot st i s clock f = Inr sh \<and> shard_inv sh
     \<and> contents sh = (\<lambda>k. Option.bind (map_of (fst (load_loop (file_bytes (f_index f)) [])) k)
                               (stored_value (dir_files (f_seg f))))"
proof -
  let ?idx = "file_bytes (f_index f)" and ?dir = "dir_files (f_seg f)"
  have ok: "list_all (\<lambda>(n, d). length d < off_bound) ?dir" "length (fst (load_loop ?idx [])) \<le> unat UINT_MAX"
    "list_all (\<lambda>(k, l). loc_sane l) (fst (load_loop ?idx []))"
    using assms(3) by (auto simp: files_ok_def)
  obtain s1 where 1: "boot_files s f = Inr (?idx, ?dir, file_bytes (f_wal f), s1)" "all_ok s1"
    using boot_files_ok [OF assms(1)] by blast
  obtain s2 wl where 2: "new_WAL s1 (file_bytes (f_wal f)) = (wl, s2)" "all_ok s2"
    using new_WAL_ok [OF 1(2)] by blast
  obtain im s3 where 3: "new_IndexManager s2 ?idx = Inr (im, s3)" "memoryTree im = fst (load_loop ?idx [])"
    "im_inv im" "all_ok s3" using new_IndexManager_ok [OF 2(2) ok(2)] by blast
  obtain sm s4 where 4: "new_StorageManager s3 ?dir = (sm, s4)" by (cases "new_StorageManager s3 ?dir")
  note l = new_StorageManager_loaded [OF 4 3(4)]
  have smi: "sm_inv sm" using new_StorageManager_inv [OF 4] ok(1) by (auto simp: list_all_iff)
  define sh0 where "sh0 = \<lparr>sh_settings = shard_settings st i, shardId = i, perfMonitor = new_PerfMonitoring,
       sh_wal = wl, indexManager = im, storageManager = sm, sh_cache = new_LRUCache (CacheSize st),
       isStopped = False, sh_ios = s4, sh_clock = clock\<rparr>"
  have f0: "indexManager sh0 = im" "storageManager sh0 = sm" "sh_cache sh0 = new_LRUCache (CacheSize st)"
    by (simp_all add: sh0_def)
  have imi: "im_inv (indexManager sh0)" "index_fits sh0" using ok(2) 3(2,3) by (simp_all add: f0 index_fits_def)
  have seg: "segsize_ok (sh_settings sh0)" using assms(2) by (simp add: segsize_ok_def sh0_def)
  have "store_inv (verifyIndexEntries sh0)"
    "contents (verifyIndexEntries sh0) = (\<lambda>k. Option.bind (map_of (fst (load_loop ?idx [])) k) (stored_value ?dir))"
    using verify_store [OF imi _ seg _ ok(1)] smi l(1,3) ok(3) 3(2) by (auto simp: f0 fun_eq_iff)
  note v1 = this
  obtain im' s' where sh1: "verifyIndexEntries sh0 = sh0\<lparr>indexManager := im', sh_ios := s'\<rparr>"
    using verifyIndexEntries_spec(3) [OF imi] by blast
  have inv: "shard_inv (verifyIndexEntries sh0)" using v1(1) by (simp add: shard_inv_def sh1 f0)
  note fc = fillCache_spec [OF inv verify_fits [OF imi]]
  have "sh_boot st i s clock f = Inr (fillCache (verifyIndexEntries sh0))"
    using 1 2 3 4 by (simp add: sh_boot_def sh0_def)
  with fc v1(2) show ?thesis by auto
qed

section \<open>What survives a crash\<close>

definition disk_files :: "Shard \<Rightarrow> ShardFiles" where
  "disk_files sh = \<lparr>f_dir = True, f_index = Some (fs_disk (im_index (indexManager sh))),
     f_seg = Some (map (\<lambda>(i, g). (seg_name i, fs_disk (segment g))) (segments (storageManager sh))
                   @ seg_dir (storageManager sh)),
     f_wal = Some (fs_disk (wal (sh_wal sh)))\<rparr>"

definition on_disk :: "fstream \<Rightarrow> bool" where
  "on_disk f \<longleftrightarrow> fs_disk f = fs_data f"

text \<open>A component whose \<open>canFlush\<close> flag is down has nothing that is not on disk.\<close>

definition flags_ok :: "Shard \<Rightarrow> bool" where
  "flags_ok sh \<longleftrightarrow> (im_canFlush (indexManager sh) \<or> on_disk (im_index (indexManager sh)))
     \<and> list_all (\<lambda>(i, g). ds_canFlush g \<or> on_disk (segment g)) (segments (storageManager sh))"

definition durable :: "Shard \<Rightarrow> bool" where
  "durable sh \<longleftrightarrow> im_logged (indexManager sh) \<and> on_disk (im_index (indexManager sh))
     \<and> list_all (\<lambda>(i, g). on_disk (segment g)) (segments (storageManager sh))"

lemma flush_segments_durable:
  "flush_segments s gs = (True, gs', s') \<Longrightarrow> list_all (\<lambda>(i, g). ds_canFlush g \<or> on_disk (segment g)) gs \<Longrightarrow>
     list_all (\<lambda>(i, g). on_disk (segment g)) gs'"
proof (induction gs arbitrary: s gs')
  case Nil
  then show ?case by simp
next
  case (Cons p gs)
  obtain i g where p: "p = (i, g)" by (cases p)
  obtain g' s1 gs1 where 1: "seg_flush s g = (True, g', s1)" "flush_segments s1 gs = (True, gs1, s')"
    "gs' = (i, g') # gs1" using Cons.prems(1) by (auto simp: p split: prod.splits)
  have "on_disk (segment g')"
    using seg_flush_durable [OF 1(1)] Cons.prems(2) 1(1)
    by (cases "ds_canFlush g") (auto simp: p on_disk_def seg_flush_def)
  with Cons.IH [OF 1(2)] Cons.prems(2) 1(3) p show ?case by simp
qed

lemma im_flush_durable:
  assumes "im_flush s im = (True, im', s')" and "im_canFlush im \<or> on_disk (im_index im)"
  shows "on_disk (im_index im')" and "im_logged im \<Longrightarrow> im_logged im'"
proof -
  obtain ok f s1 where f: "flush_and_fsync s (im_index im) = (ok, f, s1)"
    by (cases "flush_and_fsync s (im_index im)")
  have "on_disk (im_index im') \<and> (im_logged im \<longrightarrow> im_logged im')"
    using assms f flush_and_fsync_frame [OF f]
    by (auto simp: im_flush_def on_disk_def im_logged_def split: if_splits)
  then show "on_disk (im_index im')" "im_logged im \<Longrightarrow> im_logged im'" by auto
qed

lemma flushData_durable:
  assumes "flushData sh = (True, sh')" and "flags_ok sh" and "im_logged (indexManager sh)"
  shows "durable sh'"
proof -
  obtain sm s1 where 1: "sm_flush (sh_ios sh) (storageManager sh) = (True, sm, s1)"
    and 2: "sh_im_flush (sh\<lparr>storageManager := sm, sh_ios := s1\<rparr>) = (True, sh')"
    using assms(1) by (auto simp: flushData_def sh_sm_flush_def split: prod.splits if_splits)
  obtain gs where gs: "flush_segments (sh_ios sh) (segments (storageManager sh)) = (True, gs, s1)"
    "segments sm = gs" using 1 by (auto simp: sm_flush_def split: prod.splits)
  obtain im s2 where im: "im_flush s1 (indexManager sh) = (True, im, s2)"
    and sh': "sh' = sh\<lparr>storageManager := sm, indexManager := im, sh_ios := s2\<rparr>"
    using 2 by (auto simp: sh_im_flush_def split: prod.splits)
  have fl: "im_canFlush (indexManager sh) \<or> on_disk (im_index (indexManager sh))"
    "list_all (\<lambda>(i, g). ds_canFlush g \<or> on_disk (segment g)) (segments (storageManager sh))"
    using assms(2) by (auto simp: flags_ok_def)
  from im_flush_durable [OF im fl(1)] flush_segments_durable [OF gs(1) fl(2)] gs(2) assms(3)
  show ?thesis by (simp add: durable_def sh')
qed

lemma map_of_seg_names:
  "map_of (map (\<lambda>(i, g). (seg_name i, h g)) gs) (seg_name j) = map_option h (map_of gs j)"
  by (induction gs) (auto dest: seg_name_inj)

lemma slice_of_take: "slice off n (take m d) = Some v \<Longrightarrow> slice off n d = Some v"
  by (auto simp: slice_def min_def drop_take split: if_splits)

lemma durable_value:
  assumes "durable sh" and "value_at (storageManager sh) l = Some v"
  shows "stored_value (dir_files (f_seg (disk_files sh))) l = Some v"
proof -
  let ?i = "loc_segmentId l"
  obtain g where g: "map_of (segments (storageManager sh)) ?i = Some g"
    and v: "slice (unat (loc_offset l)) (unat (loc_size l)) (committed g) = Some v"
    using assms(2) by (auto simp: value_at_def split: option.splits)
  have "fs_disk (segment g) = fs_data (segment g)"
    using assms(1) map_of_SomeD [OF g] by (auto simp: durable_def list_all_iff on_disk_def)
  then have "seg_file (dir_files (f_seg (disk_files sh))) ?i = fs_data (segment g)"
    using g by (simp add: seg_file_def dir_files_def disk_files_def map_of_seg_names map_add_def)
  moreover have "slice (unat (loc_offset l)) (unat (loc_size l)) (fs_data (segment g)) = Some v"
  proof (cases "fs_open (segment g)")
    case True
    with v show ?thesis by (auto simp: committed_def intro: slice_of_take)
  next
    case False
    with v show ?thesis by (auto simp: committed_def slice_def split: if_splits)
  qed
  ultimately show ?thesis by (simp add: stored_value_def)
qed

lemma committed_short: "seg_inv g \<Longrightarrow> length (committed g) < off_bound"
  by (auto simp: seg_inv_def committed_def)

lemma value_sane:
  assumes "sm_inv sm" and "value_at sm l = Some v" and "v \<noteq> ''''" and "loc_segmentId l \<noteq> INVALID_SEGMENT_ID"
  shows "loc_sane l"
proof -
  obtain g where g: "map_of (segments sm) (loc_segmentId l) = Some g"
    and v: "slice (unat (loc_offset l)) (unat (loc_size l)) (committed g) = Some v"
    using assms(2) by (auto simp: value_at_def split: option.splits)
  have "length (committed g) < off_bound" using committed_short sm_invD(1) [OF assms(1) g] by blast
  then have "unat (loc_offset l) + unat (loc_size l) < 2 ^ 64"
    using v by (auto simp: slice_def split: if_splits)
  moreover have "0 < loc_size l"
    using v assms(3) by (auto simp: slice_def word_less_nat_alt split: if_splits)
  ultimately show ?thesis using assms(4) by (simp add: loc_sane_def)
qed

lemma durable_files_ok:
  assumes "shard_inv sh" and "durable sh" and "index_fits sh"
  shows "files_ok (disk_files sh)"
    and "fst (load_loop (file_bytes (f_index (disk_files sh))) []) = memoryTree (indexManager sh)"
proof -
  have i: "sm_inv (storageManager sh)" "im_inv (indexManager sh)" "index_live sh"
    using assms(1) by (auto simp: shard_inv_def store_inv_def)
  show t: "fst (load_loop (file_bytes (f_index (disk_files sh))) []) = memoryTree (indexManager sh)"
    using assms(2) by (simp add: durable_def im_logged_def on_disk_def disk_files_def file_bytes_def)
  have "loc_sane l" if "(k, l) \<in> set (memoryTree (indexManager sh))" for k l
  proof -
    have "lookup (indexManager sh) k = Some l"
      using that i(2) by (simp add: lookup_def im_inv_def map_of_eq_Some_iff)
    with i(3) show ?thesis using value_sane [OF i(1)] by (auto simp: index_live_def)
  qed
  moreover have "length d < off_bound" if "(n, d) \<in> set (dir_files (f_seg (disk_files sh)))" for n d
  proof -
    have "length (fs_disk (segment g)) < off_bound" if "(j, g) \<in> set (segments (storageManager sh))" for j g
      using that i(1) assms(2) by (fastforce simp: sm_inv_def list_all_iff durable_def on_disk_def seg_inv_def)
    moreover have "length e < off_bound" if "(m, e) \<in> set (seg_dir (storageManager sh))" for m e
      using that i(1) by (fastforce simp: sm_inv_def list_all_iff)
    ultimately show ?thesis using that by (auto simp: dir_files_def disk_files_def)
  qed
  ultimately show "files_ok (disk_files sh)"
    using assms(3) unfolding files_ok_def t by (auto simp: list_all_iff index_fits_def)
qed

text \<open>A shard that was flushed comes back from its files with the same contents.\<close>

lemma reboot_any_wal:
  assumes "shard_inv sh" and "durable sh" and "index_fits sh" and "all_ok s" and "segsize_ok st"
  shows "\<exists>sh'. sh_boot st i s clock ((disk_files sh)\<lparr>f_wal := w\<rparr>) = Inr sh' \<and> shard_inv sh' \<and> contents sh' = contents sh"
proof -
  note d = durable_files_ok [OF assms(1-3)]
  let ?f = "(disk_files sh)\<lparr>f_wal := w\<rparr>"
  have f: "files_ok ?f" using d(1) by (simp add: files_ok_def)
  obtain sh' where b: "sh_boot st i s clock ?f = Inr sh'" "shard_inv sh'"
    "contents sh' = (\<lambda>k. Option.bind (map_of (memoryTree (indexManager sh)) k)
                              (stored_value (dir_files (f_seg (disk_files sh)))))"
    using sh_boot_ok [OF assms(4,5) f, of i clock] d(2) by auto
  have "contents sh' k = contents sh k" for k
  proof (cases "lookup (indexManager sh) k")
    case None
    then show ?thesis by (simp add: b(3) contents_def lookup_def)
  next
    case (Some l)
    with assms(1) obtain v where "value_at (storageManager sh) l = Some v"
      by (auto simp: shard_inv_def store_inv_def index_live_def)
    with Some durable_value [OF assms(2) this] show ?thesis by (simp add: b(3) contents_def lookup_def)
  qed
  with b show ?thesis by auto
qed

lemma reboot_contents:
  assumes "shard_inv sh" and "durable sh" and "index_fits sh" and "all_ok s" and "segsize_ok st"
  shows "\<exists>sh'. sh_boot st i s clock (disk_files sh) = Inr sh' \<and> shard_inv sh' \<and> contents sh' = contents sh"
  using reboot_any_wal [OF assms, of i clock "f_wal (disk_files sh)"] by simp

section \<open>Runs without failures\<close>

text \<open>
  A run of single-key commands with no failing call keeps the INDEX file equal to the index in
  memory and the flags right, so that a flush at any moment makes the shard durable.
\<close>

lemma im_append_flag: "im_append s e im = (im', s') \<Longrightarrow> im_canFlush im'"
  by simp

lemma im_insert_flag: "im_insert s e im = (im', s') \<Longrightarrow> im_canFlush im'"
  by (auto simp: im_insert_def split: prod.splits dest: im_append_flag)

lemma im_update_flag: "im_update s k e im = (im', s') \<Longrightarrow> im_canFlush im' \<or> im' = im"
  by (auto simp: im_update_def split: prod.splits option.splits dest: im_append_flag)

definition seg_flag :: "DataSegment \<Rightarrow> bool" where
  "seg_flag g \<longleftrightarrow> ds_canFlush g \<or> on_disk (segment g)"

definition sm_flags :: "StorageManager \<Rightarrow> bool" where
  "sm_flags sm \<longleftrightarrow> (\<forall>i g. (i, g) \<in> set (segments sm) \<longrightarrow> seg_flag g)"

lemma flags_ok_alt:
  "flags_ok sh \<longleftrightarrow> (im_canFlush (indexManager sh) \<or> on_disk (im_index (indexManager sh)))
     \<and> sm_flags (storageManager sh)"
  by (auto simp: flags_ok_def sm_flags_def seg_flag_def list_all_iff)

lemma seg_write_flag: "seg_write st s v g = (p, g', s') \<Longrightarrow> seg_flag g \<Longrightarrow> seg_flag g'"
  by (auto simp: seg_write_def seg_flag_def on_disk_def fs_seek_def fs_clear_def Let_def
      split: prod.splits if_splits)

lemma seg_read_flag: "seg_read s off n g = (v, g', s') \<Longrightarrow> seg_flag g \<Longrightarrow> seg_flag g'"
  by (auto simp: seg_read_def seg_flag_def on_disk_def fs_seek_def fs_read_at_def fs_clear_def Let_def
      split: prod.splits if_splits)

lemma new_DataSegment_flag: "new_DataSegment s i f = (g, s') \<Longrightarrow> seg_flag g"
  by (auto simp: new_DataSegment_def openSegment_def refreshFullStatus_def seg_flag_def on_disk_def
      fs_fresh_def Let_def split: prod.splits)

lemma sm_flags_update:
  "sm_flags sm \<Longrightarrow> seg_flag g \<Longrightarrow> segments sm' = AList.update i g (segments sm) \<Longrightarrow> sm_flags sm'"
  using set_update_subset [of i g "segments sm"] by (auto simp: sm_flags_def)

lemma sm_flagsD: "sm_flags sm \<Longrightarrow> map_of (segments sm) i = Some g \<Longrightarrow> seg_flag g"
  by (auto simp: sm_flags_def dest: map_of_SomeD)

lemma appendToSegment_flags:
  assumes "appendToSegment st s i v sm = (e, sm', s')" and "sm_flags sm"
  shows "sm_flags sm'"
proof (cases "map_of (segments sm) i")
  case None
  with assms show ?thesis by (simp add: appendToSegment_def)
next
  case (Some g)
  obtain pos g' s1 where w: "seg_write st s v g = (pos, g', s1)" by (cases "seg_write st s v g")
  have "segments sm' = AList.update i g' (segments sm)"
    using assms(1) Some w by (auto simp: appendToSegment_def)
  with sm_flags_update [OF assms(2) seg_write_flag [OF w sm_flagsD [OF assms(2) Some]]] show ?thesis by blast
qed

lemma rotate_segment_flags: "rotate_segment s sm = (sm', s') \<Longrightarrow> sm_flags sm \<Longrightarrow> sm_flags sm'"
  by (auto simp: rotate_segment_def make_segment_def Let_def split: prod.splits
      intro: sm_flags_update dest: new_DataSegment_flag)

lemma sm_append_flags: "sm_append st s v sm = (e, sm', s') \<Longrightarrow> sm_flags sm \<Longrightarrow> sm_flags sm'"
  by (auto simp: sm_append_def Let_def split: prod.splits if_splits
      dest!: appendToSegment_flags rotate_segment_flags)

lemma sm_read_flags:
  assumes "sm_read s e sm = (v, sm', s')" and "sm_flags sm"
  shows "sm_flags sm'"
proof (cases "map_of (segments sm) (ie_segmentId e)")
  case None
  with assms show ?thesis by (simp add: sm_read_def)
next
  case (Some g)
  obtain x g' s1 where w: "seg_read s (ie_offset e) (ie_size e) g = (x, g', s1)"
    by (cases "seg_read s (ie_offset e) (ie_size e) g")
  have "segments sm' = AList.update (ie_segmentId e) g' (segments sm)"
    using assms(1) Some w by (auto simp: sm_read_def)
  with sm_flags_update [OF assms(2) seg_read_flag [OF w sm_flagsD [OF assms(2) Some]]] show ?thesis by blast
qed

definition sound_files :: "Shard \<Rightarrow> bool" where
  "sound_files sh \<longleftrightarrow> flags_ok sh \<and> im_logged (indexManager sh) \<and> all_ok (sh_ios sh)"

lemma sh_append_sound: "sh_append v sh = (e, sh') \<Longrightarrow> sound_files sh \<Longrightarrow> sound_files sh'"
  by (auto simp: sh_append_def sound_files_def flags_ok_alt split: prod.splits dest: sm_append_flags calm)

lemma sh_read_sound: "sh_read e sh = (v, sh') \<Longrightarrow> sound_files sh \<Longrightarrow> sound_files sh'"
  by (auto simp: sh_read_def sound_files_def flags_ok_alt split: prod.splits dest: sm_read_flags calm)

lemma sh_insert_sound:
  assumes "sound_files sh" and "key_ok e" and "\<not> ie_isTombstone e"
  shows "sound_files (sh_insert e sh)"
proof -
  obtain im s where i: "im_insert (sh_ios sh) e (indexManager sh) = (im, s)"
    by (cases "im_insert (sh_ios sh) e (indexManager sh)")
  from im_insert_logged [OF _ assms(2,3) _ i] im_insert_flag [OF i] assms(1) i show ?thesis
    by (auto simp: sh_insert_def sound_files_def flags_ok_alt)
qed

lemma sh_update_sound:
  assumes "sound_files sh" and "im_inv (indexManager sh)"
  shows "sound_files (sh_update k e sh)"
proof -
  obtain im s where i: "im_update (sh_ios sh) k e (indexManager sh) = (im, s)"
    by (cases "im_update (sh_ios sh) k e (indexManager sh)")
  from im_update_logged [OF _ assms(2) _ i] im_update_flag [OF i] assms(1) i show ?thesis
    by (auto simp: sh_update_def sound_files_def flags_ok_alt)
qed

lemma sound_frame [simp]:
  "sound_files (sh_put e v sh) = sound_files sh"
  "sound_files (sh_uncache k sh) = sound_files sh"
  "sound_files (sh\<lparr>sh_cache := c\<rparr>) = sound_files sh"
  "sound_files (record_stats add miss sh) = sound_files sh"
  by (simp_all add: sound_files_def flags_ok_def sh_put_def sh_uncache_def)

lemma sh_get_sound: "sh_get k sh = (r, sh') \<Longrightarrow> sound_files sh \<Longrightarrow> sound_files sh'"
  by (auto simp: sh_get_def Let_def split: prod.splits if_splits dest!: sh_read_sound)

lemma sh_set_sound:
  assumes "sh_set k v sh = (r, sh')" and "sound_files sh" and "length k \<le> MAX_KEY_SIZE"
    and "shard_inv sh" and "ids_left (storageManager sh)" and "length v < 2 ^ 32"
  shows "sound_files sh'"
proof -
  obtain e sh1 where a: "sh_append v sh = (e, sh1)" by (cases "sh_append v sh")
  note s1 = sh_append_sound [OF a assms(2)]
  have "\<not> ie_isTombstone (e\<lparr>ie_key := k\<rparr>)" if "ie_segmentId e \<noteq> INVALID_SEGMENT_ID"
    using sh_append_spec(6) [OF shard_invD(1) [OF assms(4)] assms(5,6) a that] by simp
  with sh_insert_sound [OF s1, of "e\<lparr>ie_key := k\<rparr>"] s1 a assms(1,3) show ?thesis
    by (auto simp: sh_set_def Let_def key_ok_def split: if_splits)
qed

lemma sh_del_sound:
  assumes "sh_del k sh = (r, sh')" and "sound_files sh" and "shard_inv sh"
  shows "sound_files sh'"
proof -
  have "im_inv (indexManager (sh_uncache k sh))"
    using assms(3) by (simp add: shard_inv_def store_inv_def sh_uncache_def)
  from sh_update_sound [OF _ this] assms(1,2) show ?thesis
    by (auto simp: sh_del_def Let_def split: if_splits)
qed

text \<open>Sequences of commands on one shard.\<close>

datatype shard_op = OpGet string | OpSet string string | OpDel string

fun run_op :: "shard_op \<Rightarrow> Shard \<Rightarrow> Shard" where
  "run_op (OpGet k) sh = snd (sh_get k sh)"
| "run_op (OpSet k v) sh = snd (sh_set k v sh)"
| "run_op (OpDel k) sh = snd (sh_del k sh)"

fun map_op :: "shard_op \<Rightarrow> (string \<Rightarrow> string option) \<Rightarrow> string \<Rightarrow> string option" where
  "map_op (OpGet k) m = m"
| "map_op (OpSet k v) m = m(k \<mapsto> v)"
| "map_op (OpDel k) m = m(k := None)"

fun op_ok :: "u64 \<Rightarrow> shard_op \<Rightarrow> bool" where
  "op_ok mx (OpSet k v) = (length k \<le> MAX_KEY_SIZE \<and> v \<noteq> '''' \<and> length v \<le> unat mx \<and> length v < 2 ^ 32)"
| "op_ok mx (OpGet k) = True"
| "op_ok mx (OpDel k) = True"

text \<open>What a run needs: no failing call, free segment ids, values that fit.\<close>

definition ready :: "nat \<Rightarrow> Shard \<Rightarrow> bool" where
  "ready n sh \<longleftrightarrow> shard_inv sh \<and> sound_files sh \<and> ids_for n (storageManager sh) \<and> dir_clean (storageManager sh)"

lemma sh_get_storage:
  assumes "shard_inv sh" and "sh_get k sh = (r, sh')"
  shows "seg_dir (storageManager sh') = seg_dir (storageManager sh) \<and> sh_settings sh' = sh_settings sh"
  using assms(2)
  by (auto simp: sh_get_def sh_read_def sh_put_def sm_read_def Let_def split: prod.splits if_splits option.splits)

lemma run_op_ready:
  assumes "ready (Suc n) sh" and "op_ok (SegSize (sh_settings sh)) x"
  shows "ready n (run_op x sh)" and "contents (run_op x sh) = map_op x (contents sh)"
    and "sh_settings (run_op x sh) = sh_settings sh"
proof -
  have r: "shard_inv sh" "sound_files sh" "ids_for (Suc n) (storageManager sh)" "dir_clean (storageManager sh)"
    "all_ok (sh_ios sh)"
    using assms(1) by (auto simp: ready_def sound_files_def)
  have "ready n (run_op x sh) \<and> contents (run_op x sh) = map_op x (contents sh)
      \<and> sh_settings (run_op x sh) = sh_settings sh"
  proof (cases x)
    case (OpGet k)
    obtain y sh' where g: "sh_get k sh = (y, sh')" by (cases "sh_get k sh")
    from sh_get_spec [OF r(1) g] sh_get_sound [OF g r(2)] sh_get_storage [OF r(1) g] r(3,4)
    show ?thesis by (simp add: OpGet g ready_def ids_for_def dir_clean_def)
  next
    case (OpDel k)
    obtain y sh' where d: "sh_del k sh = (y, sh')" by (cases "sh_del k sh")
    have "sh_settings sh' = sh_settings sh"
      using d by (auto simp: sh_del_def Let_def sh_update_def sh_uncache_def split: prod.splits if_splits)
    with sh_del_spec [OF r(1) d] sh_del_sound [OF d r(2,1)] ids_for_less [OF r(3)] r(4)
    show ?thesis by (simp add: OpDel d ready_def)
  next
    case (OpSet k v)
    with assms(2) have ok: "length k \<le> MAX_KEY_SIZE" "v \<noteq> ''''" "length v \<le> unat (SegSize (sh_settings sh))"
      "length v < 2 ^ 32" by auto
    obtain y sh' where s: "sh_set k v sh = (y, sh')" by (cases "sh_set k v sh")
    obtain e sh1 where a: "sh_append v sh = (e, sh1)" by (cases "sh_append v sh")
    note ids = ids_for_left [OF r(3)]
    have "room_for v sh" using r ok by (simp add: room_for_def)
    note rm = sh_append_room [OF r(1) this ids ok(4) a]
    have sm: "storageManager sh' = storageManager sh1" "sh_settings sh' = sh_settings sh1"
      using s a rm by (auto simp: sh_set_def Let_def sh_put_def sh_insert_def split: prod.splits)
    have "sh_settings sh1 = sh_settings sh" using a by (auto simp: sh_append_def split: prod.splits)
    moreover have "code y = Success" using sh_set_succeeds [OF r(1) ids r(4) ok(3,4) r(5), of k] s by simp
    ultimately show ?thesis
      using sh_set_spec [OF r(1) ids ok(4,2,1) s] sh_set_sound [OF s r(2) ok(1) r(1) ids ok(4)]
        sh_append_ids [OF r(3) a] rm(2) sm
      by (simp add: OpSet s ready_def room_for_def)
  qed
  then show "ready n (run_op x sh)" "contents (run_op x sh) = map_op x (contents sh)"
    "sh_settings (run_op x sh) = sh_settings sh" by auto
qed

lemma run_ops_ready:
  "ready (length xs + n) sh \<Longrightarrow> list_all (op_ok (SegSize (sh_settings sh))) xs \<Longrightarrow>
     ready n (fold run_op xs sh) \<and> contents (fold run_op xs sh) = fold map_op xs (contents sh)
     \<and> sh_settings (fold run_op xs sh) = sh_settings sh"
proof (induction xs arbitrary: sh)
  case Nil
  then show ?case by simp
next
  case (Cons x xs)
  have "ready (Suc (length xs + n)) sh" "op_ok (SegSize (sh_settings sh)) x" using Cons.prems by auto
  note r = run_op_ready [OF this]
  with Cons.IH [OF r(1)] Cons.prems(2) show ?case by simp
qed

text \<open>A flush with no failing call succeeds.\<close>

lemma flush_segments_ok:
  "all_ok s \<Longrightarrow> list_all (\<lambda>(i, g). ds_canFlush g \<longrightarrow> fs_open (segment g) \<and> fs_good (segment g)) gs \<Longrightarrow>
     \<exists>gs' s'. flush_segments s gs = (True, gs', s') \<and> all_ok s'"
proof (induction gs arbitrary: s)
  case Nil
  then show ?case by simp
next
  case (Cons p gs)
  obtain i g where p: "p = (i, g)" by (cases p)
  have "\<exists>g' s1. seg_flush s g = (True, g', s1) \<and> all_ok s1"
    using Cons.prems flush_and_fsync_ok [of "segment g" s] by (auto simp: p seg_flush_def)
  then obtain g' s1 where 1: "seg_flush s g = (True, g', s1)" "all_ok s1" by blast
  obtain gs' s2 where "flush_segments s1 gs = (True, gs', s2)" "all_ok s2"
    using Cons.IH [OF 1(2)] Cons.prems(2) by auto
  with 1 show ?case by (simp add: p)
qed

lemma flushData_tree:
  assumes "flushData sh = (ok, sh')"
  shows "memoryTree (indexManager sh') = memoryTree (indexManager sh)"
  using assms
  by (auto simp: flushData_def sh_sm_flush_def sh_im_flush_def split: prod.splits if_splits dest!: im_flush_tree)

end
