(* ===== verification/Archive.thy ===== *)
theory Archive
  imports ShardManager Recovery
begin

text \<open>
  The archives of \<open>ZestDB.cpp\<close>: the chunked copy of the first bytes of a file (\<open>copyPrefix\<close>), the
  body of \<open>createArchive\<close> after the flush (listing the database directory, copying, zipping,
  retention), and the first delay of the thread that saves archives. The zip library and the file
  system are the record \<open>ArchiveEnv\<close>.
\<close>

section \<open>Copying the first bytes of a file\<close>

definition copy_chunk :: nat where "copy_chunk = 2 ^ 20"

function copy_loop :: "ios \<Rightarrow> nat \<Rightarrow> nat \<Rightarrow> fstream \<Rightarrow> fstream \<Rightarrow> bool \<times> fstream \<times> ios" where
  "copy_loop s pos sz fin fout =
     (if sz = 0 then (case fs_flush s fout of (fout1, s1) \<Rightarrow> (fs_good fout1, fout1, s1))
      else let chunk = min sz copy_chunk in
        case fs_read_at s pos chunk fin of (buf, fin1, s1) \<Rightarrow>
          if \<not> fs_good fin1 then (False, fout, s1)
          else case fs_append s1 buf fout of (fout1, s2) \<Rightarrow>
            if \<not> fs_good fout1 then (False, fout1, s2)
            else copy_loop s2 (pos + chunk) (sz - chunk) fin1 fout1)"
  by pat_completeness auto
termination
  by (relation "measure (\<lambda>(s, pos, sz, fin, fout). sz)") (auto simp: copy_chunk_def)

declare copy_loop.simps [simp del]

text \<open>\<open>from\<close> holds the bytes \<open>d\<close>; the first two outcomes are those of opening the two streams.\<close>

definition copyPrefix :: "ios \<Rightarrow> bytes \<Rightarrow> nat \<Rightarrow> bool \<times> fstream \<times> ios" where
  "copyPrefix s d sz =
     (case io_next s of (r, s1) \<Rightarrow>
      case io_next s1 of (q, s2) \<Rightarrow>
        copy_loop s2 0 sz (fs_fresh (io_ok r) d d) (fs_fresh (io_ok q) [] []))"

lemma copy_loop_result:
  "copy_loop s pos sz fin fout = (ok, fout', s') \<Longrightarrow> ok \<Longrightarrow>
     fs_data fout' = fs_data fout @ take sz (drop pos (fs_data fin)) \<and> (sz = 0 \<or> pos + sz \<le> length (fs_data fin))"
proof (induction s pos sz fin fout arbitrary: ok fout' s' rule: copy_loop.induct)
  case (1 s pos sz fin fout)
  show ?case
  proof (cases "sz = 0")
    case True
    with 1(2) show ?thesis
      by (subst (asm) copy_loop.simps) (auto simp: fs_flush_def split: prod.splits if_splits)
  next
    case False
    let ?c = "min sz copy_chunk"
    obtain buf fin1 s1 where r: "fs_read_at s pos ?c fin = (buf, fin1, s1)" by (cases "fs_read_at s pos ?c fin")
    have g: "fs_good fin1" using 1(2,3) False r by (subst (asm) copy_loop.simps) (auto simp: Let_def split: if_splits)
    obtain fout1 s2 where w: "fs_append s1 buf fout = (fout1, s2)" by (cases "fs_append s1 buf fout")
    have g1: "fs_good fout1" using 1(2,3) False r g w by (subst (asm) copy_loop.simps) (auto simp: Let_def split: if_splits)
    have l: "copy_loop s2 (pos + ?c) (sz - ?c) fin1 fout1 = (ok, fout', s')"
      using 1(2) False r g w g1 by (subst (asm) copy_loop.simps) (simp add: Let_def)
    have rd: "buf = take ?c (drop pos (fs_data fin)) \<and> length buf = ?c \<and> fs_data fin1 = fs_data fin"
      using r g by (auto simp: fs_read_at_def Let_def min_def split: if_splits prod.splits io.splits)
    have wr: "fs_data fout1 = fs_data fout @ buf"
      using fs_write_at_data(3) [OF w [unfolded fs_append_def] g1] by simp
    note ih = 1(1) [OF False refl r [symmetric] refl _ w [symmetric] _ l 1(3)]
    have "take sz (drop pos (fs_data fin)) = buf @ take (sz - ?c) (drop (pos + ?c) (fs_data fin))"
      using rd take_add [of ?c "sz - ?c" "drop pos (fs_data fin)"] by (simp add: add.commute)
    moreover have "pos + sz \<le> length (fs_data fin)"
      using ih g g1 rd False by (auto simp: min_def split: if_splits)
    ultimately show ?thesis using ih g g1 rd wr by simp
  qed
qed

lemma copy_loop_succeeds:
  "all_ok s \<Longrightarrow> pos + sz \<le> length (fs_data fin) \<Longrightarrow> fs_open fin \<Longrightarrow> fs_good fin \<Longrightarrow> fs_open fout \<Longrightarrow> fs_good fout \<Longrightarrow>
     fst (copy_loop s pos sz fin fout) \<and> all_ok (snd (snd (copy_loop s pos sz fin fout)))"
proof (induction s pos sz fin fout rule: copy_loop.induct)
  case (1 s pos sz fin fout)
  obtain s1 where s1: "io_next s = (IoOk, s1)" "all_ok s1"
    using all_ok_io_next [OF 1(2)] by (cases "io_next s") auto
  obtain s2 where s2: "io_next s1 = (IoOk, s2)" "all_ok s2"
    using all_ok_io_next [OF s1(2)] by (cases "io_next s1") auto
  show ?case
  proof (cases "sz = 0")
    case True
    with 1(2-7) s1 show ?thesis by (subst copy_loop.simps, subst copy_loop.simps) (simp add: fs_flush_def)
  next
    case False
    let ?c = "min sz copy_chunk" and ?buf = "take (min sz copy_chunk) (drop pos (fs_data fin))"
    let ?fout = "fout\<lparr>fs_data := fs_data fout @ ?buf\<rparr>"
    have len: "length ?buf = ?c" using 1(3) by (auto simp: min_def)
    have r: "fs_read_at s pos ?c fin = (?buf, fin\<lparr>fs_good := True\<rparr>, s1)"
      using 1(4,5) s1 len by (simp add: fs_read_at_def Let_def)
    have w: "fs_append s1 ?buf fout = (?fout, s2)"
      using 1(6,7) s2 by (simp add: fs_append_def fs_write_at_def)
    have st: "copy_loop s pos sz fin fout = copy_loop s2 (pos + ?c) (sz - ?c) (fin\<lparr>fs_good := True\<rparr>) ?fout"
      using False r w 1(7) by (subst copy_loop.simps) (simp add: Let_def)
    show ?thesis unfolding st
      by (rule 1(1) [OF False refl r [symmetric] refl _ w [symmetric]]) (use 1(3-7) s2 in \<open>auto simp: min_def\<close>)
  qed
qed

lemma copyPrefix_result:
  assumes "copyPrefix s d sz = (True, f, s')"
  shows "fs_data f = take sz d" and "sz \<le> length d"
  using assms copy_loop_result [of _ 0 sz _ _ True]
  by (fastforce simp: copyPrefix_def fs_fresh_def split: prod.splits)+

lemma copyPrefix_succeeds:
  assumes "all_ok s" and "sz \<le> length d"
  shows "\<exists>f s'. copyPrefix s d sz = (True, f, s') \<and> all_ok s'"
proof -
  obtain s1 where s1: "io_next s = (IoOk, s1)" "all_ok s1" using all_ok_io_next [OF assms(1)] by (cases "io_next s") auto
  obtain s2 where s2: "io_next s1 = (IoOk, s2)" "all_ok s2" using all_ok_io_next [OF s1(2)] by (cases "io_next s1") auto
  from copy_loop_succeeds [OF s2(2), of 0 sz "fs_fresh True d d" "fs_fresh True [] []"] assms(2) s1 s2
  show ?thesis
    by (cases "copy_loop s2 0 sz (fs_fresh True d d) (fs_fresh True [] [])") (simp add: copyPrefix_def fs_fresh_def)
qed

section \<open>Creating an archive\<close>

text \<open>
  An entry of the archive directory: an archive with its files, another regular file, or something
  that is not a regular file. Names are relative to the directory.
\<close>

datatype archive_entry = Zip "(string \<times> bytes) list" | OtherFile | NotRegular

type_synonym archive_dir = "(string \<times> archive_entry) list"

text \<open>
  What one run of \<open>createArchive\<close> meets: whether the database directory is there (\<open>ae_isDir\<close>) and
  the directories can be prepared and listed (\<open>ae_setup\<close>), the files of the database directory that
  are not the shards' (\<open>ae_extra\<close>), the path of the archive directory when it lies inside
  (\<open>ae_inside\<close>), the bytes the system shows for a stream (\<open>ae_seen\<close>), whether a WAL file can be
  copied, what each file holds when its copy is made after the lock was released (\<open>ae_later\<close>), the
  outcomes of the copies, the time in the name, and what the zip library does: opening, adding a
  file (or reaching it in the listing), and closing, which gives the entry that is written.
  \<open>ae_prune\<close> is whether the archive directory can be listed and \<open>ae_remove\<close> whether a file of it can
  be removed.
\<close>

record ArchiveEnv =
  ae_isDir :: bool
  ae_setup :: bool
  ae_extra :: "(string \<times> bytes) list"
  ae_inside :: "string option"
  ae_seen :: "fstream \<Rightarrow> bytes"
  ae_walCopy :: "string \<Rightarrow> bool"
  ae_later :: "string \<Rightarrow> bytes"
  ae_ios :: ios
  ae_stamp :: string
  ae_open :: bool
  ae_add :: "string \<Rightarrow> bool"
  ae_zip :: "(string \<times> bytes) list \<Rightarrow> archive_entry option"
  ae_prune :: bool
  ae_remove :: "string \<Rightarrow> bool"

text \<open>The files under the database directory, by their relative paths.\<close>

definition shard_files :: "(fstream \<Rightarrow> bytes) \<Rightarrow> Shard \<Rightarrow> (string \<times> bytes) list" where
  "shard_files seen sh =
     [(''INDEX'', seen (im_index (indexManager sh))), (''WAL'', seen (wal (sh_wal sh)))]
     @ map (\<lambda>(n, d). (''seg/'' @ n, d))
         (map (\<lambda>(i, g). (seg_name i, seen (segment g))) (segments (storageManager sh)) @ seg_dir (storageManager sh))"

definition shard_prefix :: "nat \<Rightarrow> string" where
  "shard_prefix i = ''shards/'' @ show_nat i @ ''/''"

definition db_files :: "(fstream \<Rightarrow> bytes) \<Rightarrow> ShardManager \<Rightarrow> (string \<times> bytes) list" where
  "db_files seen mgr =
     concat (map (\<lambda>(i, sh). map (\<lambda>(n, d). (shard_prefix i @ n, d)) (shard_files seen sh))
                 (enumerate 0 (mgr_shards mgr)))"

definition filename :: "string \<Rightarrow> string" where
  "filename p = rev (takeWhile (\<lambda>c. c \<noteq> CHR ''/'') (rev p))"

definition archive_listing :: "ArchiveEnv \<Rightarrow> ShardManager \<Rightarrow> (string \<times> bytes) list" where
  "archive_listing env mgr =
     filter (\<lambda>(p, d). case ae_inside env of None \<Rightarrow> True | Some a \<Rightarrow> \<not> prefix (a @ ''/'') p)
       (db_files (ae_seen env) mgr @ ae_extra env)"

fun copy_all :: "ios \<Rightarrow> (string \<Rightarrow> bytes) \<Rightarrow> (string \<times> nat) list \<Rightarrow> (string \<times> bytes) list option" where
  "copy_all s later [] = Some []"
| "copy_all s later ((p, n) # xs) =
     (case copyPrefix s (later p) n of (ok, f, s1) \<Rightarrow>
        if \<not> ok then None else map_option (Cons (p, fs_data f)) (copy_all s1 later xs))"

fun add_all :: "(string \<Rightarrow> bool) \<Rightarrow> (string \<times> bytes) list \<Rightarrow> (string \<times> bytes) list \<Rightarrow> bool \<times> (string \<times> bytes) list" where
  "add_all add added [] = (True, added)"
| "add_all add added ((p, d) # fs) = (if add p then add_all add (added @ [(p, d)]) fs else (False, added))"

section \<open>Retention\<close>

definition is_archive :: "string \<times> archive_entry \<Rightarrow> bool" where
  "is_archive e \<longleftrightarrow> snd e \<noteq> NotRegular \<and> prefix ''zestdb_archive_'' (fst e) \<and> suffix ''.zip'' (fst e)"

definition archives_of :: "archive_dir \<Rightarrow> string list" where
  "archives_of dir = sort (map fst (filter is_archive dir))"

function prune_loop :: "(string \<Rightarrow> bool) \<Rightarrow> nat \<Rightarrow> nat \<Rightarrow> string list \<Rightarrow> archive_dir \<Rightarrow> archive_dir" where
  "prune_loop rm retention i archives dir =
     (if i + retention < length archives
      then prune_loop rm retention (Suc i) archives (if rm (archives ! i) then AList.delete (archives ! i) dir else dir)
      else dir)"
  by pat_completeness auto
termination
  by (relation "measure (\<lambda>(rm, retention, i, archives, dir). length archives - i)") auto

declare prune_loop.simps [simp del]

definition prune :: "ArchiveEnv \<Rightarrow> u32 \<Rightarrow> archive_dir \<Rightarrow> archive_dir" where
  "prune env retention dir =
     (if retention > 0 then prune_loop (ae_remove env) (unat retention) 0 (archives_of dir) dir else dir)"

definition archive_name :: "ArchiveEnv \<Rightarrow> string" where
  "archive_name env = ''zestdb_archive_'' @ ae_stamp env @ ''.zip''"

text \<open>Closing the zip file after some files were added; the outcome and the directory.\<close>

definition close_zip :: "ArchiveEnv \<Rightarrow> (string \<times> bytes) list \<Rightarrow> archive_dir \<Rightarrow> bool \<times> archive_dir" where
  "close_zip env added dir =
     (case ae_zip env added of
        None \<Rightarrow> (False, dir)
      | Some e \<Rightarrow> (True, AList.update (archive_name env) e dir))"

text \<open>
  \<open>createArchive\<close> after its flush. The directory \<open>.snapshot\<close> that the files are copied to is removed
  on every path, so it does not appear. Files come in the order of the listing.
\<close>

definition run_archive :: "ArchiveEnv \<Rightarrow> u32 \<Rightarrow> ShardManager \<Rightarrow> archive_dir \<Rightarrow> bool \<times> archive_dir" where
  "run_archive env retention mgr dir =
     (if \<not> ae_isDir env \<or> \<not> ae_setup env then (False, dir)
      else let files = archive_listing env mgr;
               wals = filter (\<lambda>(p, d). filename p = ''WAL'') files;
               toCopy = map (\<lambda>(p, d). (p, length d)) (filter (\<lambda>(p, d). filename p \<noteq> ''WAL'') files) in
        if \<not> list_all (\<lambda>(p, d). ae_walCopy env p) wals then (False, dir)
        else case copy_all (ae_ios env) (ae_later env) toCopy of
               None \<Rightarrow> (False, dir)
             | Some copies \<Rightarrow>
                 if \<not> ae_open env then (False, dir)
                 else case add_all (ae_add env) [] (wals @ copies) of
                        (False, added) \<Rightarrow> (False, snd (close_zip env added dir))
                      | (True, added) \<Rightarrow>
                          (case close_zip env added dir of (ok, dir1) \<Rightarrow>
                             if \<not> ok then (False, dir1)
                             else if \<not> ae_prune env \<and> retention > 0 then (False, dir1)
                             else (True, prune env retention dir1)))"

lemma prune_loop_filter:
  "prune_loop rm r i xs dir = filter (\<lambda>(n, e). \<not> (n \<in> set (drop i (take (length xs - r) xs)) \<and> rm n)) dir"
proof (induction rm r i xs dir rule: prune_loop.induct)
  case (1 rm r i xs dir)
  show ?case
  proof (cases "i + r < length xs")
    case True
    then have "drop i (take (length xs - r) xs) = xs ! i # drop (Suc i) (take (length xs - r) xs)"
      by (simp add: Cons_nth_drop_Suc [symmetric])
    with 1 [OF True] True show ?thesis
      by (subst prune_loop.simps) (auto simp: AList.delete_eq intro!: filter_cong)
  next
    case False
    then show ?thesis by (subst prune_loop.simps) simp
  qed
qed

lemma sort_filter_sorted: "sort (filter P xs) = filter P (sort (xs :: string list))"
  using filter_sort [of P "\<lambda>x. x" xs] by simp

text \<open>With distinct names and no failing removal, the greatest names stay.\<close>

lemma prune_archives:
  assumes "distinct (map fst dir)" and "\<And>n. ae_remove env n" and "retention > 0"
  shows "archives_of (prune env retention dir) =
           drop (length (archives_of dir) - unat retention) (archives_of dir)"
    and "filter (\<lambda>e. \<not> is_archive e) (prune env retention dir) = filter (\<lambda>e. \<not> is_archive e) dir"
proof -
  let ?xs = "archives_of dir" and ?n = "length (archives_of dir) - unat retention"
  have p: "prune env retention dir = filter (\<lambda>(n, e). n \<notin> set (take ?n ?xs)) dir"
    using assms(2,3) by (simp add: prune_def prune_loop_filter)
  have d: "distinct ?xs" using assms(1) by (simp add: archives_of_def distinct_map_filter)
  have "map fst (filter is_archive (filter (\<lambda>(n, e). n \<notin> set (take ?n ?xs)) dir)) =
      filter (\<lambda>n. n \<notin> set (take ?n ?xs)) (map fst (filter is_archive dir))"
    by (simp add: filter_map o_def case_prod_beta conj_commute)
  then have "archives_of (prune env retention dir) = filter (\<lambda>n. n \<notin> set (take ?n ?xs)) ?xs"
    by (simp add: p archives_of_def sort_filter_sorted)
  also have "\<dots> = drop ?n ?xs"
  proof -
    have "filter (\<lambda>n. n \<notin> set xs) (xs @ ys) = ys" if "distinct (xs @ ys)" for xs ys :: "string list"
      using that by (auto simp: filter_id_conv)
    from this [of "take ?n ?xs" "drop ?n ?xs"] d show ?thesis by simp
  qed
  finally show "archives_of (prune env retention dir) = drop ?n ?xs" .
  have "set ?xs = fst ` set (filter is_archive dir)" by (simp add: archives_of_def)
  then have s: "set (take ?n ?xs) \<subseteq> fst ` set (filter is_archive dir)" using set_take_subset [of ?n ?xs] by simp
  have "is_archive e" if e: "e \<in> set dir" "fst e \<in> set (take ?n ?xs)" for e
  proof -
    from e(2) s obtain e' where "e' \<in> set dir" "is_archive e'" "fst e' = fst e" by auto
    with e(1) assms(1) show ?thesis by (auto simp: distinct_map inj_on_def)
  qed
  then show "filter (\<lambda>e. \<not> is_archive e) (prune env retention dir) = filter (\<lambda>e. \<not> is_archive e) dir"
    by (auto simp: p intro!: filter_cong)
qed

section \<open>What an archive holds\<close>

lemma copy_all_result:
  "copy_all s later xs = Some cs \<Longrightarrow> cs = map (\<lambda>(p, n). (p, take n (later p))) xs"
  by (induction s later xs arbitrary: cs rule: copy_all.induct)
    (auto split: prod.splits if_splits dest: copyPrefix_result(1))

lemma copy_all_succeeds:
  "all_ok s \<Longrightarrow> list_all (\<lambda>(p, n). n \<le> length (later p)) xs \<Longrightarrow> \<exists>cs. copy_all s later xs = Some cs"
proof (induction s later xs rule: copy_all.induct)
  case (2 s later p n xs)
  then obtain f s' where "copyPrefix s (later p) n = (True, f, s')" "all_ok s'"
    using copyPrefix_succeeds [of s n "later p"] by auto
  with 2 show ?case by auto
qed simp

lemma add_all_result: "add_all add acc fs = (True, added) \<Longrightarrow> added = acc @ fs"
  by (induction add acc fs arbitrary: added rule: add_all.induct) (auto split: if_splits)

text \<open>The listing as it goes into the archive: first the logs, copied under the lock, then the rest.\<close>

definition archive_files :: "ArchiveEnv \<Rightarrow> ShardManager \<Rightarrow> (string \<times> bytes) list" where
  "archive_files env mgr =
     filter (\<lambda>(p, d). filename p = ''WAL'') (archive_listing env mgr)
     @ filter (\<lambda>(p, d). filename p \<noteq> ''WAL'') (archive_listing env mgr)"

text \<open>While the copies are made, files are only appended to.\<close>

definition only_appended :: "ArchiveEnv \<Rightarrow> ShardManager \<Rightarrow> bool" where
  "only_appended env mgr \<longleftrightarrow> list_all (\<lambda>(p, d). prefix d (ae_later env p)) (archive_listing env mgr)"

lemma run_archive_files:
  assumes "run_archive env retention mgr dir = (True, dir')" and "only_appended env mgr"
  shows "\<exists>e. ae_zip env (archive_files env mgr) = Some e
     \<and> dir' = prune env retention (AList.update (archive_name env) e dir)"
proof -
  let ?l = "archive_listing env mgr"
  let ?wals = "filter (\<lambda>(p, d). filename p = ''WAL'') ?l" and ?rest = "filter (\<lambda>(p, d). filename p \<noteq> ''WAL'') ?l"
  obtain copies where c: "copy_all (ae_ios env) (ae_later env) (map (\<lambda>(p, d). (p, length d)) ?rest) = Some copies"
    using assms(1) by (auto simp: run_archive_def Let_def split: if_splits option.splits)
  have "take (length d) (ae_later env p) = d" if "(p, d) \<in> set ?rest" for p d
    using that assms(2) by (auto simp: only_appended_def list_all_iff prefix_def)
  then have "copies = ?rest" using copy_all_result [OF c] by (auto intro!: map_idI)
  moreover obtain e where "ae_zip env (?wals @ copies) = Some e"
    and "dir' = prune env retention (AList.update (archive_name env) e dir)"
    using assms(1) c
    by (auto simp: run_archive_def close_zip_def Let_def split: if_splits option.splits prod.splits bool.splits dest!: add_all_result)
  ultimately show ?thesis by (auto simp: archive_files_def)
qed

section \<open>Restoring from an archive\<close>

text \<open>The files of shard \<open>i\<close> as they come out of an archive.\<close>

definition under :: "string \<Rightarrow> (string \<times> bytes) list \<Rightarrow> (string \<times> bytes) list" where
  "under p files = map (\<lambda>(n, d). (drop (length p) n, d)) (filter (\<lambda>(n, d). prefix p n) files)"

definition restored :: "nat \<Rightarrow> (string \<times> bytes) list \<Rightarrow> ShardFiles" where
  "restored i files =
     (let fs = under (shard_prefix i) files in
      \<lparr>f_dir = True, f_index = map_of fs ''INDEX'', f_seg = Some (under ''seg/'' fs), f_wal = map_of fs ''WAL''\<rparr>)"

lemma under_append [simp]: "under p (xs @ ys) = under p xs @ under p ys"
  by (simp add: under_def)

lemma under_Cons: "under p ((n, d) # xs) = (if prefix p n then (drop (length p) n, d) # under p xs else under p xs)"
  by (simp add: under_def)

lemma under_own: "under p (map (\<lambda>(n, d). (p @ n, d)) xs) = xs"
  by (induction xs) (auto simp: under_def)

lemma under_other: "list_all (\<lambda>(n, d). \<not> prefix p n) xs \<Longrightarrow> under p xs = []"
  by (auto simp: under_def list_all_iff filter_empty_conv)

lemma under_filter:
  assumes "\<And>n. P (p @ n) = Q n"
  shows "under p (filter (\<lambda>(n, d). P n) xs) = filter (\<lambda>(n, d). Q n) (under p xs)"
proof (induction xs)
  case Nil
  show ?case by (simp add: under_def)
next
  case (Cons x xs)
  obtain n d where x: "x = (n, d)" by (cases x)
  show ?case
  proof (cases "prefix p n")
    case True
    then obtain m where "n = p @ m" by (auto simp: prefix_def)
    with Cons show ?thesis by (simp add: under_def x assms)
  next
    case False
    with Cons show ?thesis by (simp add: under_def x)
  qed
qed

lemma digit_char_no_slash: "d < 10 \<Longrightarrow> digit_char d \<noteq> CHR ''/''"
  using digit_val_digit_char [of d] by (auto simp: digit_val_def)

lemma show_nat_no_slash: "CHR ''/'' \<notin> set (show_nat n)"
proof (induction n rule: show_nat.induct)
  case (1 n)
  then show ?case
    using digit_char_no_slash [of n] digit_char_no_slash [of "n mod 10"] by (subst show_nat.simps) auto
qed

lemma takeWhile_slash: "CHR ''/'' \<notin> set xs \<Longrightarrow> takeWhile (\<lambda>c. c \<noteq> CHR ''/'') (xs @ CHR ''/'' # ys) = xs"
  by (induction xs) auto

lemma shard_prefix_inj: "prefix (shard_prefix i) (shard_prefix j @ n) \<longleftrightarrow> i = j"
proof
  assume "prefix (shard_prefix i) (shard_prefix j @ n)"
  then obtain m where "show_nat j @ CHR ''/'' # n = show_nat i @ CHR ''/'' # m"
    by (auto simp: shard_prefix_def prefix_def)
  then have "takeWhile (\<lambda>c. c \<noteq> CHR ''/'') (show_nat j @ CHR ''/'' # n) = takeWhile (\<lambda>c. c \<noteq> CHR ''/'') (show_nat i @ CHR ''/'' # m)"
    by simp
  then show "i = j" using show_nat_inj by (simp add: takeWhile_slash show_nat_no_slash)
qed simp

lemma filename_dir: "filename (p @ CHR ''/'' # n) = filename n"
  by (simp add: filename_def takeWhile_tail)

lemma filename_suffix: "suffix (filename p) p"
  by (simp add: filename_def suffix_to_prefix takeWhile_is_prefix)

lemma filename_seg_name: "filename (seg_name i) \<noteq> ''WAL''"
proof
  assume "filename (seg_name i) = ''WAL''"
  with filename_suffix [of "seg_name i"] show False by (simp add: seg_name_def suffix_to_prefix)
qed

lemma under_db_files:
  assumes "i < length (mgr_shards mgr)"
  shows "under (shard_prefix i) (db_files seen mgr) = shard_files seen (mgr_shards mgr ! i)"
proof -
  have "under (shard_prefix i) (concat (map (\<lambda>(j, sh). map (\<lambda>(n, d). (shard_prefix j @ n, d)) (shard_files seen sh)) (enumerate m shs)))
      = (if m \<le> i \<and> i < m + length shs then shard_files seen (shs ! (i - m)) else [])" for m shs
  proof (induction shs arbitrary: m)
    case Nil
    show ?case by (auto simp: under_def)
  next
    case (Cons sh shs)
    have "under (shard_prefix i) (map (\<lambda>(n, d). (shard_prefix m @ n, d)) (shard_files seen sh))
        = (if i = m then shard_files seen sh else [])"
      by (auto simp: under_own shard_prefix_inj list_all_iff intro!: under_other)
    with Cons.IH [of "Suc m"] show ?case by (auto simp: nth_Cons' Suc_le_eq)
  qed
  from this [of 0 "mgr_shards mgr"] assms show ?thesis by (simp add: db_files_def)
qed

text \<open>
  What the run relies on: the system shows what was synced, the archive directory hides no file of
  the shards, and no other file lies where the shards keep theirs.
\<close>

definition plain_tree :: "ArchiveEnv \<Rightarrow> ShardManager \<Rightarrow> bool" where
  "plain_tree env mgr \<longleftrightarrow>
     (\<forall>f. on_disk f \<longrightarrow> ae_seen env f = fs_data f)
     \<and> (\<forall>a. ae_inside env = Some a \<longrightarrow> list_all (\<lambda>(p, d). \<not> prefix (a @ ''/'') p) (db_files (ae_seen env) mgr))
     \<and> list_all (\<lambda>(p, d). \<not> prefix ''shards/'' p) (ae_extra env)
     \<and> list_all (\<lambda>sh. list_all (\<lambda>(n, d). filename n \<noteq> ''WAL'') (seg_dir (storageManager sh))) (mgr_shards mgr)"

lemma under_listing:
  assumes "plain_tree env mgr" and "i < length (mgr_shards mgr)"
  shows "under (shard_prefix i) (archive_listing env mgr) = shard_files (ae_seen env) (mgr_shards mgr ! i)"
proof -
  have "filter (\<lambda>(p, d). case ae_inside env of None \<Rightarrow> True | Some a \<Rightarrow> \<not> prefix (a @ ''/'') p) (db_files (ae_seen env) mgr)
      = db_files (ae_seen env) mgr"
    using assms(1) by (fastforce simp: plain_tree_def list_all_iff filter_id_conv split: option.splits)
  moreover have "under (shard_prefix i) (filter P (ae_extra env)) = []" for P
    using assms(1) by (fastforce simp: plain_tree_def list_all_iff shard_prefix_def prefix_def intro!: under_other)
  ultimately show ?thesis using under_db_files [OF assms(2)] by (simp add: archive_listing_def)
qed

lemma restored_files:
  assumes "plain_tree env mgr" and "i < length (mgr_shards mgr)" and "durable (mgr_shards mgr ! i)"
  shows "restored i (archive_files env mgr) =
           (disk_files (mgr_shards mgr ! i))\<lparr>f_wal := Some (ae_seen env (wal (sh_wal (mgr_shards mgr ! i))))\<rparr>"
proof -
  let ?sh = "mgr_shards mgr ! i" and ?seen = "ae_seen env"
  define segs where "segs = map (\<lambda>(i, g). (seg_name i, fs_disk (segment g))) (segments (storageManager ?sh)) @ seg_dir (storageManager ?sh)"
  have seen: "?seen f = fs_disk f" if "on_disk f" for f
    using that assms(1) by (simp add: plain_tree_def on_disk_def)
  have d: "on_disk (im_index (indexManager ?sh))" "list_all (\<lambda>(i, g). on_disk (segment g)) (segments (storageManager ?sh))"
    using assms(3) by (auto simp: durable_def)
  then have fs: "shard_files ?seen ?sh = (''INDEX'', fs_disk (im_index (indexManager ?sh))) # (''WAL'', ?seen (wal (sh_wal ?sh)))
      # map (\<lambda>(n, d). (''seg/'' @ n, d)) segs"
    by (auto simp: shard_files_def segs_def list_all_iff seen)
  have "filename n \<noteq> ''WAL''" if "(n, b) \<in> set segs" for n b
    using that assms(1,2) filename_seg_name by (fastforce simp: segs_def plain_tree_def list_all_length in_set_conv_nth)
  then have w: "filter (\<lambda>(n, d). filename n = ''WAL'') (map (\<lambda>(n, d). (''seg/'' @ n, d)) segs) = []"
    "filter (\<lambda>(n, d). filename n \<noteq> ''WAL'') (map (\<lambda>(n, d). (''seg/'' @ n, d)) segs) = map (\<lambda>(n, d). (''seg/'' @ n, d)) segs"
    using filename_dir [of "''seg''"] by (auto simp: filter_empty_conv filter_id_conv)
  have "filename (shard_prefix i @ n) = filename n" for n
    using filename_dir [of "''shards/'' @ show_nat i" n] by (simp add: shard_prefix_def)
  then have f: "under (shard_prefix i) (filter (\<lambda>(p, d). P (filename p)) xs) = filter (\<lambda>(p, d). P (filename p)) (under (shard_prefix i) xs)" for P xs
    by (intro under_filter) simp
  have nm: "filename ''INDEX'' = ''INDEX''" "filename ''WAL'' = ''WAL''" by (simp_all add: filename_def)
  have u: "under (shard_prefix i) (archive_files env mgr) =
      (''WAL'', ?seen (wal (sh_wal ?sh))) # (''INDEX'', fs_disk (im_index (indexManager ?sh))) # map (\<lambda>(n, d). (''seg/'' @ n, d)) segs"
    using f [of "\<lambda>n. n = ''WAL''"] f [of "\<lambda>n. n \<noteq> ''WAL''"] under_listing [OF assms(1,2)] w nm
    by (simp add: archive_files_def fs)
  have "under ''seg/'' (under (shard_prefix i) (archive_files env mgr)) = segs"
    unfolding u using under_own [of "''seg/''" segs] by (simp add: under_Cons)
  then show ?thesis by (simp add: restored_def Let_def u disk_files_def segs_def)
qed

text \<open>A shard restored from an archive holds the map that it held when the archive was made.\<close>

lemma archive_restores:
  assumes "run_archive env retention mgr dir = (True, dir')" and "only_appended env mgr" and "plain_tree env mgr"
    and "\<And>fs. ae_zip env fs = Some (Zip fs) \<or> ae_zip env fs = None"
    and "i < length (mgr_shards mgr)" and "shard_inv (mgr_shards mgr ! i)" and "durable (mgr_shards mgr ! i)"
    and "index_fits (mgr_shards mgr ! i)" and "all_ok s" and "segsize_ok st"
  shows "\<exists>files sh. dir' = prune env retention (AList.update (archive_name env) (Zip files) dir)
     \<and> sh_boot st i s clock (restored i files) = Inr sh \<and> contents sh = contents (mgr_shards mgr ! i)"
proof -
  obtain e where e: "ae_zip env (archive_files env mgr) = Some e"
    and d: "dir' = prune env retention (AList.update (archive_name env) e dir)"
    using run_archive_files [OF assms(1,2)] by blast
  with assms(4) [of "archive_files env mgr"] have "e = Zip (archive_files env mgr)" by auto
  with d reboot_any_wal [OF assms(6-10), of i clock] restored_files [OF assms(3,5,7)] show ?thesis by metis
qed

section \<open>The first delay of the save thread\<close>

text \<open>
  \<open>saveThread\<close> before its loop. An entry of the archive directory is its name, whether it is a
  regular file, and its last write time in nanoseconds (\<open>None\<close> when asking for it throws).
\<close>

fun latest_write :: "(string \<times> bool \<times> int option) list \<Rightarrow> int option \<Rightarrow> int option" where
  "latest_write [] most_recent = most_recent"
| "latest_write ((name, regular, t) # es) most_recent =
     latest_write es
       (if regular \<and> path_extension name = ''.zip''
        then case t of
               None \<Rightarrow> most_recent
             | Some current \<Rightarrow>
                 (case most_recent of
                    None \<Rightarrow> Some current
                  | Some m \<Rightarrow> if current > m then Some current else Some m)
        else most_recent)"

text \<open>\<open>duration_cast<seconds>\<close> truncates towards zero.\<close>

definition to_seconds :: "int \<Rightarrow> int" where
  "to_seconds d = (if d \<ge> 0 then d div 10 ^ 9 else - ((- d) div 10 ^ 9))"

definition first_delay :: "u32 \<Rightarrow> (string \<times> bool \<times> int option) list \<Rightarrow> int \<Rightarrow> u32" where
  "first_delay archiveCreationDelay es now =
     (case latest_write es None of
        None \<Rightarrow> 0
      | Some t \<Rightarrow>
          (let elapsed = to_seconds (now - t) in
           if elapsed \<ge> 0 \<and> (of_int elapsed :: u32) < archiveCreationDelay
           then archiveCreationDelay - of_int elapsed else 0))"

lemma latest_write_max:
  "latest_write es m = Some t \<Longrightarrow>
     (m = Some t \<or> (\<exists>n. (n, True, Some t) \<in> set es \<and> path_extension n = ''.zip''))
     \<and> (\<forall>x. m = Some x \<longrightarrow> x \<le> t) \<and> (\<forall>n x. (n, True, Some x) \<in> set es \<and> path_extension n = ''.zip'' \<longrightarrow> x \<le> t)"
proof (induction es m rule: latest_write.induct)
  case (1 m)
  then show ?case by simp
next
  case (2 name regular c es m)
  note l = 2(2) [unfolded latest_write.simps] and ih = 2(1) [OF 2(2) [unfolded latest_write.simps]]
  show ?case
  proof (cases "regular \<and> path_extension name = ''.zip'' \<and> c \<noteq> None")
    case True
    then obtain x where x: "c = Some x" by auto
    show ?thesis
    proof (cases m)
      case None
      with ih True x show ?thesis by auto
    next
      case (Some y)
      with ih True x show ?thesis by (cases "x > y") auto
    qed
  next
    case False
    then have "(if regular \<and> path_extension name = ''.zip'' then case c of None \<Rightarrow> m | Some current \<Rightarrow>
        (case m of None \<Rightarrow> Some current | Some m \<Rightarrow> if current > m then Some current else Some m) else m) = m"
      by (auto split: option.splits)
    with ih False show ?thesis by auto
  qed
qed

lemma first_delay_le: "first_delay d es now \<le> d"
  by (auto simp: first_delay_def Let_def split: option.splits intro: word_sub_le)

text \<open>When nothing goes wrong an archive is made.\<close>

lemma add_all_ok: "(\<And>p. add p) \<Longrightarrow> add_all add acc fs = (True, acc @ fs)"
  by (induction add acc fs rule: add_all.induct) simp_all

lemma run_archive_succeeds:
  assumes "ae_isDir env" and "ae_setup env" and "ae_open env" and "ae_prune env" and "\<And>p. ae_walCopy env p"
    and "\<And>p. ae_add env p" and "\<And>fs. ae_zip env fs \<noteq> None" and "all_ok (ae_ios env)" and "only_appended env mgr"
  shows "fst (run_archive env retention mgr dir)"
proof -
  let ?rest = "filter (\<lambda>(p, d). filename p \<noteq> ''WAL'') (archive_listing env mgr)"
  have "list_all (\<lambda>(p, n). n \<le> length (ae_later env p)) (map (\<lambda>(p, d). (p, length d)) ?rest)"
    using assms(9) by (auto simp: only_appended_def list_all_iff dest!: prefix_length_le)
  then obtain cs where "copy_all (ae_ios env) (ae_later env) (map (\<lambda>(p, d). (p, length d)) ?rest) = Some cs"
    using copy_all_succeeds [OF assms(8)] by blast
  with assms(1-7) show ?thesis
    by (auto simp: run_archive_def Let_def add_all_ok close_zip_def list_all_iff split: option.splits)
qed

end
