(* ===== verification/CommandLine.thy ===== *)
theory CommandLine
  imports Settings
begin

text \<open>
  The part of \<open>ZestDB::execCmd\<close> that cuts a command into words (\<open>ZestDB.cpp\<close>), with
  \<open>toLowerStr\<close>, \<open>parseUInt\<close> and the scan for \<open>lim <n>\<close>. A word is kept with its offset in the
  trimmed text, because the value of \<open>set\<close> is the rest of the text from the third word on.
\<close>

definition is_ws :: "char \<Rightarrow> bool" where
  "is_ws c \<longleftrightarrow> c = CHR '' '' \<or> c = CHR 0x09 \<or> c = CHR 0x0D \<or> c = CHR 0x0A"

definition is_eol :: "char \<Rightarrow> bool" where
  "is_eol c \<longleftrightarrow> c = CHR 0x0D \<or> c = CHR 0x0A"

text \<open>Leading white space and trailing line ends are dropped; \<open>None\<close> when nothing is left.\<close>

definition trim_command :: "string \<Rightarrow> string option" where
  "trim_command cmd =
     (let sv = dropWhile is_ws cmd in
      if sv = [] then None else Some (rev (dropWhile is_eol (rev sv))))"

function split_words :: "nat \<Rightarrow> string \<Rightarrow> (nat \<times> string) list" where
  "split_words pos s =
     (if s = [] then []
      else let w = takeWhile (\<lambda>c. \<not> is_ws c) s; rest = dropWhile (\<lambda>c. \<not> is_ws c) s in
        if rest = [] then [(pos, w)]
        else let rest1 = dropWhile is_ws rest in
          if rest1 = [] then [(pos, w)]
          else (pos, w) # split_words (pos + length s - length rest1) rest1)"
  by pat_completeness auto
termination
proof (relation "measure (\<lambda>(pos, s). length s)", simp)
  fix pos :: nat and s w rest rest1 :: string
  assume a: "s \<noteq> []" "w = takeWhile (\<lambda>c. \<not> is_ws c) s" "rest = dropWhile (\<lambda>c. \<not> is_ws c) s" "rest \<noteq> []"
    "rest1 = dropWhile is_ws rest" "rest1 \<noteq> []"
  have "is_ws (hd rest)" using hd_dropWhile [of "\<lambda>c. \<not> is_ws c" s] a by auto
  then have "length (dropWhile is_ws rest) < length rest"
    using a(4) by (cases rest) (auto simp: le_imp_less_Suc length_dropWhile_le)
  moreover have "length rest \<le> length s" using a(3) by (simp add: length_dropWhile_le)
  ultimately have "length rest1 < length s" using a(5) by simp
  then show "((pos + length s - length rest1, rest1), pos, s) \<in> measure (\<lambda>(pos, s). length s)" by simp
qed

declare split_words.simps [simp del]

definition words_of :: "string \<Rightarrow> (nat \<times> string) list" where
  "words_of sv = split_words 0 sv"

definition to_lower :: "char \<Rightarrow> char" where
  "to_lower c = (let n = of_char c :: nat in if 65 \<le> n \<and> n \<le> 90 then char_of (n + 32) else c)"

definition toLowerStr :: "string \<Rightarrow> string" where
  "toLowerStr s = map to_lower s"

definition parseUInt32 :: "string \<Rightarrow> u32 option" where
  "parseUInt32 s = map_option of_nat (parse_unsigned (2 ^ 32) s)"

definition parseUInt64 :: "string \<Rightarrow> u64 option" where
  "parseUInt64 s = map_option of_nat (parse_unsigned (2 ^ 64) s)"

text \<open>
  The loop over the words after the pattern: every \<open>lim\<close> with a word after it sets \<open>limitOk\<close>,
  and a number that parses sets \<open>limit\<close>; the last one wins.
\<close>

fun scan_limit :: "string list \<Rightarrow> u32 \<times> bool \<Rightarrow> u32 \<times> bool" where
  "scan_limit [] acc = acc"
| "scan_limit [w] acc = acc"
| "scan_limit (w # x # ws) (lmt, ok) =
     scan_limit (x # ws)
       (if toLowerStr w = ''lim''
        then (case parseUInt32 x of Some n \<Rightarrow> (n, True) | None \<Rightarrow> (lmt, False))
        else (lmt, ok))"

definition find_limit :: "string list \<Rightarrow> u32 \<times> bool" where
  "find_limit ws = scan_limit (drop 3 ws) (UINT_MAX, True)"

definition alias_of :: "string \<Rightarrow> string" where
  "alias_of cmd =
     (case map_of [(''get'', ''g''), (''set'', ''s''), (''del'', ''d''), (''getby'', ''gb''),
                   (''setby'', ''sb''), (''delby'', ''db''), (''flush'', ''f''), (''reload'', ''r''),
                   (''help'', ''h'')] cmd of
        Some a \<Rightarrow> a
      | None \<Rightarrow> cmd)"

section \<open>Words\<close>

definition plain_word :: "string \<Rightarrow> bool" where
  "plain_word w \<longleftrightarrow> w \<noteq> [] \<and> list_all (\<lambda>c. \<not> is_ws c) w"

lemma takeWhile_plain: "list_all (\<lambda>c. \<not> is_ws c) w \<Longrightarrow> takeWhile (\<lambda>c. \<not> is_ws c) (w @ x) = w @ takeWhile (\<lambda>c. \<not> is_ws c) x"
  by (induction w) auto

lemma dropWhile_plain: "list_all (\<lambda>c. \<not> is_ws c) w \<Longrightarrow> dropWhile (\<lambda>c. \<not> is_ws c) (w @ x) = dropWhile (\<lambda>c. \<not> is_ws c) x"
  by (induction w) auto

lemma split_words_end: "plain_word w \<Longrightarrow> split_words pos w = [(pos, w)]"
  using takeWhile_plain [of w "[]"] dropWhile_plain [of w "[]"]
  by (subst split_words.simps) (simp add: plain_word_def Let_def)

lemma split_words_step:
  assumes "plain_word w" and "x \<noteq> []" and "\<not> is_ws (hd x)"
  shows "split_words pos (w @ '' '' @ x) = (pos, w) # split_words (pos + length w + 1) x"
proof -
  have sp: "is_ws (CHR '' '')" by (simp add: is_ws_def)
  have d: "dropWhile is_ws ('' '' @ x) = x" using assms(2,3) sp by (cases x) auto
  have t: "takeWhile (\<lambda>c. \<not> is_ws c) (w @ '' '' @ x) = w"
    using takeWhile_plain [of w "'' '' @ x"] assms(1) sp by (simp add: plain_word_def)
  have r: "dropWhile (\<lambda>c. \<not> is_ws c) (w @ '' '' @ x) = '' '' @ x"
    using dropWhile_plain [of w "'' '' @ x"] assms(1) sp by (simp add: plain_word_def)
  show ?thesis
    by (subst split_words.simps) (use assms(1,2) d t r in \<open>simp add: Let_def plain_word_def\<close>)
qed

lemma split_words_Cons:
  assumes "s \<noteq> []"
  shows "\<exists>w ws. split_words p s = (p, w) # ws"
  unfolding split_words.simps [of p s] Let_def if_not_P [OF assms] by (simp only: split: if_split) blast

text \<open>The first two words of a command line written with single blanks, and where the rest starts.\<close>

lemma words_of_command:
  assumes "plain_word c" and "plain_word k" and "v \<noteq> []" and "\<not> is_ws (hd v)"
  shows "\<exists>w ws. words_of (c @ '' '' @ k @ '' '' @ v)
       = (0, c) # (length c + 1, k) # (length c + length k + 2, w) # ws"
proof -
  obtain y ys where "k = y # ys" "\<not> is_ws y" using assms(2) by (cases k) (auto simp: plain_word_def)
  then have k: "\<not> is_ws (hd (k @ '' '' @ v))" "k @ '' '' @ v \<noteq> []" by simp_all
  obtain w ws where w: "split_words (length c + length k + 2) v = (length c + length k + 2, w) # ws"
    using split_words_Cons [OF assms(3)] by blast
  have "words_of (c @ '' '' @ k @ '' '' @ v) = (0, c) # (length c + 1, k) # split_words (length c + 1 + length k + 1) v"
    unfolding words_of_def split_words_step [OF assms(1) k(2,1)] split_words_step [OF assms(2-4)] by simp
  also have "length c + 1 + length k + 1 = length c + length k + 2" by simp
  finally show ?thesis unfolding w by blast
qed

lemma trim_command_plain:
  assumes "s \<noteq> []" and "\<not> is_ws (hd s)" and "\<not> is_eol (last s)"
  shows "trim_command s = Some s"
proof -
  have "dropWhile is_ws s = s" using assms(1,2) by (cases s) auto
  moreover have "dropWhile is_eol (rev s) = rev s"
  proof (cases "rev s")
    case (Cons x xs)
    moreover have "x = last s" using Cons hd_rev [of s] by simp
    ultimately show ?thesis unfolding Cons using assms(3) by simp
  qed (use assms(1) in simp)
  ultimately show ?thesis using assms(1) by (simp add: trim_command_def)
qed

text \<open>Every word of a trimmed command is non-empty and free of white space.\<close>

lemma split_words_plain:
  "s = [] \<or> \<not> is_ws (hd s) \<Longrightarrow> \<forall>x \<in> set (split_words pos s). plain_word (snd x)"
proof (induction pos s rule: split_words.induct)
  case (1 pos s)
  let ?w = "takeWhile (\<lambda>c. \<not> is_ws c) s" and ?r = "dropWhile (\<lambda>c. \<not> is_ws c) s"
  let ?r1 = "dropWhile is_ws ?r"
  show ?case
  proof (cases "s = []")
    case True
    then show ?thesis by (simp add: split_words.simps)
  next
    case False
    with 1(2) have "plain_word ?w"
      by (cases s) (auto simp: plain_word_def list_all_iff dest: set_takeWhileD)
    note w = this
    have eq: "split_words pos s = (if ?r = [] then [(pos, ?w)] else if ?r1 = [] then [(pos, ?w)]
        else (pos, ?w) # split_words (pos + length s - length ?r1) ?r1)"
      unfolding split_words.simps [of pos s] Let_def if_not_P [OF False] ..
    show ?thesis
    proof (cases "?r = [] \<or> ?r1 = []")
      case True
      then have "split_words pos s = [(pos, ?w)]"
        unfolding eq by (elim disjE) (simp_all only: simp_thms if_True if_cancel)
      with w show ?thesis by (simp only: list.set ball_simps snd_conv simp_thms)
    next
      case more: False
      then have r: "?r \<noteq> []" "?r1 \<noteq> []" by simp_all
      have "\<forall>x \<in> set (split_words (pos + length s - length ?r1) ?r1). plain_word (snd x)"
        by (rule 1(1) [OF False refl refl r(1) refl r(2)]) (rule disjI2, rule hd_dropWhile [OF r(2)])
      with w show ?thesis
        unfolding eq if_not_P [OF r(1)] if_not_P [OF r(2)] by (simp only: list.set ball_simps snd_conv simp_thms)
    qed
  qed
qed

lemma trim_command_hd: "trim_command cmd = Some sv \<Longrightarrow> sv \<noteq> [] \<and> \<not> is_ws (hd sv)"
proof -
  assume "trim_command cmd = Some sv"
  then have sv: "sv = rev (dropWhile is_eol (rev (dropWhile is_ws cmd)))" and ne: "dropWhile is_ws cmd \<noteq> []"
    by (auto simp: trim_command_def Let_def split: if_splits)
  obtain c t where ct: "dropWhile is_ws cmd = c # t" using ne by (cases "dropWhile is_ws cmd") auto
  have c: "\<not> is_ws c" using hd_dropWhile [OF ne] ct by simp
  then have "\<not> is_eol c" by (auto simp: is_eol_def is_ws_def)
  then have "dropWhile is_eol (rev t @ [c]) = dropWhile is_eol (rev t) @ [c]"
    by (simp add: dropWhile_append3)
  then have "sv = c # rev (dropWhile is_eol (rev t))" by (simp add: sv ct)
  with c show ?thesis by simp
qed

lemma words_of_plain:
  assumes "trim_command cmd = Some sv" and "x \<in> set (words_of sv)"
  shows "plain_word (snd x)"
  using split_words_plain [of sv 0] trim_command_hd [OF assms(1)] assms(2) by (auto simp: words_of_def)

lemma words_of_nonempty: "trim_command cmd = Some sv \<Longrightarrow> words_of sv \<noteq> []"
  using split_words_Cons [of sv 0] trim_command_hd [of cmd sv] by (auto simp: words_of_def)

end
