(* ===== verification/Patterns.thy ===== *)
theory Patterns
  imports CommandLine "HOL-Library.Sublist"
begin

text \<open>
  The patterns of the bulk commands (\<open>ZestDB.cpp\<close>): the guard \<open>isRegexTooComplex\<close> that estimates
  how many states a regular expression would need, and \<open>createValidationRule\<close>. Compiling and
  matching a \<open>std::regex\<close> are arguments: \<open>compiles p\<close> is whether the constructor accepts \<open>p\<close>, and
  \<open>re_match p k\<close> whether \<open>k\<close> matches (a match that throws counts as no match).
\<close>

definition maxLength :: nat where "maxLength = 1024"
definition maxDepth :: nat where "maxDepth = 32"
definition maxStates :: u64 where "maxStates = 100000"

text \<open>\<open>from_chars\<close> into a \<open>uint64_t\<close>: the leading digits; what follows them is ignored.\<close>

definition leading_number :: "string \<Rightarrow> u64 option" where
  "leading_number s =
     map_option of_nat (parse_unsigned (2 ^ 64) (takeWhile (\<lambda>c. digit_val c \<noteq> None) s))"

text \<open>The bounds between braces; \<open>None\<close> is the early return \<open>true\<close>.\<close>

function bounds_loop :: "string \<Rightarrow> u64 \<Rightarrow> u64 option" where
  "bounds_loop bounds repeat =
     (if bounds = [] then Some repeat
      else let part = takeWhile (\<lambda>c. c \<noteq> CHR '','') bounds;
               rest = drop (length part + 1) bounds in
        if part = [] then bounds_loop rest (max repeat 0)
        else case leading_number part of
               None \<Rightarrow> None
             | Some v \<Rightarrow> if v > maxStates then None else bounds_loop rest (max repeat v))"
  by pat_completeness auto
termination
  by (relation "measure (\<lambda>(b, r). length b)") auto

declare bounds_loop.simps [simp del]

text \<open>The text after a bracket expression whose inside starts at the argument.\<close>

fun skip_class :: "string \<Rightarrow> string" where
  "skip_class [] = []"
| "skip_class (c # s) = (if c = CHR '']'' then s else if c = CHR 0x5C then skip_class (drop 1 s) else skip_class s)"

definition skip_optional :: "char \<Rightarrow> string \<Rightarrow> string" where
  "skip_optional c s = (case s of [] \<Rightarrow> [] | x # xs \<Rightarrow> if x = c then xs else s)"

lemma length_skip_class: "length (skip_class s) \<le> length s"
  by (induction s rule: skip_class.induct) (auto simp: le_Suc_eq)

lemma length_skip_optional: "length (skip_optional c s) \<le> length s"
  by (simp add: skip_optional_def split: list.splits)

text \<open>
  One character and what it consumes: the rest of the pattern, the costs of the open groups
  (innermost first) and the cost of the last atom. \<open>None\<close> is the early return \<open>true\<close>.
\<close>

definition regex_step :: "char \<Rightarrow> string \<Rightarrow> u64 list \<Rightarrow> u64 \<Rightarrow> (string \<times> u64 list \<times> u64) option" where
  "regex_step c s cost lastAtom =
     (if c = CHR ''('' then (if length cost > maxDepth then None else Some (s, 0 # cost, 0))
      else if c = CHR '')'' \<and> length cost > 1
      then let a = hd cost + 1 in Some (s, (hd (tl cost) + a) # tl (tl cost), a)
      else if c = CHR ''{'' \<and> CHR ''}'' \<in> set s
      then case bounds_loop (takeWhile (\<lambda>x. x \<noteq> CHR ''}'') s) 0 of
             None \<Rightarrow> None
           | Some repeat \<Rightarrow>
               Some (tl (dropWhile (\<lambda>x. x \<noteq> CHR ''}'') s),
                     (hd cost + lastAtom * (if repeat > 0 then repeat - 1 else 0)) # tl cost, lastAtom)
      else if c = CHR ''['' then Some (skip_class (skip_optional CHR '']'' (skip_optional CHR ''^'' s)), (hd cost + 1) # tl cost, 1)
      else Some (if c = CHR 0x5C then drop 1 s else s, (hd cost + 1) # tl cost, 1))"

lemma regex_step_shrinks: "regex_step c s cost la = Some (s', cost', la') \<Longrightarrow> length s' \<le> length s"
  using length_skip_class [of "skip_optional CHR '']'' (skip_optional CHR ''^'' s)"]
    length_skip_optional [of "CHR '']''" "skip_optional CHR ''^'' s"] length_skip_optional [of "CHR ''^''" s]
    length_dropWhile_le [of "\<lambda>x. x \<noteq> CHR ''}''" s]
  by (auto simp: regex_step_def Let_def split: if_splits option.splits)

text \<open>The limit on the cost is checked after every character but an opening bracket.\<close>

function regex_loop :: "string \<Rightarrow> u64 list \<Rightarrow> u64 \<Rightarrow> bool" where
  "regex_loop [] cost la = False"
| "regex_loop (c # s) cost la =
     (case regex_step c s cost la of
        None \<Rightarrow> True
      | Some (s1, cost1, la1) \<Rightarrow>
          if c \<noteq> CHR ''('' \<and> hd cost1 > maxStates then True else regex_loop s1 cost1 la1)"
  by pat_completeness auto
termination
  by (relation "measure (\<lambda>(s, c, l). length s)") (auto dest: regex_step_shrinks simp: le_imp_less_Suc)

declare regex_loop.simps(2) [simp del]

definition isRegexTooComplex :: "string \<Rightarrow> bool" where
  "isRegexTooComplex p = (if length p > maxLength then True else regex_loop p [0] 0)"

text \<open>The search for a back reference: a backslash followed by a digit from 1 to 9.\<close>

fun has_backref :: "string \<Rightarrow> bool" where
  "has_backref (a # b # s) =
     (a = CHR 0x5C \<and> 49 \<le> (of_char b :: nat) \<and> (of_char b :: nat) \<le> 57 \<or> has_backref (b # s))"
| "has_backref _ = False"

fun contains_sub :: "string \<Rightarrow> string \<Rightarrow> bool" where
  "contains_sub pat [] = (pat = [])"
| "contains_sub pat (c # s) = (take (length pat) (c # s) = pat \<or> contains_sub pat s)"

definition createValidationRule ::
  "(string \<Rightarrow> bool) \<Rightarrow> (string \<Rightarrow> string \<Rightarrow> bool) \<Rightarrow> string \<Rightarrow> string \<Rightarrow> (string \<Rightarrow> bool) option" where
  "createValidationRule compiles re_match mode pat =
     (if mode = ''re''
      then if isRegexTooComplex pat \<or> has_backref pat then None
           else if compiles pat then Some (re_match pat) else None
      else if mode = ''sw'' then Some (\<lambda>key. take (length pat) key = pat)
      else if mode = ''ct'' then Some (\<lambda>key. contains_sub pat key)
      else if mode = ''ew''
      then Some (\<lambda>key. length key \<ge> length pat \<and> drop (length key - length pat) key = pat)
      else None)"

section \<open>What the modes mean\<close>

lemma take_is_prefix_iff: "take (length p) k = p \<longleftrightarrow> prefix p k"
  by (metis prefix_def append_eq_conv_conj append_take_drop_id)

lemma contains_sub_iff: "contains_sub p k \<longleftrightarrow> sublist p k"
proof (induction p k rule: contains_sub.induct)
  case (1 p)
  then show ?case by simp
next
  case (2 p c s)
  then show ?case unfolding contains_sub.simps take_is_prefix_iff by (simp add: sublist_Cons_right)
qed

lemma drop_is_suffix_iff: "length k \<ge> length p \<and> drop (length k - length p) k = p \<longleftrightarrow> suffix p k"
proof
  assume "length k \<ge> length p \<and> drop (length k - length p) k = p"
  then show "suffix p k" by (metis suffix_drop)
next
  assume "suffix p k"
  then show "length k \<ge> length p \<and> drop (length k - length p) k = p" by (auto simp: suffix_def)
qed

section \<open>The complexity guard\<close>

text \<open>Groups nested more than \<open>maxDepth\<close> deep are refused, whatever follows.\<close>

lemma regex_loop_parens:
  "0 < n \<Longrightarrow> length cost + n > maxDepth + 1 \<Longrightarrow> regex_loop (replicate n CHR ''('' @ s) cost la"
proof (induction n arbitrary: cost la)
  case 0
  then show ?case by simp
next
  case (Suc n)
  show ?case
  proof (cases "length cost > maxDepth")
    case True
    then show ?thesis by (simp add: regex_loop.simps(2) regex_step_def)
  next
    case False
    with Suc.prems have "0 < n" "length (0 # cost) + n > maxDepth + 1" by auto
    from Suc.IH [OF this, of 0] False show ?thesis
      by (simp add: regex_loop.simps(2) regex_step_def)
  qed
qed

text \<open>A pattern of ordinary characters costs one state each and passes.\<close>

definition ordinary :: "char \<Rightarrow> bool" where
  "ordinary c \<longleftrightarrow> c \<notin> {CHR ''('', CHR '')'', CHR ''{'', CHR ''['', CHR 0x5C}"

lemma regex_loop_ordinary:
  "list_all ordinary s \<Longrightarrow> unat n + length s \<le> 100000 \<Longrightarrow> \<not> regex_loop s [n] la"
proof (induction s arbitrary: n la)
  case Nil
  show ?case by simp
next
  case (Cons c s)
  have u: "unat (n + 1) = unat n + 1" using Cons.prems(2) by (simp add: unat_word_ariths)
  have "\<not> n + 1 > maxStates" using Cons.prems(2) u by (simp add: word_less_nat_alt maxStates_def)
  moreover have "\<not> regex_loop s [n + 1] 1" using Cons.IH [of "n + 1" 1] Cons.prems u by simp
  moreover have "regex_step c s [n] la = Some (s, [n + 1], 1)"
    using Cons.prems(1) by (auto simp: regex_step_def ordinary_def)
  ultimately show ?case by (simp add: regex_loop.simps(2))
qed

text \<open>Inside the loop the counters stay small, so that the 64-bit sums never wrap.\<close>

definition costs_ok :: "u64 list \<Rightarrow> u64 \<Rightarrow> bool" where
  "costs_ok cost la \<longleftrightarrow> cost \<noteq> [] \<and> length cost \<le> maxDepth + 1
     \<and> list_all (\<lambda>x. x \<le> maxStates) cost \<and> la \<le> maxStates + 1"

lemma bounds_loop_bound:
  "bounds_loop b r = Some n \<Longrightarrow> r \<le> maxStates \<Longrightarrow> n \<le> maxStates"
proof (induction b r rule: bounds_loop.induct)
  case (1 b r)
  show ?case
  proof (cases "b = []")
    case True
    with 1(3,4) show ?thesis by (simp add: bounds_loop.simps)
  next
    case False
    let ?p = "takeWhile (\<lambda>c. c \<noteq> CHR '','') b"
    show ?thesis
    proof (cases "?p = []")
      case True
      with False 1(1) [OF False refl refl True] 1(3,4) show ?thesis
        by (subst (asm) bounds_loop.simps) (simp add: Let_def)
    next
      case ne: False
      from 1(3) False ne obtain v where v: "leading_number ?p = Some v" "v \<le> maxStates"
        "bounds_loop (drop (length ?p + 1) b) (max r v) = Some n"
        by (subst (asm) bounds_loop.simps) (auto simp: Let_def not_less split: option.splits if_splits)
      with 1(2) [OF False refl refl ne v(1)] 1(4) show ?thesis by (simp add: not_less)
    qed
  qed
qed

lemma regex_step_costs:
  assumes "costs_ok cost la" and "regex_step c s cost la = Some (s', cost', la')"
    and "c = CHR ''('' \<or> hd cost' \<le> maxStates"
  shows "costs_ok cost' la'"
proof -
  obtain x xs where cost: "cost = x # xs" using assms(1) by (cases cost) (auto simp: costs_ok_def)
  have x: "x + 1 \<le> maxStates + 1" using assms(1)
    by (simp add: costs_ok_def cost maxStates_def word_le_nat_alt unat_word_ariths)
  show ?thesis
    using assms x unfolding cost
    by (cases xs) (auto simp: regex_step_def costs_ok_def Let_def maxDepth_def maxStates_def
        split: if_splits option.splits)
qed

lemma regex_cost_no_wrap:
  assumes "costs_ok (x # xs) la" and "bounds_loop b 0 = Some r"
  shows "unat (x + la * (if r > 0 then r - 1 else 0)) = unat x + unat la * (unat r - 1)"
proof -
  have r: "unat r \<le> 100000"
    using bounds_loop_bound [OF assms(2)] by (simp add: maxStates_def word_le_nat_alt)
  have x: "unat x \<le> 100000" "unat la \<le> 100001"
    using assms(1) by (simp_all add: costs_ok_def maxStates_def word_le_nat_alt)
  define d where "d = (if r > 0 then r - 1 else 0)"
  have d: "unat d = unat r - 1"
    by (cases "r = 0") (auto simp: d_def unat_minus_one word_coorder.not_eq_extremum)
  have m: "unat la * unat d \<le> 100001 * 100000"
    using x(2) r d by (intro mult_le_mono) auto
  then have "unat (la * d) = unat la * unat d" by (simp add: unat_word_ariths)
  moreover from this m x(1) have "unat (x + la * d) = unat x + unat (la * d)"
    by (simp add: unat_word_ariths)
  ultimately show ?thesis unfolding d_def [symmetric] by (simp only: d)
qed

text \<open>
  The same estimate over the natural numbers, where no sum and no product can wrap. The guard
  computes exactly this one.
\<close>

definition exact_step :: "char \<Rightarrow> string \<Rightarrow> nat list \<Rightarrow> nat \<Rightarrow> (string \<times> nat list \<times> nat) option" where
  "exact_step c s cost lastAtom =
     (if c = CHR ''('' then (if length cost > maxDepth then None else Some (s, 0 # cost, 0))
      else if c = CHR '')'' \<and> length cost > 1
      then let a = hd cost + 1 in Some (s, (hd (tl cost) + a) # tl (tl cost), a)
      else if c = CHR ''{'' \<and> CHR ''}'' \<in> set s
      then case bounds_loop (takeWhile (\<lambda>x. x \<noteq> CHR ''}'') s) 0 of
             None \<Rightarrow> None
           | Some repeat \<Rightarrow>
               Some (tl (dropWhile (\<lambda>x. x \<noteq> CHR ''}'') s),
                     (hd cost + lastAtom * (unat repeat - 1)) # tl cost, lastAtom)
      else if c = CHR ''['' then Some (skip_class (skip_optional CHR '']'' (skip_optional CHR ''^'' s)), (hd cost + 1) # tl cost, 1)
      else Some (if c = CHR 0x5C then drop 1 s else s, (hd cost + 1) # tl cost, 1))"

lemma exact_step_shrinks: "exact_step c s cost la = Some (s', cost', la') \<Longrightarrow> length s' \<le> length s"
  using length_skip_class [of "skip_optional CHR '']'' (skip_optional CHR ''^'' s)"]
    length_skip_optional [of "CHR '']''" "skip_optional CHR ''^'' s"] length_skip_optional [of "CHR ''^''" s]
    length_dropWhile_le [of "\<lambda>x. x \<noteq> CHR ''}''" s]
  by (auto simp: exact_step_def Let_def split: if_splits option.splits)

function exact_loop :: "string \<Rightarrow> nat list \<Rightarrow> nat \<Rightarrow> bool" where
  "exact_loop [] cost la = False"
| "exact_loop (c # s) cost la =
     (case exact_step c s cost la of
        None \<Rightarrow> True
      | Some (s1, cost1, la1) \<Rightarrow>
          if c \<noteq> CHR ''('' \<and> hd cost1 > unat maxStates then True else exact_loop s1 cost1 la1)"
  by pat_completeness auto
termination
  by (relation "measure (\<lambda>(s, c, l). length s)") (auto dest: exact_step_shrinks simp: le_imp_less_Suc)

declare exact_loop.simps(2) [simp del]

definition exactly_too_complex :: "string \<Rightarrow> bool" where
  "exactly_too_complex p = (length p > maxLength \<or> exact_loop p [0] 0)"

lemma unat_small_sum:
  "unat (x :: u64) \<le> 200002 \<Longrightarrow> unat (y :: u64) \<le> 200002 \<Longrightarrow> unat (x + y) = unat x + unat y"
  by (simp add: unat_word_ariths)

lemma exact_step_eq:
  assumes "costs_ok cost la"
  shows "exact_step c s (map unat cost) (unat la)
     = map_option (\<lambda>(s', cost', la'). (s', map unat cost', unat la')) (regex_step c s cost la)"
proof -
  obtain x xs where cost: "cost = x # xs" using assms by (cases cost) (auto simp: costs_ok_def)
  have x: "unat x \<le> 100000" using assms by (simp add: costs_ok_def cost maxStates_def word_le_nat_alt)
  have x1: "unat (x + 1) = unat x + 1" using x unat_small_sum [of x 1] by simp
  have p: "unat (y + (x + 1)) = unat y + (unat x + 1)" if "xs = y # ys" for y ys
  proof -
    have "unat y \<le> 100000" using assms that by (simp add: costs_ok_def cost maxStates_def word_le_nat_alt)
    then show ?thesis using x x1 unat_small_sum [of y "x + 1"] by simp
  qed
  have m: "unat (x + la * (if r > 0 then r - 1 else 0)) = unat x + unat la * (unat r - 1)"
    if "bounds_loop b 0 = Some r" for b r
    using regex_cost_no_wrap [OF assms [unfolded cost] that] .
  show ?thesis
    unfolding cost regex_step_def exact_step_def
    by (cases xs) (simp_all add: Let_def x1 p m split: option.splits)
qed

lemma exact_loop_eq: "costs_ok cost la \<Longrightarrow> exact_loop s (map unat cost) (unat la) = regex_loop s cost la"
proof (induction s cost la rule: regex_loop.induct)
  case (1 cost la)
  then show ?case by simp
next
  case (2 c s cost la)
  note e = exact_step_eq [OF 2(2), of c s]
  show ?case
  proof (cases "regex_step c s cost la")
    case None
    with e show ?thesis by (simp add: regex_loop.simps(2) exact_loop.simps(2))
  next
    case (Some t)
    obtain s1 cost1 la1 where t: "t = (s1, cost1, la1)" by (cases t)
    have ne: "cost1 \<noteq> []" using 2(2) Some t
      by (auto simp: regex_step_def Let_def split: if_splits option.splits)
    then have h: "unat (hd cost1) > unat maxStates \<longleftrightarrow> hd cost1 > maxStates" "hd (map unat cost1) = unat (hd cost1)"
      by (simp_all add: word_less_nat_alt hd_map)
    show ?thesis
    proof (cases "c \<noteq> CHR ''('' \<and> hd cost1 > maxStates")
      case True
      with e Some t h show ?thesis by (simp add: regex_loop.simps(2) exact_loop.simps(2))
    next
      case False
      then have "costs_ok cost1 la1" using regex_step_costs [OF 2(2)] Some t by (auto simp: not_less)
      from 2(1) [OF Some t [symmetric] refl False this] False e Some t h show ?thesis
        by (auto simp: regex_loop.simps(2) exact_loop.simps(2))
    qed
  qed
qed

lemma isRegexTooComplex_exact: "isRegexTooComplex p = exactly_too_complex p"
  using exact_loop_eq [of "[0]" 0 p]
  by (simp add: isRegexTooComplex_def exactly_too_complex_def costs_ok_def)

end
