(* ===== verification/Config.thy ===== *)
theory Config
  imports Settings CommandLine Json IndexManager
begin

text \<open>
  The configuration (\<open>ZestDB.cpp\<close>): \<open>loadConfig\<close> with its checks, \<open>reloadConfig\<close>'s comparison,
  \<open>setConfig\<close>, \<open>getConfig\<close> and the parameters of \<open>scfg\<close>.

  The YAML library \<open>lib/node.hpp\<close> is represented by what it answers for each key: absent or null,
  a value of the wrong type (\<open>get_value\<close> throws), or a value. \<open>compiles\<close> says which regular
  expressions \<open>std::regex\<close> accepts and \<open>sha\<close> is \<open>sha256\<close>.
\<close>

datatype 'a cfg = Absent | Wrong | Given 'a

text \<open>\<open>getOr\<close>; \<open>None\<close> is the exception.\<close>

definition getOr :: "'a cfg \<Rightarrow> 'a \<Rightarrow> 'a option" where
  "getOr c d = (case c of Absent \<Rightarrow> Some d | Wrong \<Rightarrow> None | Given x \<Rightarrow> Some x)"

record UserNode =
  un_user :: "string cfg"
  un_role :: "string cfg"
  un_tokenHash :: "string cfg"
  un_password :: "string cfg"

record ConfigNode =
  n_DbPath :: "string cfg"
  n_SegSize :: "u64 cfg"
  n_MaxKeySize :: "u32 cfg"
  n_MaxValueSize :: "u32 cfg"
  n_CacheSize :: "u32 cfg"
  n_CompactingInterval :: "u32 cfg"
  n_FlushInterval :: "u32 cfg"
  n_DBPort :: "int cfg"
  n_WebPort :: "int cfg"
  n_NetworkValidation :: "string cfg"
  n_isDebug :: "bool cfg"
  n_jsonOnly :: "bool cfg"
  n_readOnly :: "bool cfg"
  n_fsyncOnWrite :: "bool cfg"
  n_useSSL :: "bool cfg"
  n_SSLCertPath :: "string cfg"
  n_SSLKeyPath :: "string cfg"
  n_ArchiveStoragePath :: "string cfg"
  n_ArchiveCreationDelay :: "u32 cfg"
  n_AutoArchiveSaving :: "bool cfg"
  n_ArchiveRetention :: "u32 cfg"
  n_MaxConnections :: "u32 cfg"
  n_AuthTimeout :: "u32 cfg"
  n_IdleTimeout :: "u32 cfg"
  n_users :: "UserNode list cfg"

record UserEntry =
  tokenHash :: string
  ue_role :: Role

definition parseRole :: "string \<Rightarrow> Role option" where
  "parseRole name =
     (if name = ''read'' then Some Read else if name = ''write'' then Some Write
      else if name = ''admin'' then Some Admin else None)"

text \<open>\<open>user_node["x"].get_value\<close> without a default: anything but a value throws.\<close>

definition must :: "'a cfg \<Rightarrow> 'a option" where
  "must c = (case c of Given x \<Rightarrow> Some x | _ \<Rightarrow> None)"

definition parse_user :: "(string \<Rightarrow> string) \<Rightarrow> UserNode \<Rightarrow> (string \<times> UserEntry) option" where
  "parse_user sha u =
     (case must (un_user u) of
        None \<Rightarrow> None
      | Some name \<Rightarrow>
          (case (if un_role u = Absent then Some ''write'' else must (un_role u)) of
             None \<Rightarrow> None
           | Some roleName \<Rightarrow>
               (case parseRole roleName of
                  None \<Rightarrow> None
                | Some role \<Rightarrow>
                    map_option (\<lambda>h. (name, \<lparr>tokenHash = h, ue_role = role\<rparr>))
                      (if un_tokenHash u = Absent
                       then map_option (\<lambda>p. sha (sha (name @ p))) (must (un_password u))
                       else must (un_tokenHash u)))))"

fun parse_users :: "(string \<Rightarrow> string) \<Rightarrow> UserNode list \<Rightarrow> (string \<times> UserEntry) list \<Rightarrow> (string \<times> UserEntry) list option" where
  "parse_users sha [] acc = Some acc"
| "parse_users sha (u # us) acc =
     (case parse_user sha u of None \<Rightarrow> None | Some (k, e) \<Rightarrow> parse_users sha us (AList.update k e acc))"

definition default_path :: "string \<Rightarrow> string \<Rightarrow> string" where
  "default_path cwd name = (if cwd \<noteq> [] \<and> last cwd = CHR ''/'' then cwd @ name else cwd @ ''/'' @ name)"

text \<open>The block that reads the node, up to the checks on single values; \<open>None\<close> is any exception.\<close>

definition read_node :: "string \<Rightarrow> ConfigNode \<Rightarrow> Settings option" where
  "read_node cwd n =
     (case (getOr (n_DbPath n) cwd, getOr (n_SegSize n) 128000, getOr (n_MaxKeySize n) 64,
            getOr (n_MaxValueSize n) 10000, getOr (n_CacheSize n) 1000, getOr (n_CompactingInterval n) 3600,
            getOr (n_FlushInterval n) 120, getOr (n_DBPort n) 7321, getOr (n_WebPort n) 1237,
            getOr (n_NetworkValidation n) ''.*'') of
        (Some dbPath, Some segSize, Some maxKey, Some maxVal, Some cache, Some compacting, Some flush,
         Some dbPort, Some webPort, Some net) \<Rightarrow>
          if dbPort < 1 \<or> dbPort > 65535 \<or> webPort < 1 \<or> webPort > 65535 then None
          else (case (getOr (n_isDebug n) False, getOr (n_jsonOnly n) False, getOr (n_readOnly n) False,
                      getOr (n_fsyncOnWrite n) True, getOr (n_useSSL n) False, getOr (n_SSLCertPath n) '''',
                      getOr (n_SSLKeyPath n) '''', getOr (n_ArchiveStoragePath n) (default_path cwd ''archive/''),
                      getOr (n_ArchiveCreationDelay n) 3600, getOr (n_AutoArchiveSaving n) True,
                      getOr (n_ArchiveRetention n) 10, getOr (n_MaxConnections n) 1024,
                      getOr (n_AuthTimeout n) 10, getOr (n_IdleTimeout n) 300) of
                  (Some dbg, Some jso, Some ro, Some fsy, Some ssl, Some cert, Some key, Some arch, Some delay,
                   Some auto, Some ret, Some maxc, Some aut, Some idl) \<Rightarrow>
                    Some \<lparr>DbPath = dbPath, IndexPath = '''', WalPath = '''', SSLCertPath = cert, SSLKeyPath = key,
                          ArchiveStoragePath = arch, SegSize = segSize, MaxKeySize = maxKey, MaxValueSize = maxVal,
                          CacheSize = cache, CompactingInterval = compacting, FlushInterval = flush,
                          DBPort = of_int dbPort, WebPort = of_int webPort,
                          NetworkValidationStr = (if net = [] then ''.*'' else net),
                          ArchiveCreationDelay = delay, ArchiveRetention = ret, MaxConnections = maxc,
                          AuthTimeout = aut, IdleTimeout = idl, AutoArchiveSaving = auto, isDebug = dbg,
                          useSSL = ssl, jsonOnly = jso, readOnly = ro, fsyncOnWrite = fsy\<rparr>
                | _ \<Rightarrow> None)
      | _ \<Rightarrow> None)"

definition clamp_key_size :: "Settings \<Rightarrow> Settings" where
  "clamp_key_size s = (if MaxKeySize s > of_nat MAX_KEY_SIZE then s\<lparr>MaxKeySize := of_nat MAX_KEY_SIZE\<rparr> else s)"

definition has_zero :: "Settings \<Rightarrow> bool" where
  "has_zero s \<longleftrightarrow> FlushInterval s = 0 \<or> CompactingInterval s = 0 \<or> ArchiveCreationDelay s = 0
     \<or> AuthTimeout s = 0 \<or> IdleTimeout s = 0 \<or> MaxConnections s = 0"

text \<open>\<open>loadConfig\<close> on the node of \<open>config.yaml\<close>; \<open>None\<close> as node is a missing or unreadable file.\<close>

definition loadConfig ::
  "(string \<Rightarrow> bool) \<Rightarrow> (string \<Rightarrow> string) \<Rightarrow> string \<Rightarrow> ConfigNode option
     \<Rightarrow> (Settings \<times> (string \<times> UserEntry) list) option" where
  "loadConfig compiles sha cwd node =
     (case node of
        None \<Rightarrow> None
      | Some n \<Rightarrow>
          (case read_node cwd n of
             None \<Rightarrow> None
           | Some s \<Rightarrow>
               if useSSL s \<and> (SSLCertPath s = '''' \<or> SSLKeyPath s = '''') then None
               else if \<not> compiles (NetworkValidationStr s) then None
               else (case (case n_users n of Given us \<Rightarrow> parse_users sha us [] | _ \<Rightarrow> Some []) of
                       None \<Rightarrow> None
                     | Some users \<Rightarrow>
                         if ucast (MaxValueSize s) \<ge> SegSize s then None
                         else let s1 = clamp_key_size s in
                           if has_zero s1 then None
                           else if DBPort s1 = WebPort s1 then None
                           else Some (s1, users))))"

text \<open>What \<open>reloadConfig\<close> refuses to change while the database runs.\<close>

definition paths_changed :: "Settings \<Rightarrow> Settings \<Rightarrow> bool" where
  "paths_changed s old \<longleftrightarrow> DbPath s \<noteq> DbPath old \<or> ArchiveStoragePath s \<noteq> ArchiveStoragePath old
     \<or> IndexPath s \<noteq> IndexPath old \<or> WalPath s \<noteq> WalPath old \<or> SSLCertPath s \<noteq> SSLCertPath old
     \<or> SSLKeyPath s \<noteq> SSLKeyPath old"

definition network_changed :: "Settings \<Rightarrow> Settings \<Rightarrow> bool" where
  "network_changed s old \<longleftrightarrow> useSSL s \<noteq> useSSL old \<or> DBPort s \<noteq> DBPort old \<or> WebPort s \<noteq> WebPort old
     \<or> MaxConnections s \<noteq> MaxConnections old \<or> AuthTimeout s \<noteq> AuthTimeout old \<or> IdleTimeout s \<noteq> IdleTimeout old"

text \<open>\<open>setConfig\<close> writes every setting into the node and leaves the users alone.\<close>

definition setConfig :: "Settings \<Rightarrow> ConfigNode \<Rightarrow> ConfigNode" where
  "setConfig s n =
     \<lparr>n_DbPath = Given (DbPath s), n_SegSize = Given (SegSize s), n_MaxKeySize = Given (MaxKeySize s),
      n_MaxValueSize = Given (MaxValueSize s), n_CacheSize = Given (CacheSize s),
      n_CompactingInterval = Given (CompactingInterval s), n_FlushInterval = Given (FlushInterval s),
      n_DBPort = Given (uint (DBPort s)), n_WebPort = Given (uint (WebPort s)),
      n_NetworkValidation = Given (NetworkValidationStr s), n_isDebug = Given (isDebug s),
      n_jsonOnly = Given (jsonOnly s), n_readOnly = Given (readOnly s), n_fsyncOnWrite = Given (fsyncOnWrite s),
      n_useSSL = Given (useSSL s), n_SSLCertPath = Given (SSLCertPath s), n_SSLKeyPath = Given (SSLKeyPath s),
      n_ArchiveStoragePath = Given (ArchiveStoragePath s), n_ArchiveCreationDelay = Given (ArchiveCreationDelay s),
      n_AutoArchiveSaving = Given (AutoArchiveSaving s), n_ArchiveRetention = Given (ArchiveRetention s),
      n_MaxConnections = Given (MaxConnections s), n_AuthTimeout = Given (AuthTimeout s),
      n_IdleTimeout = Given (IdleTimeout s), n_users = n_users n\<rparr>"

definition getConfig :: "Settings \<Rightarrow> json" where
  "getConfig s = JObj
     [(''DbPath'', JStr (DbPath s)), (''ArchiveStoragePath'', JStr (ArchiveStoragePath s)),
      (''SegSize'', JInt (uint (SegSize s))), (''MaxKeySize'', JInt (uint (MaxKeySize s))),
      (''MaxValueSize'', JInt (uint (MaxValueSize s))), (''CacheSize'', JInt (uint (CacheSize s))),
      (''CompactingInterval'', JInt (uint (CompactingInterval s))), (''FlushInterval'', JInt (uint (FlushInterval s))),
      (''DBPort'', JInt (uint (DBPort s))), (''WebPort'', JInt (uint (WebPort s))),
      (''NetworkValidation'', JStr (NetworkValidationStr s)), (''isDebug'', JBool (isDebug s)),
      (''jsonOnly'', JBool (jsonOnly s)), (''readOnly'', JBool (readOnly s)), (''fsyncOnWrite'', JBool (fsyncOnWrite s)),
      (''useSSL'', JBool (useSSL s)), (''SSLCertPath'', JStr (SSLCertPath s)), (''SSLKeyPath'', JStr (SSLKeyPath s)),
      (''ArchiveCreationDelay'', JInt (uint (ArchiveCreationDelay s))),
      (''AutoArchiveSaving'', JBool (AutoArchiveSaving s)), (''ArchiveRetention'', JInt (uint (ArchiveRetention s))),
      (''MaxConnections'', JInt (uint (MaxConnections s))), (''AuthTimeout'', JInt (uint (AuthTimeout s))),
      (''IdleTimeout'', JInt (uint (IdleTimeout s)))]"

section \<open>The parameters of \<open>scfg\<close>\<close>

definition parse_flag :: "string \<Rightarrow> bool option" where
  "parse_flag v = (if v = ''true'' \<or> v = ''1'' then Some True else if v = ''false'' \<or> v = ''0'' then Some False else None)"

definition positive :: "string \<Rightarrow> u32 option" where
  "positive v = (case parseUInt32 v of Some n \<Rightarrow> if n = 0 then None else Some n | None \<Rightarrow> None)"

text \<open>\<open>Inl\<close> is the message of an early return, \<open>Inr\<close> the settings with the parameter changed. \<open>what\<close> is
  the text with which \<open>std::regex\<close> explains why it refuses a pattern.\<close>

definition scfg :: "(string \<Rightarrow> bool) \<Rightarrow> (string \<Rightarrow> string) \<Rightarrow> string \<Rightarrow> string \<Rightarrow> Settings \<Rightarrow> string + Settings" where
  "scfg compiles what param v s =
     (if param = ''segsize''
      then (case parseUInt64 v of
              None \<Rightarrow> Inl ''Invalid SegSize value''
            | Some n \<Rightarrow> if n \<le> ucast (MaxValueSize s) then Inl ''SegSize must be greater than MaxValueSize''
                        else Inr (s\<lparr>SegSize := n\<rparr>))
      else if param = ''maxkeysize''
      then (case parseUInt32 v of
              None \<Rightarrow> Inl ''Invalid MaxKeySize value''
            | Some n \<Rightarrow> if unat n > MAX_KEY_SIZE then Inl (''MaxKeySize cannot exceed '' @ show_nat MAX_KEY_SIZE)
                        else Inr (s\<lparr>MaxKeySize := n\<rparr>))
      else if param = ''maxvaluesize''
      then (case parseUInt32 v of
              None \<Rightarrow> Inl ''Invalid MaxValueSize value''
            | Some n \<Rightarrow> if ucast n \<ge> SegSize s then Inl ''MaxValueSize must be less than SegSize''
                        else Inr (s\<lparr>MaxValueSize := n\<rparr>))
      else if param = ''cachesize''
      then (case parseUInt32 v of None \<Rightarrow> Inl ''Invalid CacheSize value'' | Some n \<Rightarrow> Inr (s\<lparr>CacheSize := n\<rparr>))
      else if param = ''compactinginterval''
      then (case positive v of None \<Rightarrow> Inl ''Invalid CompactingInterval value (at least 1 second)''
            | Some n \<Rightarrow> Inr (s\<lparr>CompactingInterval := n\<rparr>))
      else if param = ''flushinterval''
      then (case positive v of None \<Rightarrow> Inl ''Invalid FlushInterval value (at least 1 second)''
            | Some n \<Rightarrow> Inr (s\<lparr>FlushInterval := n\<rparr>))
      else if param = ''networkvalidationstr''
      then (if compiles v then Inr (s\<lparr>NetworkValidationStr := v\<rparr>) else Inl (''Invalid regex: '' @ what v))
      else if param = ''isdebug''
      then (case parse_flag v of None \<Rightarrow> Inl ''Invalid isDebug value (use true/false or 0/1)''
            | Some b \<Rightarrow> Inr (s\<lparr>isDebug := b\<rparr>))
      else if param = ''usessl'' then Inl ''useSSL cannot be changed at runtime: edit config.yaml and restart''
      else if param = ''jsononly''
      then (case parse_flag v of None \<Rightarrow> Inl ''Invalid jsonOnly value (use true/false or 0/1)''
            | Some b \<Rightarrow> Inr (s\<lparr>jsonOnly := b\<rparr>))
      else if param = ''readonly''
      then (case parse_flag v of None \<Rightarrow> Inl ''Invalid readOnly value (use true/false or 0/1)''
            | Some b \<Rightarrow> Inr (s\<lparr>readOnly := b\<rparr>))
      else if param = ''archivecreationdelay''
      then (case positive v of None \<Rightarrow> Inl ''Invalid ArchiveCreationDelay value (at least 1 second)''
            | Some n \<Rightarrow> Inr (s\<lparr>ArchiveCreationDelay := n\<rparr>))
      else if param = ''autoarchivesaving''
      then (case parse_flag v of None \<Rightarrow> Inl ''Invalid AutoArchiveSaving value (use true/false or 0/1)''
            | Some b \<Rightarrow> Inr (s\<lparr>AutoArchiveSaving := b\<rparr>))
      else Inl (''Unknown parameter: '' @ param))"

section \<open>Settings that the database accepts\<close>

definition settings_ok :: "(string \<Rightarrow> bool) \<Rightarrow> Settings \<Rightarrow> bool" where
  "settings_ok compiles s \<longleftrightarrow>
     ucast (MaxValueSize s) < SegSize s \<and> unat (MaxKeySize s) \<le> MAX_KEY_SIZE \<and> \<not> has_zero s
     \<and> DBPort s \<noteq> WebPort s \<and> DBPort s \<noteq> 0 \<and> WebPort s \<noteq> 0
     \<and> (useSSL s \<longrightarrow> SSLCertPath s \<noteq> '''' \<and> SSLKeyPath s \<noteq> '''')
     \<and> compiles (NetworkValidationStr s) \<and> NetworkValidationStr s \<noteq> ''''
     \<and> IndexPath s = '''' \<and> WalPath s = ''''"

lemma of_int_port:
  assumes "1 \<le> i" and "i \<le> 65535"
  shows "(of_int i :: u16) \<noteq> 0" and "uint (of_int i :: u16) = i"
proof -
  show u: "uint (of_int i :: u16) = i" using assms by (simp add: uint_word_of_int)
  show "(of_int i :: u16) \<noteq> 0"
  proof
    assume "(of_int i :: u16) = 0"
    with u have "i = 0" by (simp only: unsigned_0)
    with assms(1) show False by simp
  qed
qed

lemma read_node_ok:
  assumes "read_node cwd n = Some s"
  shows "DBPort s \<noteq> 0" "WebPort s \<noteq> 0" "NetworkValidationStr s \<noteq> ''''" "IndexPath s = ''''" "WalPath s = ''''"
  using assms
  by (auto simp: read_node_def of_int_port split: option.splits if_splits)

lemma clamp_key_size_simps [simp]:
  "unat (MaxKeySize (clamp_key_size s)) \<le> MAX_KEY_SIZE"
  "MaxValueSize (clamp_key_size s) = MaxValueSize s" "SegSize (clamp_key_size s) = SegSize s"
  "DBPort (clamp_key_size s) = DBPort s" "WebPort (clamp_key_size s) = WebPort s"
  "useSSL (clamp_key_size s) = useSSL s" "SSLCertPath (clamp_key_size s) = SSLCertPath s"
  "SSLKeyPath (clamp_key_size s) = SSLKeyPath s" "NetworkValidationStr (clamp_key_size s) = NetworkValidationStr s"
  "IndexPath (clamp_key_size s) = IndexPath s" "WalPath (clamp_key_size s) = WalPath s"
  by (auto simp: clamp_key_size_def MAX_KEY_SIZE_def word_less_nat_alt not_less)

lemma loadConfig_settings_ok:
  assumes "loadConfig compiles sha cwd node = Some (s, users)"
  shows "settings_ok compiles s"
proof -
  obtain n s0 where n: "node = Some n" "read_node cwd n = Some s0" and s: "s = clamp_key_size s0"
    and c: "\<not> (useSSL s0 \<and> (SSLCertPath s0 = '''' \<or> SSLKeyPath s0 = ''''))" "compiles (NetworkValidationStr s0)"
      "\<not> ucast (MaxValueSize s0) \<ge> SegSize s0" "\<not> has_zero s" "DBPort s0 \<noteq> WebPort s0"
    using assms by (auto simp: loadConfig_def Let_def split: option.splits if_splits)
  from read_node_ok [OF n(2)] c show ?thesis by (simp add: settings_ok_def s not_le)
qed

lemma positive_Some: "positive v = Some n \<Longrightarrow> n \<noteq> 0"
  by (auto simp: positive_def split: option.splits if_splits)

lemma case_option_Inr_iff:
  "(case x of None \<Rightarrow> Inl a | Some n \<Rightarrow> Inr (f n)) = Inr r \<longleftrightarrow> (\<exists>n. x = Some n \<and> r = f n)"
  "(case x of None \<Rightarrow> Inl a | Some n \<Rightarrow> if P n then Inl (b n) else Inr (f n)) = Inr r
     \<longleftrightarrow> (\<exists>n. x = Some n \<and> \<not> P n \<and> r = f n)"
  by (auto split: option.splits)

text \<open>The changes that a successful \<open>scfg\<close> can make.\<close>

definition scfg_change :: "(string \<Rightarrow> bool) \<Rightarrow> string \<Rightarrow> Settings \<Rightarrow> Settings \<Rightarrow> bool" where
  "scfg_change compiles v s s' \<longleftrightarrow>
     (\<exists>n. \<not> n \<le> ucast (MaxValueSize s) \<and> s' = s\<lparr>SegSize := n\<rparr>)
     \<or> (\<exists>n. \<not> unat n > MAX_KEY_SIZE \<and> s' = s\<lparr>MaxKeySize := n\<rparr>)
     \<or> (\<exists>n. \<not> ucast n \<ge> SegSize s \<and> s' = s\<lparr>MaxValueSize := n\<rparr>)
     \<or> (\<exists>n. s' = s\<lparr>CacheSize := n\<rparr>)
     \<or> (\<exists>n. n \<noteq> 0 \<and> s' = s\<lparr>CompactingInterval := n\<rparr>) \<or> (\<exists>n. n \<noteq> 0 \<and> s' = s\<lparr>FlushInterval := n\<rparr>)
     \<or> (\<exists>n. n \<noteq> 0 \<and> s' = s\<lparr>ArchiveCreationDelay := n\<rparr>)
     \<or> compiles v \<and> s' = s\<lparr>NetworkValidationStr := v\<rparr>
     \<or> (\<exists>b. s' = s\<lparr>isDebug := b\<rparr>) \<or> (\<exists>b. s' = s\<lparr>jsonOnly := b\<rparr>) \<or> (\<exists>b. s' = s\<lparr>readOnly := b\<rparr>)
     \<or> (\<exists>b. s' = s\<lparr>AutoArchiveSaving := b\<rparr>)"

lemma if_param_elim:
  "(if (p :: string) = t then a else b) = x \<Longrightarrow> (a = x \<Longrightarrow> R) \<Longrightarrow> (b = x \<Longrightarrow> R) \<Longrightarrow> R"
  by (cases "p = t") simp_all

lemma scfg_changes:
  assumes "scfg compiles what param v s = Inr s'"
  shows "scfg_change compiles v s s'"
proof -
  have "compiles v \<and> s' = t" if "(if compiles v then Inr t else Inl m) = (Inr s' :: string + Settings)" for t m
    using that by (simp split: if_splits)
  then show ?thesis
    using assms unfolding scfg_def scfg_change_def
    by (elim if_param_elim) (simp_all only: case_option_Inr_iff sum.distinct, (blast dest: positive_Some)+)
qed

lemma scfg_settings_ok:
  assumes "settings_ok compiles s" and "scfg compiles what param v s = Inr s'" and "v \<noteq> ''''"
  shows "settings_ok compiles s'"
  using scfg_changes [OF assms(2)] assms(1,3) unfolding scfg_change_def settings_ok_def has_zero_def
  by (elim disjE exE conjE) (simp_all add: not_le not_less)

lemma scfg_keeps_fixed:
  assumes "scfg compiles what param v s = Inr s'"
  shows "\<not> paths_changed s' s \<and> \<not> network_changed s' s"
  using scfg_changes [OF assms] unfolding scfg_change_def paths_changed_def network_changed_def
  by (elim disjE exE conjE) simp_all

text \<open>Writing the settings back and loading them again gives the same settings.\<close>

lemma port_range: "(p :: u16) \<noteq> 0 \<Longrightarrow> 1 \<le> uint p \<and> uint p \<le> 65535"
proof -
  assume "p \<noteq> 0"
  then have "uint p \<noteq> 0" by (simp add: word_uint_eq_iff [of p 0])
  moreover have "0 \<le> uint p" by (rule unsigned_greater_eq)
  moreover have "uint p < 65536" using unsigned_less [of p] by simp
  ultimately show ?thesis by linarith
qed

lemma read_node_setConfig:
  assumes "settings_ok compiles s"
  shows "read_node cwd (setConfig s n) = Some s"
  using assms port_range [of "DBPort s"] port_range [of "WebPort s"]
  by (auto simp: read_node_def setConfig_def getOr_def settings_ok_def)

lemma setConfig_loadConfig:
  assumes "settings_ok compiles s"
    and "(case n_users n of Given us \<Rightarrow> parse_users sha us [] | _ \<Rightarrow> Some []) = Some users"
  shows "loadConfig compiles sha cwd (Some (setConfig s n)) = Some (s, users)"
proof -
  have "clamp_key_size s = s"
    using assms(1) by (simp add: clamp_key_size_def settings_ok_def MAX_KEY_SIZE_def word_less_nat_alt)
  moreover have "n_users (setConfig s n) = n_users n" by (simp add: setConfig_def)
  ultimately show ?thesis
    using read_node_setConfig [OF assms(1), of cwd n] assms
    by (auto simp: loadConfig_def settings_ok_def Let_def not_le)
qed

text \<open>A sequence of \<open>scfg\<close> commands; a refused one changes nothing.\<close>

fun scfgs :: "(string \<Rightarrow> bool) \<Rightarrow> (string \<Rightarrow> string) \<Rightarrow> (string \<times> string) list \<Rightarrow> Settings \<Rightarrow> Settings" where
  "scfgs compiles what [] s = s"
| "scfgs compiles what ((param, v) # cs) s =
     scfgs compiles what cs (case scfg compiles what param v s of Inl message \<Rightarrow> s | Inr s1 \<Rightarrow> s1)"

lemma scfgs_settings_ok:
  "settings_ok compiles s \<Longrightarrow> list_all (\<lambda>(param, v). v \<noteq> '''') cs \<Longrightarrow> settings_ok compiles (scfgs compiles what cs s)"
proof (induction compiles what cs s rule: scfgs.induct)
  case (2 compiles what param v cs s)
  have "settings_ok compiles (case scfg compiles what param v s of Inl message \<Rightarrow> s | Inr s1 \<Rightarrow> s1)"
    using 2(2,3) scfg_settings_ok [of compiles s what param v] by (simp split: sum.splits)
  with 2 show ?case by simp
qed simp

lemma scfgs_fixed:
  "\<not> paths_changed (scfgs compiles what cs s) s \<and> \<not> network_changed (scfgs compiles what cs s) s"
proof (induction compiles what cs s rule: scfgs.induct)
  case (1 compiles what s)
  then show ?case by (simp add: paths_changed_def network_changed_def)
next
  case (2 compiles what param v cs s)
  then show ?case
    using scfg_keeps_fixed [of compiles what param v s]
    by (cases "scfg compiles what param v s") (auto simp: paths_changed_def network_changed_def)
qed

end
