(* ===== verification/Auth.thy ===== *)
theory Auth
  imports Config
begin

text \<open>
  Authentication (\<open>ZestDB.cpp\<close>): the check of a token against the stored hash, the role of a user,
  and the lockout after repeated failures. \<open>sha\<close> is \<open>sha256\<close>; \<open>CRYPTO_memcmp\<close> on strings of equal
  length decides equality. Instants of the steady clock are natural numbers of nanoseconds, and a
  new entry of \<open>authFailures\<close> holds the epoch, instant 0.

  The lockout is compared with a specification that only looks at the history of attempts.
\<close>

definition authenticate :: "(string \<Rightarrow> string) \<Rightarrow> (string \<times> UserEntry) list \<Rightarrow> string \<Rightarrow> string \<Rightarrow> Role option" where
  "authenticate sha users username token =
     (case map_of users username of
        None \<Rightarrow> None
      | Some e \<Rightarrow>
          (let actual = sha token in
           if length actual \<noteq> length (tokenHash e) \<or> actual \<noteq> tokenHash e then None else Some (ue_role e)))"

definition validateToken :: "(string \<Rightarrow> string) \<Rightarrow> (string \<times> UserEntry) list \<Rightarrow> string \<Rightarrow> string \<Rightarrow> bool" where
  "validateToken sha users username token \<longleftrightarrow> authenticate sha users username token \<noteq> None"

definition roleOf :: "(string \<times> UserEntry) list \<Rightarrow> string \<Rightarrow> Role option" where
  "roleOf users username = map_option ue_role (map_of users username)"

definition MAX_AUTH_FAILURES :: u32 where "MAX_AUTH_FAILURES = 5"

definition AUTH_LOCKOUT :: nat where "AUTH_LOCKOUT = 60 * 10 ^ 9"

type_synonym failures = "(string \<times> (u32 \<times> nat)) list"

definition authAllowed :: "nat \<Rightarrow> string \<Rightarrow> failures \<Rightarrow> bool" where
  "authAllowed now username al =
     (case map_of al username of
        None \<Rightarrow> True
      | Some (n, until) \<Rightarrow> n < MAX_AUTH_FAILURES \<or> now \<ge> until)"

definition erase_expired :: "nat \<Rightarrow> failures \<Rightarrow> failures" where
  "erase_expired now al = filter (\<lambda>(u, n, until). \<not> now \<ge> until) al"

definition recordAuthResult :: "nat \<Rightarrow> string \<Rightarrow> bool \<Rightarrow> failures \<Rightarrow> failures" where
  "recordAuthResult now username success al =
     (if success then AList.delete username al
      else let al1 = (if length al > 10000 then erase_expired now al else al);
               e = (case map_of al1 username of None \<Rightarrow> (0, 0) | Some e \<Rightarrow> e);
               n = (if now \<ge> snd e then 0 else fst e) in
        AList.update username (n + 1, now + AUTH_LOCKOUT) al1)"

section \<open>Roles\<close>

lemma authenticate_iff:
  "authenticate sha users u t = Some r \<longleftrightarrow>
     (\<exists>e. map_of users u = Some e \<and> sha t = tokenHash e \<and> ue_role e = r)"
  by (auto simp: authenticate_def Let_def split: option.splits)

lemma authenticate_roleOf: "authenticate sha users u t = Some r \<Longrightarrow> roleOf users u = Some r"
  by (auto simp: authenticate_iff roleOf_def)

section \<open>The lockout as a function of the history\<close>

text \<open>The counter of a user that is still in force at \<open>now\<close>.\<close>

definition in_force :: "nat \<Rightarrow> string \<Rightarrow> failures \<Rightarrow> u32" where
  "in_force now u al = (case map_of al u of None \<Rightarrow> 0 | Some (n, until) \<Rightarrow> if now \<ge> until then 0 else n)"

lemma authAllowed_in_force: "authAllowed now u al \<longleftrightarrow> in_force now u al < MAX_AUTH_FAILURES"
  by (auto simp: authAllowed_def in_force_def MAX_AUTH_FAILURES_def split: option.splits)

lemma map_of_filter_value:
  "distinct (map fst al) \<Longrightarrow>
     map_of (filter (\<lambda>(k, v). P v) al) k = (case map_of al k of None \<Rightarrow> None | Some v \<Rightarrow> if P v then Some v else None)"
proof (induction al)
  case Nil
  show ?case by simp
next
  case (Cons x al)
  obtain j v where x: "x = (j, v)" by (cases x)
  have "map_of al j = None" using Cons.prems x by (simp add: map_of_eq_None_iff)
  with Cons x show ?case by (cases "P v"; cases "j = k") simp_all
qed

lemma erase_expired_in_force:
  assumes "distinct (map fst al)" and "t \<le> now"
  shows "in_force now u (erase_expired t al) = in_force now u al"
proof -
  have "erase_expired t al = filter (\<lambda>(k, v). (case v of (n, until) \<Rightarrow> \<not> t \<ge> until)) al"
    by (simp add: erase_expired_def)
  then have "map_of (erase_expired t al) u
      = (case map_of al u of None \<Rightarrow> None | Some v \<Rightarrow> if (case v of (n, until) \<Rightarrow> \<not> t \<ge> until) then Some v else None)"
    by (simp only: map_of_filter_value [OF assms(1)])
  with assms(2) show ?thesis by (auto simp: in_force_def split: option.splits prod.splits)
qed

lemma distinct_erase_expired: "distinct (map fst al) \<Longrightarrow> distinct (map fst (erase_expired t al))"
  by (simp add: erase_expired_def distinct_map_filter)

lemma recordAuthResult_distinct:
  "distinct (map fst al) \<Longrightarrow> distinct (map fst (recordAuthResult t u ok al))"
  by (simp add: recordAuthResult_def Let_def distinct_erase_expired)

lemma in_force_failure:
  assumes "distinct (map fst al)" and "t \<le> now"
  shows "in_force now u (recordAuthResult t v False al)
     = (if u = v then (if now \<ge> t + AUTH_LOCKOUT then 0 else in_force t v al + 1) else in_force now u al)"
proof -
  let ?al = "if length al > 10000 then erase_expired t al else al"
  let ?e = "case map_of ?al v of None \<Rightarrow> (0, 0) | Some e \<Rightarrow> e"
  have same: "in_force s w ?al = in_force s w al" if "t \<le> s" for s w
    using erase_expired_in_force [OF assms(1) that] by simp
  have "(if t \<ge> snd ?e then 0 else fst ?e) = in_force t v ?al"
    by (auto simp: in_force_def split: option.splits)
  then have n: "(if t \<ge> snd ?e then 0 else fst ?e) = in_force t v al" using same [of t v] by simp
  have "recordAuthResult t v False al = AList.update v (in_force t v al + 1, t + AUTH_LOCKOUT) ?al"
    unfolding n [symmetric] by (simp add: recordAuthResult_def Let_def)
  then show ?thesis using same [OF assms(2), of u] by (simp add: in_force_def)
qed

lemma in_force_success:
  "in_force now u (recordAuthResult t v True al) = (if u = v then 0 else in_force now u al)"
  by (simp add: recordAuthResult_def in_force_def)

text \<open>
  A history lists the attempts with the latest first. \<open>streak u now h\<close> counts the failures of \<open>u\<close>
  since its last success, as long as no two of them, nor the last one and \<open>now\<close>, lie a lockout apart.
\<close>

type_synonym history = "(nat \<times> string \<times> bool) list"

fun streak :: "string \<Rightarrow> nat \<Rightarrow> history \<Rightarrow> nat" where
  "streak u now [] = 0"
| "streak u now ((t, v, ok) # h) =
     (if v \<noteq> u then streak u now h
      else if ok then 0
      else if now \<ge> t + AUTH_LOCKOUT then 0 else Suc (streak u t h))"

fun recorded :: "history \<Rightarrow> failures" where
  "recorded [] = []"
| "recorded ((t, v, ok) # h) = recordAuthResult t v ok (recorded h)"

fun timely :: "nat \<Rightarrow> history \<Rightarrow> bool" where
  "timely now [] = True"
| "timely now ((t, v, ok) # h) = (t \<le> now \<and> timely t h)"

lemma timely_mono: "timely t h \<Longrightarrow> t \<le> now \<Longrightarrow> timely now h"
  by (cases h) auto

lemma recorded_distinct: "distinct (map fst (recorded h))"
  by (induction h rule: recorded.induct) (auto simp: recordAuthResult_distinct)

lemma streak_le: "streak u now h \<le> length h"
  by (induction u now h rule: streak.induct) auto

lemma in_force_streak:
  "timely now h \<Longrightarrow> length h < 2 ^ 32 \<Longrightarrow> in_force now u (recorded h) = of_nat (streak u now h)"
proof (induction u now h rule: streak.induct)
  case (1 u now)
  then show ?case by (simp add: in_force_def)
next
  case (2 u now t v ok h)
  have le: "t \<le> now" and h: "timely now h" "timely t h"
    using 2(3) timely_mono by auto
  show ?case
  proof (cases ok)
    case True
    with 2(1) h 2(4) show ?thesis by (simp add: in_force_success)
  next
    case False
    with 2 h show ?thesis by (auto simp: in_force_failure [OF recorded_distinct le])
  qed
qed

lemma authAllowed_streak:
  assumes "timely now h" and "length h < 2 ^ 32"
  shows "authAllowed now u (recorded h) \<longleftrightarrow> streak u now h < 5"
proof -
  have "streak u now h < 2 ^ 32" using streak_le [of u now h] assms(2) by simp
  then have "unat (of_nat (streak u now h) :: u32) = streak u now h" by (rule unat_of_nat_u32)
  then show ?thesis
    by (simp add: authAllowed_in_force in_force_streak [OF assms] MAX_AUTH_FAILURES_def word_less_nat_alt)
qed

end
