(* ===== verification/ZestDB.thy ===== *)
theory ZestDB
  imports Archive Patterns Auth
begin

text \<open>
  \<open>ZestDB.hpp\<close> and \<open>ZestDB.cpp\<close>: the state of the database, its checks, the command interpreter
  \<open>execCmd\<close>, flushing, the replay of the logs, the reload of the configuration and start-up.

  What lies outside the repository is collected in the record \<open>Lib\<close>: the hash and the selection
  algorithm of the standard library, the JSON library (\<open>dump\<close>, \<open>accept\<close>), \<open>std::regex\<close>
  (\<open>compiles\<close>, \<open>re_match\<close>, \<open>what\<close>), \<open>sha256\<close> and the working directory. An operation that can
  throw returns \<open>None\<close> for the exception.
\<close>

record Lib =
  hash :: "string \<Rightarrow> u64"
  nth_el :: "nat \<Rightarrow> string list \<Rightarrow> string list"
  dump :: "json \<Rightarrow> string"
  accept :: "string \<Rightarrow> bool"
  compiles :: "string \<Rightarrow> bool"
  re_match :: "string \<Rightarrow> string \<Rightarrow> bool"
  what :: "string \<Rightarrow> string"
  sha :: "string \<Rightarrow> string"
  cwd :: string

text \<open>
  \<open>config\<close> is what \<open>config.yaml\<close> holds (\<open>None\<close> when it cannot be read), \<open>logDebug\<close> the flag of the
  logger, \<open>archiveDir\<close> the archive directory, and \<open>saves\<close> what the coming archive runs will meet.
\<close>

record ZestDB =
  settings :: Settings
  users :: "(string \<times> UserEntry) list"
  authFailures :: failures
  shardManager :: ShardManager
  running :: bool
  archiving :: bool
  replaying :: bool
  config :: "ConfigNode option"
  logDebug :: bool
  archiveDir :: archive_dir
  saves :: "nat \<Rightarrow> ArchiveEnv"

section \<open>Answers\<close>

text \<open>\<open>dump\<close> of a string here replaces bytes that are not UTF-8.\<close>

definition responseToJson :: "Lib \<Rightarrow> ResultType \<Rightarrow> string" where
  "responseToJson lib r =
     (let looksLikeJson = (response r \<noteq> [] \<and> (hd (response r) = CHR ''['' \<or> hd (response r) = CHR ''{'')) in
      ''{'' @ [CHR 0x22] @ ''affectedRows'' @ [CHR 0x22] @ '':'' @ show_int (affectedRows r)
      @ '','' @ [CHR 0x22] @ ''code'' @ [CHR 0x22] @ '':'' @ (if code r = Success then ''0'' else ''1'')
      @ '','' @ [CHR 0x22] @ ''response'' @ [CHR 0x22] @ '':''
      @ (if looksLikeJson \<and> accept lib (response r) then response r else dump lib (JStr (response r)))
      @ ''}'')"

section \<open>Checked operations\<close>

definition isAddressAllowed :: "Lib \<Rightarrow> string \<Rightarrow> ZestDB \<Rightarrow> bool" where
  "isAddressAllowed lib ip z = re_match lib (NetworkValidationStr (settings z)) ip"

definition validateKey :: "ZestDB \<Rightarrow> string \<Rightarrow> bool" where
  "validateKey z key \<longleftrightarrow> \<not> length key > unat (MaxKeySize (settings z))"

definition validateValue :: "ZestDB \<Rightarrow> string \<Rightarrow> bool" where
  "validateValue z v \<longleftrightarrow> \<not> length v > unat (MaxValueSize (settings z))"

definition on_mgr :: "(ShardManager \<Rightarrow> 'a \<times> ShardManager) \<Rightarrow> ZestDB \<Rightarrow> 'a \<times> ZestDB" where
  "on_mgr f z = (case f (shardManager z) of (r, m) \<Rightarrow> (r, z\<lparr>shardManager := m\<rparr>))"

definition fail :: "string \<Rightarrow> ResultType" where
  "fail m = res Error m 0"

definition z_get :: "Lib \<Rightarrow> string \<Rightarrow> ZestDB \<Rightarrow> ResultType \<times> ZestDB" where
  "z_get lib key z =
     (if \<not> validateKey z key then (fail INVALID_KEY, z) else on_mgr (mgr_get (hash lib) key) z)"

definition z_set :: "Lib \<Rightarrow> string \<Rightarrow> string \<Rightarrow> ZestDB \<Rightarrow> ResultType \<times> ZestDB" where
  "z_set lib key v z =
     (let enforce = \<not> replaying z in
      if enforce \<and> readOnly (settings z) then (fail READ_ONLY_ERROR, z)
      else if enforce \<and> \<not> validateKey z key then (fail INVALID_KEY, z)
      else if v = '''' then (fail VALUE_EMPTY, z)
      else if enforce \<and> \<not> validateValue z v then (fail INVALID_VALUE, z)
      else if enforce \<and> jsonOnly (settings z) \<and> \<not> accept lib v then (fail JSON_ONLY_ERROR, z)
      else on_mgr (mgr_set (hash lib) key v) z)"

definition z_del :: "Lib \<Rightarrow> string \<Rightarrow> ZestDB \<Rightarrow> ResultType \<times> ZestDB" where
  "z_del lib key z =
     (let enforce = \<not> replaying z in
      if enforce \<and> readOnly (settings z) then (fail READ_ONLY_ERROR, z)
      else if enforce \<and> \<not> validateKey z key then (fail INVALID_KEY, z)
      else on_mgr (mgr_del (hash lib) key) z)"

definition z_getBy :: "Lib \<Rightarrow> ValidationRule \<Rightarrow> ZestDB \<Rightarrow> ResultType \<times> ZestDB" where
  "z_getBy lib valid z = on_mgr (mgr_getBy (dump lib) valid) z"

definition z_setBy :: "Lib \<Rightarrow> ValidationRule \<Rightarrow> string \<Rightarrow> ZestDB \<Rightarrow> ResultType \<times> ZestDB" where
  "z_setBy lib valid v z =
     (let enforce = \<not> replaying z in
      if enforce \<and> readOnly (settings z) then (fail READ_ONLY_ERROR, z)
      else if v = '''' then (fail VALUE_EMPTY, z)
      else if enforce \<and> \<not> validateValue z v then (fail INVALID_VALUE, z)
      else if enforce \<and> jsonOnly (settings z) \<and> \<not> accept lib v then (fail JSON_ONLY_ERROR, z)
      else on_mgr (mgr_setBy (hash lib) (nth_el lib) valid v) z)"

definition z_delBy :: "Lib \<Rightarrow> ValidationRule \<Rightarrow> ZestDB \<Rightarrow> ResultType \<times> ZestDB" where
  "z_delBy lib valid z =
     (if \<not> replaying z \<and> readOnly (settings z) then (fail READ_ONLY_ERROR, z)
      else on_mgr (mgr_delBy (hash lib) (nth_el lib) valid) z)"

section \<open>Flushing, archives and the configuration\<close>

definition flushLocked :: "ZestDB \<Rightarrow> ZestDB" where
  "flushLocked z = z\<lparr>shardManager := mgr_flush (shardManager z)\<rparr>"

definition z_flush :: "ZestDB \<Rightarrow> ZestDB" where
  "z_flush z = flushLocked z"

text \<open>\<open>archiving\<close> is set for the duration of the call, so it is the same before and after.\<close>

definition createArchive :: "ZestDB \<Rightarrow> bool \<times> ZestDB" where
  "createArchive z =
     (if archiving z then (False, z)
      else let z1 = flushLocked z in
        case run_archive (saves z1 0) (ArchiveRetention (settings z1)) (shardManager z1) (archiveDir z1) of
          (ok, dir) \<Rightarrow> (ok, z1\<lparr>archiveDir := dir, saves := (\<lambda>n. saves z1 (Suc n))\<rparr>))"

definition path_message :: string where
  "path_message = ''Cannot change path settings during hot-reload. Paths are immutable. Restart the database to apply changes.''"

definition network_message :: string where
  "network_message = ''Cannot change the ports, SSL or connection limits during hot-reload. Restart the database to apply changes.''"

definition reloadConfig :: "Lib \<Rightarrow> ZestDB \<Rightarrow> ResultType \<times> ZestDB" where
  "reloadConfig lib z =
     (case loadConfig (compiles lib) (sha lib) (cwd lib) (config z) of
        None \<Rightarrow> (fail ''Reload failed !'', z)
      | Some (s, newUsers) \<Rightarrow>
          if paths_changed s (settings z) then (fail path_message, z)
          else if network_changed s (settings z) then (fail network_message, z)
          else (res Success ''Reload successful !'' 0,
                z\<lparr>settings := s, users := newUsers, logDebug := isDebug s,
                  shardManager := mgr_reloadSettings s (shardManager z)\<rparr>))"

section \<open>The commands\<close>

text \<open>
  One definition per branch of \<open>execCmd\<close>. \<open>sv\<close> is the trimmed text and \<open>ws\<close> its words with their
  offsets; the first word was looked at already.
\<close>

abbreviation word_at :: "(nat \<times> string) list \<Rightarrow> nat \<Rightarrow> string" where
  "word_at ws i \<equiv> snd (ws ! i)"

definition exec_get :: "Lib \<Rightarrow> (nat \<times> string) list \<Rightarrow> ZestDB \<Rightarrow> ResultType \<times> ZestDB" where
  "exec_get lib ws z = (if length ws < 2 then (fail MISSING_KEY, z) else z_get lib (word_at ws 1) z)"

definition exec_set :: "Lib \<Rightarrow> string \<Rightarrow> (nat \<times> string) list \<Rightarrow> ZestDB \<Rightarrow> ResultType \<times> ZestDB" where
  "exec_set lib sv ws z =
     (if length ws < 2 then (fail MISSING_KEY, z)
      else if length ws < 3 then (fail MISSING_VALUE, z)
      else z_set lib (word_at ws 1) (drop (fst (ws ! 2)) sv) z)"

definition exec_del :: "Lib \<Rightarrow> (nat \<times> string) list \<Rightarrow> ZestDB \<Rightarrow> ResultType \<times> ZestDB" where
  "exec_del lib ws z = (if length ws < 2 then (fail MISSING_KEY, z) else z_del lib (word_at ws 1) z)"

definition rule_for :: "Lib \<Rightarrow> (nat \<times> string) list \<Rightarrow> (string \<Rightarrow> bool) option" where
  "rule_for lib ws =
     createValidationRule (compiles lib) (re_match lib) (toLowerStr (word_at ws 1)) (word_at ws 2)"

definition exec_getBy :: "Lib \<Rightarrow> (nat \<times> string) list \<Rightarrow> ZestDB \<Rightarrow> ResultType \<times> ZestDB" where
  "exec_getBy lib ws z =
     (if length ws < 3 then (fail MISSING_ARGUMENTS, z)
      else case find_limit (map snd ws) of (lmt, limitOk) \<Rightarrow>
        if \<not> limitOk then (fail INVALID_LIMIT, z)
        else case rule_for lib ws of
               None \<Rightarrow> (fail INVALID_REGEX, z)
             | Some f \<Rightarrow> z_getBy lib \<lparr>func = f, limit = lmt\<rparr> z)"

text \<open>
  The value of \<open>setby\<close> runs from the fourth word to the end of the text, or to the end of the
  third word from the last when the last two words are \<open>lim <n>\<close>.
\<close>

definition setBy_limit :: "(nat \<times> string) list \<Rightarrow> string \<Rightarrow> nat \<times> u32 option" where
  "setBy_limit ws sv =
     (if length ws \<ge> 6 \<and> toLowerStr (word_at ws (length ws - 2)) = ''lim''
      then (let w = ws ! (length ws - 3) in fst w + length (snd w), parseUInt32 (snd (last ws)))
      else (length sv, Some UINT_MAX))"

definition exec_setBy :: "Lib \<Rightarrow> string \<Rightarrow> (nat \<times> string) list \<Rightarrow> ZestDB \<Rightarrow> ResultType \<times> ZestDB" where
  "exec_setBy lib sv ws z =
     (if length ws < 4 then (fail MISSING_VALUE, z)
      else case setBy_limit ws sv of
             (valEnd, None) \<Rightarrow> (fail INVALID_LIMIT, z)
           | (valEnd, Some lmt) \<Rightarrow>
               (let valStart = fst (ws ! 3); v = take (valEnd - valStart) (drop valStart sv) in
                case rule_for lib ws of
                  None \<Rightarrow> (fail INVALID_REGEX, z)
                | Some f \<Rightarrow> z_setBy lib \<lparr>func = f, limit = lmt\<rparr> v z))"

definition exec_delBy :: "Lib \<Rightarrow> (nat \<times> string) list \<Rightarrow> ZestDB \<Rightarrow> ResultType \<times> ZestDB" where
  "exec_delBy lib ws z =
     (if length ws < 3 then (fail MISSING_PATTERN, z)
      else case find_limit (map snd ws) of (lmt, limitOk) \<Rightarrow>
        if \<not> limitOk then (fail INVALID_LIMIT, z)
        else case rule_for lib ws of
               None \<Rightarrow> (fail INVALID_MODE, z)
             | Some f \<Rightarrow> z_delBy lib \<lparr>func = f, limit = lmt\<rparr> z)"

text \<open>
  \<open>setConfig\<close> throws when \<open>config.yaml\<close> cannot be read; the setting in memory has then already
  been changed, while the shards have not been told.
\<close>

definition exec_scfg :: "Lib \<Rightarrow> (nat \<times> string) list \<Rightarrow> ZestDB \<Rightarrow> ResultType option \<times> ZestDB" where
  "exec_scfg lib ws z =
     (if length ws < 3 then (Some (fail MISSING_ARGUMENTS), z)
      else let param = toLowerStr (word_at ws 1) in
        case scfg (compiles lib) (what lib) param (word_at ws 2) (settings z) of
          Inl m \<Rightarrow> (Some (fail m), z)
        | Inr s \<Rightarrow>
            (let z1 = z\<lparr>settings := s, logDebug := (if param = ''isdebug'' then isDebug s else logDebug z)\<rparr> in
             case config z1 of
               None \<Rightarrow> (None, z1)
             | Some n \<Rightarrow>
                 (Some (res Success UPDATE_SUCCESSFUL 0),
                  z1\<lparr>config := Some (setConfig s n), shardManager := mgr_reloadSettings s (shardManager z1)\<rparr>)))"

definition exec_save :: "ZestDB \<Rightarrow> ResultType \<times> ZestDB" where
  "exec_save z =
     (case createArchive z of (ok, z1) \<Rightarrow>
        (if ok then res Success ''Archive successfully created.'' 0 else fail ''Failed to create the archive'', z1))"

definition nl :: string where "nl = [CHR 0x0A]"

definition quoted :: "string \<Rightarrow> string" where "quoted s = [CHR 0x27] @ s @ [CHR 0x27]"

definition help_text :: string where
  "help_text =
     ''ZestDB Commands:'' @ nl @ ''---------------'' @ nl
     @ ''get <key>                              - Get value by key'' @ nl
     @ ''set <key> <value>                      - Set key-value pair'' @ nl
     @ ''del <key>                              - Delete key'' @ nl
     @ ''getby <mode> <pattern> [lim <n>]       - Get keys matching pattern'' @ nl
     @ ''setby <mode> <pattern> <val> [lim <n>] - Set value for keys matching pattern'' @ nl
     @ ''delby <mode> <pattern> [lim <n>]       - Delete keys matching pattern'' @ nl
     @ ''flush                                  - Flush all data in memory to the disk'' @ nl
     @ ''reload                                 - Reload configuration from config.yaml'' @ nl
     @ ''scfg <param> <value>                   - Set config parameter'' @ nl
     @ ''help                                   - Show this help'' @ nl @ nl
     @ ''Config Parameters:'' @ nl
     @ ''  SegSize(int), MaxKeySize(int), MaxValueSize(int), CacheSize(int), CompactingInterval(int), ''
     @ ''FlushInterval(int), isDebug(bool), jsonOnly(bool), readOnly(bool), NetworkValidationStr(string), ''
     @ ''ArchiveCreationDelay(int), AutoArchiveSaving(bool)'' @ nl @ nl
     @ ''Modes:'' @ nl @ ''  re  - regex'' @ nl @ ''  sw  - starts with'' @ nl @ ''  ct  - contains'' @ nl
     @ ''  ew  - ends with'' @ nl @ ''  lim - limit (optional)'' @ nl @ nl
     @ ''Examples:'' @ nl
     @ ''  gb re .* lim 10                      - Get keys matching regex '' @ quoted ''.*'' @ '' with limit 10'' @ nl
     @ ''  gb sw ca lim 20                      - Get keys starting with '' @ quoted ''ca'' @ '' with limit 20'' @ nl
     @ ''  gb ct ac lim 1                       - Get keys containing '' @ quoted ''ac'' @ '' with limit 1'' @ nl
     @ ''  gb ew ca                             - Get keys ending with '' @ quoted ''ca'' @ '' (no limit)'' @ nl @ nl
     @ ''Shortcuts: g=get, s=set, d=del, gb=getby, sb=setby, db=delby, f=flush, r=reload, scfg=setconfig, h=help'' @ nl"

definition isWrite :: "string \<Rightarrow> bool" where
  "isWrite cmd \<longleftrightarrow> cmd = ''s'' \<or> cmd = ''d'' \<or> cmd = ''sb'' \<or> cmd = ''db''"

definition isAdmin :: "string \<Rightarrow> bool" where
  "isAdmin cmd \<longleftrightarrow> cmd = ''f'' \<or> cmd = ''r'' \<or> cmd = ''scfg'' \<or> cmd = ''gcfg'' \<or> cmd = ''save''"

definition permitted :: "string \<Rightarrow> Role \<Rightarrow> bool" where
  "permitted cmd role \<longleftrightarrow> \<not> (isWrite cmd \<and> role = Read \<or> isAdmin cmd \<and> role \<noteq> Admin)"

text \<open>The chain of branches. \<open>dump\<close> writes the configuration of \<open>gcfg\<close>.\<close>

definition run_cmd :: "Lib \<Rightarrow> string \<Rightarrow> string \<Rightarrow> (nat \<times> string) list \<Rightarrow> ZestDB \<Rightarrow> ResultType option \<times> ZestDB" where
  "run_cmd lib cmd sv ws z =
     (if cmd = ''g'' then apfst Some (exec_get lib ws z)
      else if cmd = ''s'' then apfst Some (exec_set lib sv ws z)
      else if cmd = ''d'' then apfst Some (exec_del lib ws z)
      else if cmd = ''gb'' then apfst Some (exec_getBy lib ws z)
      else if cmd = ''sb'' then apfst Some (exec_setBy lib sv ws z)
      else if cmd = ''db'' then apfst Some (exec_delBy lib ws z)
      else if cmd = ''h'' then (Some (res Success help_text 0), z)
      else if cmd = ''f'' then (Some (res Success FLUSH_SUCCESSFUL 0), z_flush z)
      else if cmd = ''r'' then apfst Some (reloadConfig lib z)
      else if cmd = ''scfg'' then exec_scfg lib ws z
      else if cmd = ''gcfg'' then (Some (res Success (dump lib (getConfig (settings z))) 0), z)
      else if cmd = ''save'' then apfst Some (exec_save z)
      else (Some (fail CMD_NOT_FOUND), z))"

definition z_appendToWAL :: "Lib \<Rightarrow> string \<Rightarrow> string \<Rightarrow> ZestDB \<Rightarrow> bool \<times> ZestDB" where
  "z_appendToWAL lib key command z =
     (if replaying z then (True, z) else on_mgr (appendToWAL (hash lib) key command) z)"

definition z_syncWAL :: "ZestDB \<Rightarrow> bool \<times> ZestDB" where
  "z_syncWAL z = on_mgr syncWAL z"

text \<open>The end of \<open>execCmd\<close>: a write that succeeded is appended to the log and, if asked, synced.\<close>

definition log_write ::
  "Lib \<Rightarrow> bool \<Rightarrow> (nat \<times> string) list \<Rightarrow> string \<Rightarrow> bool \<Rightarrow> ResultType \<Rightarrow> ZestDB \<Rightarrow> ResultType \<times> ZestDB" where
  "log_write lib write ws command syncWal r z =
     (if \<not> replaying z \<and> code r = Success \<and> write \<and> length ws \<ge> 2
      then case z_appendToWAL lib (word_at ws 1) command z of (ok, z1) \<Rightarrow>
        if \<not> ok then (res Error WAL_WRITE_FAILED (affectedRows r), z1)
        else if syncWal
        then (case z_syncWAL z1 of (ok2, z2) \<Rightarrow>
                (if ok2 then r else res Error WAL_WRITE_FAILED (affectedRows r), z2))
        else (r, z1)
      else (r, z))"

definition execCmd :: "Lib \<Rightarrow> string \<Rightarrow> Role \<Rightarrow> bool \<Rightarrow> ZestDB \<Rightarrow> ResultType option \<times> ZestDB" where
  "execCmd lib command role syncWal z =
     (case trim_command command of
        None \<Rightarrow> (Some (fail NO_COMMAND_GIVEN), z)
      | Some sv \<Rightarrow>
          (let ws = words_of sv in
           if ws = [] then (Some (fail NO_COMMAND_GIVEN), z)
           else let cmd = alias_of (toLowerStr (snd (hd ws))) in
             if \<not> permitted cmd role then (Some (fail PERMISSION_DENIED), z)
             else case run_cmd lib cmd sv ws z of
                    (None, z1) \<Rightarrow> (None, z1)
                  | (Some r, z1) \<Rightarrow> apfst Some (log_write lib (isWrite cmd) ws command syncWal r z1)))"

section \<open>Start and stop\<close>

definition replay_exec :: "Lib \<Rightarrow> string \<Rightarrow> ZestDB \<Rightarrow> ZestDB option" where
  "replay_exec lib cmd z = (case execCmd lib cmd Admin True z of (None, z1) \<Rightarrow> None | (Some r, z1) \<Rightarrow> Some z1)"

definition replayWAL :: "Lib \<Rightarrow> ZestDB \<Rightarrow> ZestDB option" where
  "replayWAL lib z =
     map_option (\<lambda>z1. z1\<lparr>replaying := False\<rparr>)
       (replayAllWAL shardManager (\<lambda>m z. z\<lparr>shardManager := m\<rparr>) (replay_exec lib) (z\<lparr>replaying := True\<rparr>))"

definition NUM_SHARDS :: nat where "NUM_SHARDS = 32"

datatype start_error = ConfigError | ShardError boot_error | ReplayError

text \<open>
  The constructor up to the threads it starts. \<open>files\<close> gives for each of the \<open>NUM_SHARDS\<close> shards
  its directory, and the outcomes and latencies its file calls will meet.
\<close>

definition new_ZestDB ::
  "Lib \<Rightarrow> ConfigNode option \<Rightarrow> (ios \<times> rat list \<times> ShardFiles) list \<Rightarrow> archive_dir \<Rightarrow> (nat \<Rightarrow> ArchiveEnv) \<Rightarrow> start_error + ZestDB" where
  "new_ZestDB lib node files dir sv =
     (case loadConfig (compiles lib) (sha lib) (cwd lib) node of
        None \<Rightarrow> Inl ConfigError
      | Some (s, us) \<Rightarrow>
          (case new_ShardManager s 0 (take NUM_SHARDS files) of
             Inl e \<Rightarrow> Inl (ShardError e)
           | Inr m \<Rightarrow>
               (case replayWAL lib
                       \<lparr>settings = s, users = us, authFailures = [], shardManager = m, running = True,
                        archiving = False, replaying = False, config = node, logDebug = isDebug s,
                        archiveDir = dir, saves = sv\<rparr> of
                  None \<Rightarrow> Inl ReplayError
                | Some z \<Rightarrow> Inr z)))"

definition z_stop :: "ZestDB \<Rightarrow> ZestDB" where
  "z_stop z = z\<lparr>running := False, shardManager := mgr_stop (shardManager z)\<rparr>"

end
