(* ===== verification/Commands.thy ===== *)
theory Commands
  imports ZestDB
begin

text \<open>
  What the commands do to the database seen as one map from keys to values: each checked operation
  of \<open>ZestDB.cpp\<close>, then each branch of \<open>execCmd\<close>, then \<open>execCmd\<close> itself with its permission check
  and its logging.
\<close>

definition z_db :: "Lib \<Rightarrow> ZestDB \<Rightarrow> string \<Rightarrow> string option" where
  "z_db lib z = db (hash lib) (shardManager z)"

text \<open>
  What is used of the libraries: \<open>std::nth_element\<close> splits at the position it is given, and the
  JSON library writes an array as its elements between brackets, separated by commas.
\<close>

definition lib_ok :: "Lib \<Rightarrow> bool" where
  "lib_ok lib \<longleftrightarrow> selects (nth_el lib) \<and> dumps_arrays (dump lib)"

definition z_inv :: "Lib \<Rightarrow> ZestDB \<Rightarrow> bool" where
  "z_inv lib z \<longleftrightarrow> mgr_inv (hash lib) (shardManager z) \<and> settings_ok (compiles lib) (settings z)"

abbreviation z_roomy :: "Lib \<Rightarrow> ZestDB \<Rightarrow> bool" where
  "z_roomy lib z \<equiv> roomy (hash lib) (shardManager z)"

text \<open>Everything but the shards is as before.\<close>

definition mgr_only :: "ZestDB \<Rightarrow> ZestDB \<Rightarrow> bool" where
  "mgr_only z z' \<longleftrightarrow> z' = z\<lparr>shardManager := shardManager z'\<rparr>"

lemma mgr_only_refl [simp]: "mgr_only z z"
  by (simp add: mgr_only_def)

lemma mgr_only_trans: "mgr_only a b \<Longrightarrow> mgr_only b c \<Longrightarrow> mgr_only a c"
  unfolding mgr_only_def by (metis ZestDB.surjective ZestDB.update_convs(4))

lemma mgr_only_fields:
  assumes "mgr_only z z'"
  shows "settings z' = settings z" "users z' = users z" "authFailures z' = authFailures z"
    "replaying z' = replaying z" "config z' = config z" "archiving z' = archiving z"
proof -
  note d = assms [unfolded mgr_only_def]
  show "settings z' = settings z" by (subst d) simp
  show "users z' = users z" by (subst d) simp
  show "authFailures z' = authFailures z" by (subst d) simp
  show "replaying z' = replaying z" by (subst d) simp
  show "config z' = config z" by (subst d) simp
  show "archiving z' = archiving z" by (subst d) simp
qed

lemma on_mgr_only: "on_mgr f z = (r, z') \<Longrightarrow> mgr_only z z' \<and> f (shardManager z) = (r, shardManager z')"
  by (auto simp: on_mgr_def mgr_only_def split: prod.splits)

lemma fail_simps [simp]: "code (fail m) = Error" "response (fail m) = m" "affectedRows (fail m) = 0"
  by (simp_all add: fail_def)

lemma z_inv_only: "mgr_only z z' \<Longrightarrow> z_inv lib z \<Longrightarrow> mgr_inv (hash lib) (shardManager z') \<Longrightarrow> z_inv lib z'"
  by (simp add: z_inv_def mgr_only_fields)

section \<open>The checked operations\<close>

lemma z_get_spec:
  assumes "z_inv lib z" and "z_get lib k z = (r, z')"
  shows "mgr_only z z'" and "z_inv lib z'" and "z_db lib z' = z_db lib z"
    and "validateKey z k \<Longrightarrow> get_answer (z_db lib z k) r" and "\<not> validateKey z k \<Longrightarrow> r = fail INVALID_KEY"
proof -
  have "mgr_only z z' \<and> z_inv lib z' \<and> z_db lib z' = z_db lib z
      \<and> (validateKey z k \<longrightarrow> get_answer (z_db lib z k) r) \<and> (\<not> validateKey z k \<longrightarrow> r = fail INVALID_KEY)"
  proof (cases "validateKey z k")
    case True
    with assms(2) have o: "on_mgr (mgr_get (hash lib) k) z = (r, z')" by (simp add: z_get_def)
    have "mgr_inv (hash lib) (shardManager z)" using assms(1) by (simp add: z_inv_def)
    note s = mgr_get_spec [OF this, of k r "shardManager z'"]
    from on_mgr_only [OF o] s True assms(1) show ?thesis by (auto simp: z_db_def intro: z_inv_only)
  next
    case False
    with assms show ?thesis by (simp add: z_get_def)
  qed
  then show "mgr_only z z'" "z_inv lib z'" "z_db lib z' = z_db lib z"
    "validateKey z k \<Longrightarrow> get_answer (z_db lib z k) r" "\<not> validateKey z k \<Longrightarrow> r = fail INVALID_KEY" by auto
qed

text \<open>What the checks of \<open>set\<close> and \<open>setBy\<close> leave through.\<close>

definition key_accepted :: "ZestDB \<Rightarrow> string \<Rightarrow> bool" where
  "key_accepted z k \<longleftrightarrow> (if replaying z then length k \<le> MAX_KEY_SIZE else validateKey z k)"

definition value_accepted :: "Lib \<Rightarrow> ZestDB \<Rightarrow> string \<Rightarrow> bool" where
  "value_accepted lib z v \<longleftrightarrow> v \<noteq> '''' \<and>
     (if replaying z then length v < 2 ^ 32
      else \<not> readOnly (settings z) \<and> validateValue z v \<and> (jsonOnly (settings z) \<longrightarrow> accept lib v))"

lemma accepted_bounds:
  assumes "z_inv lib z"
  shows "key_accepted z k \<Longrightarrow> length k \<le> MAX_KEY_SIZE" and "value_accepted lib z v \<Longrightarrow> length v < 2 ^ 32 \<and> v \<noteq> ''''"
proof -
  have "unat (MaxKeySize (settings z)) \<le> MAX_KEY_SIZE" using assms by (simp add: z_inv_def settings_ok_def)
  then show "key_accepted z k \<Longrightarrow> length k \<le> MAX_KEY_SIZE"
    by (auto simp: key_accepted_def validateKey_def split: if_splits)
  show "value_accepted lib z v \<Longrightarrow> length v < 2 ^ 32 \<and> v \<noteq> ''''"
    using unat_u32_less [of "MaxValueSize (settings z)"]
    by (auto simp: value_accepted_def validateValue_def split: if_splits)
qed

text \<open>A call that is refused answers an error and changes nothing.\<close>

definition refused :: "ResultType \<Rightarrow> ZestDB \<Rightarrow> ZestDB \<Rightarrow> bool" where
  "refused r z z' \<longleftrightarrow> z' = z \<and> code r = Error \<and> affectedRows r = 0
     \<and> response r \<in> {READ_ONLY_ERROR, INVALID_KEY, VALUE_EMPTY, INVALID_VALUE, JSON_ONLY_ERROR}"

lemma z_set_cases:
  assumes "z_set lib k v z = (r, z')" and "replaying z \<longrightarrow> length k \<le> MAX_KEY_SIZE \<and> length v < 2 ^ 32"
  shows "key_accepted z k \<and> value_accepted lib z v \<and> on_mgr (mgr_set (hash lib) k v) z = (r, z')
    \<or> refused r z z' \<and> \<not> (key_accepted z k \<and> value_accepted lib z v)"
  using assms
  by (cases "replaying z")
    (auto simp: z_set_def Let_def key_accepted_def value_accepted_def refused_def split: if_splits)

lemma z_set_spec:
  assumes "z_inv lib z" and "z_roomy lib z" and "z_set lib k v z = (r, z')"
    and "replaying z \<longrightarrow> length k \<le> MAX_KEY_SIZE \<and> length v < 2 ^ 32"
  shows "mgr_only z z'" and "z_inv lib z'"
    and "z_db lib z' = (if code r = Success then (z_db lib z)(k \<mapsto> v) else z_db lib z)"
    and "code r = Success \<Longrightarrow> key_accepted z k \<and> value_accepted lib z v"
proof -
  have m: "mgr_inv (hash lib) (shardManager z)" using assms(1) by (simp add: z_inv_def)
  have "ids_left (storageManager (mgr_shards (shardManager z) ! getShardId (hash lib) (shardManager z) k))"
    by (rule ids_for_left [of 0], rule roomy_less [OF assms(2) getShardId_less [OF m]]) simp
  note s = mgr_set_spec [OF m this]
  have "mgr_only z z' \<and> z_inv lib z' \<and> z_db lib z' = (if code r = Success then (z_db lib z)(k \<mapsto> v) else z_db lib z)
      \<and> (code r = Success \<longrightarrow> key_accepted z k \<and> value_accepted lib z v)"
    using z_set_cases [OF assms(3,4)]
  proof (elim disjE conjE)
    assume a: "key_accepted z k" "value_accepted lib z v" and o: "on_mgr (mgr_set (hash lib) k v) z = (r, z')"
    note b = accepted_bounds [OF assms(1)]
    from on_mgr_only [OF o] s [of v r "shardManager z'"] b(1) [OF a(1)] b(2) [OF a(2)] a assms(1)
    show ?thesis by (auto simp: z_db_def intro: z_inv_only)
  qed (use assms(1) in \<open>simp add: refused_def\<close>)
  then show "mgr_only z z'" "z_inv lib z'"
    "z_db lib z' = (if code r = Success then (z_db lib z)(k \<mapsto> v) else z_db lib z)"
    "code r = Success \<Longrightarrow> key_accepted z k \<and> value_accepted lib z v" by auto
qed

lemma z_del_spec:
  assumes "z_inv lib z" and "z_del lib k z = (r, z')"
  shows "mgr_only z z'" and "z_inv lib z'"
    and "z_db lib z' = (if code r = Success then (z_db lib z)(k := None) else z_db lib z)"
    and "replaying z \<Longrightarrow> z_db lib z' = (z_db lib z)(k := None)"
    and "code r = Success \<Longrightarrow> z_db lib z k \<noteq> None \<and> (replaying z \<or> \<not> readOnly (settings z))"
proof -
  have m: "mgr_inv (hash lib) (shardManager z)" using assms(1) by (simp add: z_inv_def)
  note s = mgr_del_spec [OF m, of k r "shardManager z'"]
  have "mgr_only z z' \<and> z_inv lib z' \<and> z_db lib z' = (if code r = Success then (z_db lib z)(k := None) else z_db lib z)
      \<and> (replaying z \<longrightarrow> z_db lib z' = (z_db lib z)(k := None))
      \<and> (code r = Success \<longrightarrow> z_db lib z k \<noteq> None \<and> (replaying z \<or> \<not> readOnly (settings z)))"
  proof (cases "on_mgr (mgr_del (hash lib) k) z = (r, z')")
    case True
    have ro: "replaying z \<or> \<not> readOnly (settings z)" if "code r = Success"
      using assms(2) that by (auto simp: z_del_def Let_def split: if_splits)
    from on_mgr_only [OF True] s assms(1) ro show ?thesis
      by (auto simp: z_db_def fun_upd_idem intro: z_inv_only split: if_splits)
  next
    case False
    with assms show ?thesis by (auto simp: z_del_def Let_def split: if_splits)
  qed
  then show "mgr_only z z'" "z_inv lib z'"
    "z_db lib z' = (if code r = Success then (z_db lib z)(k := None) else z_db lib z)"
    "replaying z \<Longrightarrow> z_db lib z' = (z_db lib z)(k := None)"
    "code r = Success \<Longrightarrow> z_db lib z k \<noteq> None \<and> (replaying z \<or> \<not> readOnly (settings z))" by auto
qed

section \<open>The bulk operations\<close>

definition matching :: "Lib \<Rightarrow> ZestDB \<Rightarrow> ValidationRule \<Rightarrow> string set" where
  "matching lib z valid = {k. func valid k \<and> z_db lib z k \<noteq> None}"

text \<open>The keys a limited command works on: the smallest ones.\<close>

definition first_matching :: "Lib \<Rightarrow> ZestDB \<Rightarrow> ValidationRule \<Rightarrow> string set" where
  "first_matching lib z valid =
     (if limit valid = UINT_MAX then matching lib z valid
      else set (take (unat (limit valid)) (sorted_list_of_set (matching lib z valid))))"

lemma matching_finite: "z_inv lib z \<Longrightarrow> finite (matching lib z valid)"
  unfolding matching_def z_db_def z_inv_def by (blast intro: finite_matches)

lemma first_matching_subset: "z_inv lib z \<Longrightarrow> first_matching lib z valid \<subseteq> matching lib z valid"
  using matching_finite [of lib z valid] by (auto simp: first_matching_def dest: in_set_takeD)

lemma card_first_matching:
  assumes "z_inv lib z" and "limit valid \<noteq> UINT_MAX"
  shows "card (first_matching lib z valid) = min (unat (limit valid)) (card (matching lib z valid))"
  using assms by (simp add: first_matching_def distinct_card min.commute)

lemma z_getBy_spec:
  assumes "z_inv lib z" and "lib_ok lib" and "z_getBy lib valid z = (r, z')"
  shows "mgr_only z z'" and "z_inv lib z'" and "z_db lib z' = z_db lib z"
    and "\<exists>ks. distinct ks \<and> set ks \<subseteq> matching lib z valid
        \<and> r = res Success (dump lib (JArr (map (pair_json (z_db lib z)) ks))) (int (length ks))
        \<and> (limit valid \<noteq> UINT_MAX \<longrightarrow> length ks \<le> unat (limit valid))"
proof -
  have m: "mgr_inv (hash lib) (shardManager z)" and d: "dumps_arrays (dump lib)"
    using assms by (simp_all add: z_inv_def lib_ok_def)
  have o: "on_mgr (mgr_getBy (dump lib) valid) z = (r, z')" using assms(3) by (simp add: z_getBy_def)
  note oo = on_mgr_only [OF o]
  note s = mgr_getBy_spec [OF m d conjunct2 [OF oo]]
  from oo show "mgr_only z z'" by simp
  with s assms(1) show "z_inv lib z'" by (auto intro: z_inv_only)
  from s show "z_db lib z' = z_db lib z" by (simp add: z_db_def)
  from s show "\<exists>ks. distinct ks \<and> set ks \<subseteq> matching lib z valid
        \<and> r = res Success (dump lib (JArr (map (pair_json (z_db lib z)) ks))) (int (length ks))
        \<and> (limit valid \<noteq> UINT_MAX \<longrightarrow> length ks \<le> unat (limit valid))"
    unfolding z_db_def matching_def by blast
qed

lemma mgr_setBy_bulk:
  assumes "z_inv lib z" and "z_roomy lib z" and "lib_ok lib" and "length v < 2 ^ 32" and "v \<noteq> ''''"
    and "mgr_setBy (hash lib) (nth_el lib) valid v (shardManager z) = (r, m')"
  shows "mgr_inv (hash lib) m'"
    and "\<exists>ks \<subseteq> first_matching lib z valid. db (hash lib) m' = assign v ks (z_db lib z)
          \<and> r = res Success (setBy_message (int (card ks))) (int (card ks))"
proof -
  have m: "mgr_inv (hash lib) (shardManager z)" and sel: "selects (nth_el lib)"
    using assms by (simp_all add: z_inv_def lib_ok_def)
  note room = roomy_less [OF assms(2)]
  have "mgr_inv (hash lib) m' \<and> (\<exists>ks \<subseteq> first_matching lib z valid. db (hash lib) m' = assign v ks (z_db lib z)
          \<and> r = res Success (setBy_message (int (card ks))) (int (card ks)))"
  proof (cases "limit valid = UINT_MAX")
    case True
    obtain ks where "mgr_inv (hash lib) m'" "distinct ks" "set ks \<subseteq> {k. func valid k \<and> db (hash lib) (shardManager z) k \<noteq> None}"
      "db (hash lib) m' = assign v (set ks) (db (hash lib) (shardManager z))"
      "r = res Success (setBy_message (int (length ks))) (int (length ks))"
      using mgr_setBy_unlimited [OF m True assms(6,4,5)] room length_matching_entries [OF m] by (meson le_SucI)
    with True show ?thesis
      by (intro conjI exI [of _ "set ks"]) (simp_all add: first_matching_def matching_def z_db_def distinct_card)
  next
    case False
    let ?M = "{k. func valid k \<and> db (hash lib) (shardManager z) k \<noteq> None}"
    have c: "min (unat (limit valid)) (card ?M) \<le> Suc (card (dom (db (hash lib) (shardManager z))))"
      using card_matches [OF m, of "func valid"] by linarith
    obtain ys where ys: "mgr_inv (hash lib) m'" "subseq ys (take (unat (limit valid)) (sorted_list_of_set ?M))"
      "db (hash lib) m' = assign v (set ys) (db (hash lib) (shardManager z))"
      "r = res Success (setBy_message (int (length ys))) (int (length ys))"
      using mgr_setBy_limited [OF m sel False assms(6,4,5) room [OF _ c]] by auto
    have "distinct ys" using subseq_distinct [OF ys(2)] by simp
    with ys subseq_set [OF ys(2)] False show ?thesis
      by (intro conjI exI [of _ "set ys"]) (simp_all add: first_matching_def matching_def z_db_def distinct_card)
  qed
  then show "mgr_inv (hash lib) m'" "\<exists>ks \<subseteq> first_matching lib z valid. db (hash lib) m' = assign v ks (z_db lib z)
          \<and> r = res Success (setBy_message (int (card ks))) (int (card ks))" by auto
qed

lemma z_setBy_cases:
  assumes "z_setBy lib valid v z = (r, z')" and "replaying z \<longrightarrow> length v < 2 ^ 32"
  shows "value_accepted lib z v \<and> on_mgr (mgr_setBy (hash lib) (nth_el lib) valid v) z = (r, z')
    \<or> refused r z z' \<and> \<not> value_accepted lib z v"
  using assms
  by (cases "replaying z") (auto simp: z_setBy_def Let_def value_accepted_def refused_def split: if_splits)

lemma z_setBy_spec:
  assumes "z_inv lib z" and "z_roomy lib z" and "lib_ok lib" and "z_setBy lib valid v z = (r, z')"
    and "replaying z \<longrightarrow> length v < 2 ^ 32"
  shows "mgr_only z z' \<and> z_inv lib z'
     \<and> (code r = Success \<longrightarrow> value_accepted lib z v \<and>
          (\<exists>ks \<subseteq> first_matching lib z valid. z_db lib z' = assign v ks (z_db lib z)
             \<and> r = res Success (setBy_message (int (card ks))) (int (card ks))))
     \<and> (code r = Error \<longrightarrow> refused r z z')"
  using z_setBy_cases [OF assms(4,5)]
proof (elim disjE conjE)
  assume a: "value_accepted lib z v" and o: "on_mgr (mgr_setBy (hash lib) (nth_el lib) valid v) z = (r, z')"
  note b = accepted_bounds(2) [OF assms(1) a]
  note oo = on_mgr_only [OF o]
  note s = mgr_setBy_bulk [OF assms(1-3) conjunct1 [OF b] conjunct2 [OF b] conjunct2 [OF oo]]
  from oo s(1) assms(1) have "mgr_only z z' \<and> z_inv lib z'" by (auto intro: z_inv_only)
  with a s(2) show ?thesis by (auto simp: z_db_def)
next
  assume "refused r z z'"
  with assms(1) show ?thesis by (auto simp: refused_def)
qed

lemma z_delBy_spec:
  assumes "z_inv lib z" and "lib_ok lib" and "z_delBy lib valid z = (r, z')"
  shows "mgr_only z z' \<and> z_inv lib z'
     \<and> (code r = Success \<longrightarrow> (replaying z \<or> \<not> readOnly (settings z))
          \<and> z_db lib z' = z_db lib z |` (- first_matching lib z valid)
          \<and> r = res Success (delBy_message (int (card (first_matching lib z valid)))) (int (card (first_matching lib z valid))))
     \<and> (code r = Error \<longrightarrow> refused r z z')"
proof (cases "\<not> replaying z \<and> readOnly (settings z)")
  case True
  with assms show ?thesis by (auto simp: z_delBy_def refused_def)
next
  case False
  with assms(3) have o: "on_mgr (mgr_delBy (hash lib) (nth_el lib) valid) z = (r, z')" by (auto simp: z_delBy_def)
  note oo = on_mgr_only [OF o]
  have m: "mgr_inv (hash lib) (shardManager z)" and sel: "selects (nth_el lib)"
    using assms by (simp_all add: z_inv_def lib_ok_def)
  have "mgr_inv (hash lib) (shardManager z') \<and> z_db lib z' = z_db lib z |` (- first_matching lib z valid)
      \<and> r = res Success (delBy_message (int (card (first_matching lib z valid)))) (int (card (first_matching lib z valid)))"
  proof (cases "limit valid = UINT_MAX")
    case True
    have "length (match_keys (func valid) (shardManager z)) = card (matching lib z valid)"
      using match_keys_spec [OF m, of "func valid"] by (metis distinct_card matching_def z_db_def)
    with mgr_delBy_unlimited [OF m True conjunct2 [OF oo]] True show ?thesis
      by (simp add: first_matching_def matching_def z_db_def)
  next
    case lim: False
    let ?ks = "take (unat (limit valid)) (sorted_list_of_set {k. func valid k \<and> db (hash lib) (shardManager z) k \<noteq> None})"
    have "length ?ks = card (set ?ks)" by (simp add: distinct_card)
    with mgr_delBy_limited [OF m sel lim conjunct2 [OF oo]] lim show ?thesis
      by (simp add: first_matching_def matching_def z_db_def)
  qed
  with oo assms(1) False show ?thesis by (auto intro: z_inv_only)
qed

section \<open>The branches of \<open>execCmd\<close>\<close>

text \<open>A command that only reads, and a command that writes, outside of replay.\<close>

definition read_effect :: "Lib \<Rightarrow> ZestDB \<Rightarrow> ZestDB \<Rightarrow> bool" where
  "read_effect lib z z' \<longleftrightarrow> mgr_only z z' \<and> z_inv lib z' \<and> z_db lib z' = z_db lib z"

definition write_effect :: "Lib \<Rightarrow> ZestDB \<Rightarrow> ResultType \<Rightarrow> ZestDB \<Rightarrow> bool" where
  "write_effect lib z r z' \<longleftrightarrow> mgr_only z z' \<and> z_inv lib z'
     \<and> (code r = Error \<longrightarrow> z_db lib z' = z_db lib z) \<and> (code r = Success \<longrightarrow> \<not> readOnly (settings z))"

lemma effects_refl [simp]: "z_inv lib z \<Longrightarrow> read_effect lib z z" "z_inv lib z \<Longrightarrow> write_effect lib z (fail m) z"
  by (simp_all add: read_effect_def write_effect_def)

lemma exec_get_effect: "z_inv lib z \<Longrightarrow> exec_get lib ws z = (r, z') \<Longrightarrow> read_effect lib z z'"
  using z_get_spec(1-3) by (auto simp: exec_get_def read_effect_def split: if_splits)

lemma exec_getBy_effect: "z_inv lib z \<Longrightarrow> lib_ok lib \<Longrightarrow> exec_getBy lib ws z = (r, z') \<Longrightarrow> read_effect lib z z'"
  using z_getBy_spec(1-3) [of lib z]
  by (auto simp: exec_getBy_def read_effect_def split: if_splits option.splits prod.splits)

lemma exec_set_effect:
  assumes "z_inv lib z" and "z_roomy lib z" and "\<not> replaying z" and "exec_set lib sv ws z = (r, z')"
  shows "write_effect lib z r z'"
proof (cases "length ws < 3")
  case True
  with assms show ?thesis by (auto simp: exec_set_def split: if_splits)
next
  case False
  then have s: "z_set lib (word_at ws 1) (drop (fst (ws ! 2)) sv) z = (r, z')"
    using assms(4) by (simp add: exec_set_def)
  note f = z_set_spec [OF assms(1,2) s]
  from f assms(3) show ?thesis by (simp add: write_effect_def value_accepted_def)
qed

lemma exec_del_effect:
  assumes "z_inv lib z" and "\<not> replaying z" and "exec_del lib ws z = (r, z')"
  shows "write_effect lib z r z'"
proof (cases "length ws < 2")
  case True
  with assms show ?thesis by (auto simp: exec_del_def)
next
  case False
  then have s: "z_del lib (word_at ws 1) z = (r, z')" using assms(3) by (simp add: exec_del_def)
  note f = z_del_spec [OF assms(1) s]
  from f assms(2) show ?thesis by (simp add: write_effect_def)
qed

lemma exec_setBy_effect:
  assumes "z_inv lib z" and "z_roomy lib z" and "lib_ok lib" and "\<not> replaying z"
    and "exec_setBy lib sv ws z = (r, z')"
  shows "write_effect lib z r z'"
proof -
  have "write_effect lib z r z'" if "z_setBy lib valid v z = (r, z')" for valid v
    using z_setBy_spec [OF assms(1-3) that] assms(4)
    by (auto simp: write_effect_def refused_def value_accepted_def)
  with assms(1,5) show ?thesis
    by (auto simp: exec_setBy_def Let_def split: if_splits option.splits prod.splits)
qed

lemma exec_delBy_effect:
  assumes "z_inv lib z" and "lib_ok lib" and "\<not> replaying z" and "exec_delBy lib ws z = (r, z')"
  shows "write_effect lib z r z'"
proof -
  have "write_effect lib z r z'" if "z_delBy lib valid z = (r, z')" for valid
    using z_delBy_spec [OF assms(1,2) that] assms(3) by (auto simp: write_effect_def refused_def)
  with assms(1,4) show ?thesis
    by (auto simp: exec_delBy_def split: if_splits option.splits prod.splits)
qed

text \<open>The administrative commands keep the map and leave accepted settings behind.\<close>

definition admin_effect :: "Lib \<Rightarrow> ZestDB \<Rightarrow> ZestDB \<Rightarrow> bool" where
  "admin_effect lib z z' \<longleftrightarrow> z_db lib z' = z_db lib z \<and> settings_ok (compiles lib) (settings z')
     \<and> (segsize_ok (settings z') \<longrightarrow> z_inv lib z') \<and> replaying z' = replaying z \<and> authFailures z' = authFailures z
     \<and> \<not> paths_changed (settings z') (settings z) \<and> \<not> network_changed (settings z') (settings z)"

lemma unchanged_settings [simp]: "\<not> paths_changed s s" "\<not> network_changed s s"
  by (simp_all add: paths_changed_def network_changed_def)

lemma admin_effect_same: "z_inv lib z \<Longrightarrow> admin_effect lib z z"
  by (simp add: admin_effect_def z_inv_def)

lemma read_admin_effect: "read_effect lib z z' \<Longrightarrow> admin_effect lib z z'"
  using mgr_only_fields [of z z'] by (auto simp: read_effect_def admin_effect_def z_inv_def)

lemma z_flush_effect: "z_inv lib z \<Longrightarrow> read_effect lib z (z_flush z)"
  using mgr_flush_spec [of "hash lib" "shardManager z"]
  by (auto simp: read_effect_def z_flush_def flushLocked_def mgr_only_def z_inv_def z_db_def)

lemma exec_save_effect:
  assumes "z_inv lib z" and "exec_save z = (r, z')"
  shows "admin_effect lib z z'"
proof -
  note f = read_admin_effect [OF z_flush_effect [OF assms(1)], unfolded z_flush_def]
  have "admin_effect lib z ((flushLocked z)\<lparr>archiveDir := d, saves := x\<rparr>)" for d x
    using f by (simp add: admin_effect_def z_db_def z_inv_def)
  with f assms show ?thesis
    by (auto simp: exec_save_def createArchive_def Let_def admin_effect_same split: prod.splits if_splits list.splits)
qed

lemma reloadConfig_effect:
  assumes "z_inv lib z" and "reloadConfig lib z = (r, z')"
  shows "admin_effect lib z z'"
proof (cases "z' = z")
  case True
  with assms(1) show ?thesis by (simp add: admin_effect_same)
next
  case False
  then obtain s us where l: "loadConfig (compiles lib) (sha lib) (cwd lib) (config z) = Some (s, us)"
    and c: "\<not> paths_changed s (settings z)" "\<not> network_changed s (settings z)"
    and z': "z' = z\<lparr>settings := s, users := us, logDebug := isDebug s,
                  shardManager := mgr_reloadSettings s (shardManager z)\<rparr>"
    using assms(2) by (auto simp: reloadConfig_def split: option.splits if_splits)
  have m: "mgr_inv (hash lib) (shardManager z)" using assms(1) by (simp add: z_inv_def)
  from loadConfig_settings_ok [OF l] mgr_reloadSettings_spec [OF m, of s] c show ?thesis
    by (simp add: admin_effect_def z' z_db_def z_inv_def)
qed

lemma exec_scfg_effect:
  assumes "z_inv lib z" and "exec_scfg lib ws z = (ro, z')" and "length ws \<ge> 3 \<longrightarrow> word_at ws 2 \<noteq> ''''"
  shows "admin_effect lib z z'" and "users z' = users z"
proof -
  let ?p = "toLowerStr (word_at ws 1)" and ?v = "word_at ws 2"
  have "admin_effect lib z z' \<and> users z' = users z"
  proof (cases "z' = z")
    case True
    with assms(1) show ?thesis by (simp add: admin_effect_same)
  next
    case False
    with assms(2) have len: "length ws \<ge> 3" by (auto simp: exec_scfg_def split: if_splits)
    obtain s where s: "scfg (compiles lib) (what lib) ?p ?v (settings z) = Inr s"
      using False assms(2) len by (cases "scfg (compiles lib) (what lib) ?p ?v (settings z)") (auto simp: exec_scfg_def)
    define d where "d = (if ?p = ''isdebug'' then isDebug s else logDebug z)"
    have z': "z' = z\<lparr>settings := s, logDebug := d\<rparr> \<or>
        (\<exists>n. z' = z\<lparr>settings := s, logDebug := d, config := Some n, shardManager := mgr_reloadSettings s (shardManager z)\<rparr>)"
      using assms(2) len s by (cases "config z") (auto simp: exec_scfg_def Let_def d_def)
    have ok: "settings_ok (compiles lib) s" using scfg_settings_ok [OF _ s] assms(1,3) len by (simp add: z_inv_def)
    have m: "mgr_inv (hash lib) (shardManager z)" using assms(1) by (simp add: z_inv_def)
    from z' ok m scfg_keeps_fixed [OF s] mgr_reloadSettings_spec [OF m, of s] show ?thesis
      by (elim disjE exE) (simp_all add: admin_effect_def z_db_def z_inv_def)
  qed
  then show "admin_effect lib z z'" "users z' = users z" by auto
qed

text \<open>One command, outside of replay.\<close>

lemma run_cmd_write:
  assumes "z_inv lib z" and "z_roomy lib z" and "lib_ok lib" and "\<not> replaying z" and "isWrite cmd"
    and "run_cmd lib cmd sv ws z = (ro, z')"
  shows "\<exists>r. ro = Some r \<and> write_effect lib z r z'"
proof -
  consider "cmd = ''s''" | "cmd = ''d''" | "cmd = ''sb''" | "cmd = ''db''"
    using assms(5) by (auto simp: isWrite_def)
  then show ?thesis
  proof cases
    case 1
    with assms(6) show ?thesis
      using exec_set_effect [OF assms(1,2,4)] by (auto simp: run_cmd_def apfst_def map_prod_def split: prod.splits)
  next
    case 2
    with assms(6) show ?thesis
      using exec_del_effect [OF assms(1,4)] by (auto simp: run_cmd_def apfst_def map_prod_def split: prod.splits)
  next
    case 3
    with assms(6) show ?thesis
      using exec_setBy_effect [OF assms(1-4)] by (auto simp: run_cmd_def apfst_def map_prod_def split: prod.splits)
  next
    case 4
    with assms(6) show ?thesis
      using exec_delBy_effect [OF assms(1,3,4)] by (auto simp: run_cmd_def apfst_def map_prod_def split: prod.splits)
  qed
qed

lemma run_cmd_other:
  assumes "z_inv lib z" and "lib_ok lib" and "\<not> isWrite cmd"
    and "run_cmd lib cmd sv ws z = (ro, z')" and "length ws \<ge> 3 \<longrightarrow> word_at ws 2 \<noteq> ''''"
  shows "admin_effect lib z z'" and "\<not> isAdmin cmd \<Longrightarrow> read_effect lib z z'"
    and "cmd \<noteq> ''r'' \<Longrightarrow> users z' = users z"
proof -
  have r: "read_effect lib z z'" if "\<not> isAdmin cmd \<or> cmd = ''f'' \<or> cmd = ''gcfg''"
  proof -
    note e = exec_get_effect [OF assms(1)] exec_getBy_effect [OF assms(1,2)] z_flush_effect [OF assms(1)]
    from that assms(3) have "cmd \<notin> {''s'', ''d'', ''sb'', ''db'', ''r'', ''scfg'', ''save''}"
      by (auto simp: isWrite_def isAdmin_def)
    with assms(1,4) show ?thesis
      unfolding run_cmd_def using e by (auto simp: apfst_def map_prod_def split: prod.splits if_splits)
  qed
  from r show "\<not> isAdmin cmd \<Longrightarrow> read_effect lib z z'" by simp
  consider (plain) "\<not> isAdmin cmd \<or> cmd = ''f'' \<or> cmd = ''gcfg''" | (reload) "cmd = ''r''" | (scfg) "cmd = ''scfg''"
    | (save) "cmd = ''save''" by (auto simp: isAdmin_def)
  then have "admin_effect lib z z' \<and> (cmd \<noteq> ''r'' \<longrightarrow> users z' = users z)"
  proof cases
    case plain
    from r [OF plain] show ?thesis
      using read_admin_effect mgr_only_fields(2) by (auto simp: read_effect_def)
  next
    case reload
    with assms(4) have "\<exists>x. reloadConfig lib z = (x, z')"
      by (auto simp: run_cmd_def apfst_def map_prod_def split: prod.splits)
    with reload reloadConfig_effect [OF assms(1)] show ?thesis by blast
  next
    case scfg
    with assms(4) have "exec_scfg lib ws z = (ro, z')" by (simp add: run_cmd_def)
    from exec_scfg_effect [OF assms(1) this assms(5)] show ?thesis by simp
  next
    case save
    with assms(4) obtain x where x: "exec_save z = (x, z')"
      by (auto simp: run_cmd_def apfst_def map_prod_def split: prod.splits)
    then have "users z' = users z"
      by (auto simp: exec_save_def createArchive_def flushLocked_def Let_def split: prod.splits if_splits list.splits)
    with exec_save_effect [OF assms(1) x] show ?thesis by simp
  qed
  then show "admin_effect lib z z'" "cmd \<noteq> ''r'' \<Longrightarrow> users z' = users z" by auto
qed

section \<open>Logging\<close>

lemma wal_frame:
  "shard_inv sh \<Longrightarrow> shard_inv (sh\<lparr>sh_wal := w, sh_ios := s\<rparr>)"
  "contents (sh\<lparr>sh_wal := w, sh_ios := s\<rparr>) = contents sh"
  by (auto simp: shard_inv_def store_inv_def index_live_def contents_alt)

lemma appendToWAL_spec:
  assumes "mgr_inv h mgr" and "appendToWAL h k cmd mgr = (ok, mgr')"
  shows "mgr_inv h mgr'" and "db h mgr' = db h mgr"
proof -
  let ?i = "getShardId h mgr k"
  let ?sh = "mgr_shards mgr ! ?i"
  obtain w s q where m: "mgr' = mgr\<lparr>mgr_shards := (mgr_shards mgr)[?i := ?sh\<lparr>sh_wal := w, sh_ios := s\<rparr>], mgr_nextSeq := q\<rparr>"
    using assms(2) by (auto simp: appendToWAL_def Let_def split: prod.splits)
  note h = on_home_shard [OF assms(1) refl wal_frame(1) [OF mgr_inv_shard [OF assms(1) getShardId_less [OF assms(1)]]] _ m]
  from h(1) wal_frame(2) show "mgr_inv h mgr'" by simp
  from h(2) wal_frame(2) show "db h mgr' = db h mgr" by (simp add: db_def fun_upd_idem)
qed

lemma sh_sync_frame: "shard_inv sh \<Longrightarrow> shard_inv (snd (sh_sync sh)) \<and> contents (snd (sh_sync sh)) = contents sh"
  using wal_frame by (auto simp: sh_sync_def split: prod.splits)

lemma syncWAL_spec:
  assumes "mgr_inv h mgr"
  shows "mgr_inv h (snd (syncWAL mgr))" and "db h (snd (syncWAL mgr)) = db h mgr"
  using mgr_map_shards [OF assms, of "\<lambda>sh. snd (sh_sync sh)" "snd (syncWAL mgr)" "mgr_nextSeq mgr"] sh_sync_frame
  by (auto simp: syncWAL_def Let_def comp_def)

lemma z_appendToWAL_effect:
  assumes "z_inv lib z" and "z_appendToWAL lib k cmd z = (ok, z')"
  shows "read_effect lib z z'"
proof (cases "replaying z")
  case True
  with assms show ?thesis by (simp add: z_appendToWAL_def)
next
  case False
  with assms(2) have o: "on_mgr (appendToWAL (hash lib) k cmd) z = (ok, z')" by (simp add: z_appendToWAL_def)
  have m: "mgr_inv (hash lib) (shardManager z)" using assms(1) by (simp add: z_inv_def)
  from on_mgr_only [OF o] appendToWAL_spec [OF m] assms(1) show ?thesis
    by (auto simp: read_effect_def z_db_def intro: z_inv_only)
qed

lemma z_syncWAL_effect:
  assumes "z_inv lib z" and "z_syncWAL z = (ok, z')"
  shows "read_effect lib z z'"
proof -
  have m: "mgr_inv (hash lib) (shardManager z)" using assms(1) by (simp add: z_inv_def)
  have o: "on_mgr syncWAL z = (ok, z')" using assms(2) by (simp add: z_syncWAL_def)
  from on_mgr_only [OF o] syncWAL_spec [OF m] assms(1) show ?thesis
    by (auto simp: read_effect_def z_db_def intro: z_inv_only)
qed

lemma read_effect_trans: "read_effect lib a b \<Longrightarrow> read_effect lib b c \<Longrightarrow> read_effect lib a c"
  by (auto simp: read_effect_def intro: mgr_only_trans)

lemma log_write_effect:
  assumes "z_inv lib z" and "log_write lib write ws cmd syncWal r z = (r', z')"
  shows "read_effect lib z z'" and "code r = Error \<Longrightarrow> r' = r \<and> z' = z"
    and "r' = r \<or> r' = res Error WAL_WRITE_FAILED (affectedRows r)"
proof -
  have "read_effect lib z z' \<and> (code r = Error \<longrightarrow> r' = r \<and> z' = z)
      \<and> (r' = r \<or> r' = res Error WAL_WRITE_FAILED (affectedRows r))"
  proof (cases "\<not> replaying z \<and> code r = Success \<and> write \<and> length ws \<ge> 2")
    case True
    obtain ok z1 where a: "z_appendToWAL lib (word_at ws 1) cmd z = (ok, z1)"
      by (cases "z_appendToWAL lib (word_at ws 1) cmd z")
    note e1 = z_appendToWAL_effect [OF assms(1) a]
    obtain ok2 z2 where s: "z_syncWAL z1 = (ok2, z2)" by (cases "z_syncWAL z1")
    have "z_inv lib z1" using e1 by (simp add: read_effect_def)
    note e2 = read_effect_trans [OF e1 z_syncWAL_effect [OF this s]]
    from assms(2) True a s e1 e2 show ?thesis by (auto simp: log_write_def split: if_splits)
  next
    case False
    then have "r' = r \<and> z' = z" using assms(2) by (auto simp: log_write_def split: if_splits)
    with assms(1) show ?thesis by simp
  qed
  then show "read_effect lib z z'" "code r = Error \<Longrightarrow> r' = r \<and> z' = z"
    "r' = r \<or> r' = res Error WAL_WRITE_FAILED (affectedRows r)" by auto
qed

section \<open>A whole command\<close>

text \<open>The command word of a line, if there is one.\<close>

definition command_word :: "string \<Rightarrow> string option" where
  "command_word line = map_option (\<lambda>sv. alias_of (toLowerStr (snd (hd (words_of sv))))) (trim_command line)"

lemma execCmd_cases:
  assumes "execCmd lib line role sync z = (ro, z')"
  obtains (blank) "command_word line = None" "ro = Some (fail NO_COMMAND_GIVEN)" "z' = z"
  | (denied) cmd where "command_word line = Some cmd" "\<not> permitted cmd role" "ro = Some (fail PERMISSION_DENIED)" "z' = z"
  | (threw) cmd sv where "command_word line = Some cmd" "trim_command line = Some sv" "permitted cmd role"
      "run_cmd lib cmd sv (words_of sv) z = (None, z')" "ro = None"
  | (ran) cmd sv r z1 r' where "command_word line = Some cmd" "trim_command line = Some sv" "permitted cmd role"
      "run_cmd lib cmd sv (words_of sv) z = (Some r, z1)"
      "log_write lib (isWrite cmd) (words_of sv) line sync r z1 = (r', z')" "ro = Some r'"
proof (cases "trim_command line")
  case None
  with assms show ?thesis by (intro blank) (auto simp: execCmd_def command_word_def)
next
  case (Some sv)
  let ?ws = "words_of sv"
  let ?cmd = "alias_of (toLowerStr (snd (hd ?ws)))"
  have cw: "command_word line = Some ?cmd" by (simp add: command_word_def Some)
  obtain x z1 where x: "run_cmd lib ?cmd sv ?ws z = (x, z1)" by (cases "run_cmd lib ?cmd sv ?ws z")
  have eq: "execCmd lib line role sync z =
      (if \<not> permitted ?cmd role then (Some (fail PERMISSION_DENIED), z)
       else case x of None \<Rightarrow> (None, z1)
            | Some r \<Rightarrow> apfst Some (log_write lib (isWrite ?cmd) ?ws line sync r z1))"
    using words_of_nonempty [OF Some] by (simp add: execCmd_def Some Let_def x split: option.split)
  show ?thesis
  proof (cases "permitted ?cmd role")
    case False
    with assms eq cw show ?thesis by (intro denied) auto
  next
    case True
    show ?thesis
    proof (cases x)
      case None
      with assms eq True x cw Some show ?thesis by (intro threw) auto
    next
      case (Some r)
      obtain r' z2 where "log_write lib (isWrite ?cmd) ?ws line sync r z1 = (r', z2)"
        by (cases "log_write lib (isWrite ?cmd) ?ws line sync r z1")
      with assms eq True x cw Some \<open>trim_command line = Some sv\<close> show ?thesis by (intro ran [of ?cmd sv r z1 r']) auto
    qed
  qed
qed

lemma third_word: "trim_command line = Some sv \<Longrightarrow> length (words_of sv) \<ge> 3 \<longrightarrow> word_at (words_of sv) 2 \<noteq> ''''"
  using words_of_plain [of line sv "words_of sv ! 2"] by (auto simp: plain_word_def)

text \<open>
  The effect of a command on the map: an answer other than success (or a success that could not be
  logged) means that nothing changed, and only the four writing commands change it at all.
\<close>

lemma logged_write_effect:
  assumes "write_effect lib z r z1" and "log_write lib wr ws cmd sync r z1 = (r', z')"
  shows "mgr_only z z' \<and> z_inv lib z'"
    and "code r = Error \<or> readOnly (settings z) \<Longrightarrow> z_db lib z' = z_db lib z"
    and "code r' = Error \<Longrightarrow> response r' \<noteq> WAL_WRITE_FAILED \<Longrightarrow> z_db lib z' = z_db lib z"
proof -
  have i: "z_inv lib z1" using assms(1) by (simp add: write_effect_def)
  note l = log_write_effect [OF i assms(2)]
  show "mgr_only z z' \<and> z_inv lib z'"
    using assms(1) l(1) mgr_only_trans by (auto simp: write_effect_def read_effect_def)
  show d: "z_db lib z' = z_db lib z" if "code r = Error \<or> readOnly (settings z)"
    using that assms(1) l(1) by (cases "code r") (auto simp: write_effect_def read_effect_def)
  show "z_db lib z' = z_db lib z" if "code r' = Error" "response r' \<noteq> WAL_WRITE_FAILED"
    using d l(3) that by auto
qed

lemma execCmd_effect:
  assumes "z_inv lib z" and "z_roomy lib z" and "lib_ok lib" and "\<not> replaying z"
    and "execCmd lib line role sync z = (ro, z')"
  shows "\<not> (\<exists>cmd. command_word line = Some cmd \<and> isWrite cmd \<and> role \<noteq> Read) \<Longrightarrow> admin_effect lib z z'"
    and "command_word line = Some cmd \<Longrightarrow> isWrite cmd \<Longrightarrow> mgr_only z z' \<and> z_inv lib z' \<and> ro \<noteq> None"
    and "ro = Some r \<Longrightarrow> code r = Error \<Longrightarrow> response r \<noteq> WAL_WRITE_FAILED \<Longrightarrow> z_db lib z' = z_db lib z"
    and "readOnly (settings z) \<Longrightarrow> z_db lib z' = z_db lib z"
proof -
  have same: "admin_effect lib z z'" "mgr_only z z' \<and> z_inv lib z'" "z_db lib z' = z_db lib z" if "z' = z"
    using that assms(1) by (simp_all add: admin_effect_same)
  have "(\<not> (\<exists>cmd. command_word line = Some cmd \<and> isWrite cmd \<and> role \<noteq> Read) \<longrightarrow> admin_effect lib z z')
    \<and> (\<forall>cmd. command_word line = Some cmd \<and> isWrite cmd \<longrightarrow> mgr_only z z' \<and> z_inv lib z' \<and> ro \<noteq> None)
    \<and> (\<forall>r. ro = Some r \<and> code r = Error \<and> response r \<noteq> WAL_WRITE_FAILED \<longrightarrow> z_db lib z' = z_db lib z)
    \<and> (readOnly (settings z) \<longrightarrow> z_db lib z' = z_db lib z)"
    using assms(5)
  proof (cases rule: execCmd_cases)
    case blank
    with same show ?thesis by simp
  next
    case denied
    with same show ?thesis by simp
  next
    case (threw cmd sv)
    have "\<not> isWrite cmd" using run_cmd_write [OF assms(1-4) _ threw(4)] by auto
    from run_cmd_other(1) [OF assms(1,3) this threw(4) third_word [OF threw(2)]] threw(1) \<open>\<not> isWrite cmd\<close>
    show ?thesis by (simp add: admin_effect_def threw(5))
  next
    case (ran cmd sv r z1 r')
    show ?thesis
    proof (cases "isWrite cmd")
      case True
      have "write_effect lib z r z1" using run_cmd_write [OF assms(1-4) True ran(4)] by auto
      note l = logged_write_effect [OF this ran(5)]
      have "role \<noteq> Read" using ran(3) True by (auto simp: permitted_def)
      with l True ran(1,6) show ?thesis by simp
    next
      case False
      note e = run_cmd_other(1) [OF assms(1,3) False ran(4) third_word [OF ran(2)]]
      have "z' = z1" using ran(5) False by (simp add: log_write_def)
      with e ran(1) False show ?thesis by (auto simp: admin_effect_def)
    qed
  qed
  then show "\<not> (\<exists>cmd. command_word line = Some cmd \<and> isWrite cmd \<and> role \<noteq> Read) \<Longrightarrow> admin_effect lib z z'"
    "command_word line = Some cmd \<Longrightarrow> isWrite cmd \<Longrightarrow> mgr_only z z' \<and> z_inv lib z' \<and> ro \<noteq> None"
    "ro = Some r \<Longrightarrow> code r = Error \<Longrightarrow> response r \<noteq> WAL_WRITE_FAILED \<Longrightarrow> z_db lib z' = z_db lib z"
    "readOnly (settings z) \<Longrightarrow> z_db lib z' = z_db lib z" by blast+
qed

section \<open>Command lines\<close>

text \<open>The text of the single-key commands, written with single blanks.\<close>

definition get_line :: "string \<Rightarrow> string" where "get_line k = ''get '' @ k"
definition set_line :: "string \<Rightarrow> string \<Rightarrow> string" where "set_line k v = ''set '' @ k @ '' '' @ v"
definition del_line :: "string \<Rightarrow> string" where "del_line k = ''del '' @ k"

text \<open>A value that survives the trimming: it does not start with white space nor end in a line end.\<close>

definition plain_value :: "string \<Rightarrow> bool" where
  "plain_value v \<longleftrightarrow> v \<noteq> '''' \<and> \<not> is_ws (hd v) \<and> \<not> is_eol (last v)"

lemma plain_word_parts: "plain_word k \<Longrightarrow> k \<noteq> [] \<and> \<not> is_ws (hd k) \<and> \<not> is_eol (last k)"
proof -
  assume "plain_word k"
  then have "\<not> is_ws c" if "c \<in> set k" for c using that by (auto simp: plain_word_def list_all_iff)
  moreover have "k \<noteq> []" using \<open>plain_word k\<close> by (simp add: plain_word_def)
  ultimately have "\<not> is_ws (hd k)" "\<not> is_ws (last k)" by simp_all
  then show ?thesis using \<open>k \<noteq> []\<close> by (auto simp: is_ws_def is_eol_def)
qed

lemma command_names:
  "plain_word ''get''" "plain_word ''set''" "plain_word ''del''"
  "alias_of (toLowerStr ''get'') = ''g''" "alias_of (toLowerStr ''set'') = ''s''" "alias_of (toLowerStr ''del'') = ''d''"
  by code_simp+

lemma one_key_line:
  assumes "plain_word c" and "plain_word k"
  shows "trim_command (c @ '' '' @ k) = Some (c @ '' '' @ k)" and "words_of (c @ '' '' @ k) = [(0, c), (length c + 1, k)]"
proof -
  note pk = plain_word_parts [OF assms(2)] and pc = plain_word_parts [OF assms(1)]
  show "trim_command (c @ '' '' @ k) = Some (c @ '' '' @ k)"
    using pk pc by (intro trim_command_plain) auto
  show "words_of (c @ '' '' @ k) = [(0, c), (length c + 1, k)]"
    unfolding words_of_def split_words_step [OF assms(1) conjunct1 [OF pk] conjunct1 [OF conjunct2 [OF pk]]]
    using split_words_end [OF assms(2)] by simp
qed

lemma execCmd_get_line:
  assumes "plain_word k"
  shows "execCmd lib (get_line k) role sync z = apfst Some (z_get lib k z)"
proof -
  note l = one_key_line [OF command_names(1) assms]
  obtain r z1 where g: "z_get lib k z = (r, z1)" by (cases "z_get lib k z")
  have "permitted ''g'' role" by (simp add: permitted_def isWrite_def isAdmin_def)
  moreover have "run_cmd lib ''g'' (get_line k) (words_of (get_line k)) z = (Some r, z1)"
    using l g by (simp add: run_cmd_def exec_get_def get_line_def)
  ultimately show ?thesis
    using l g command_names(4)
    by (simp add: execCmd_def get_line_def log_write_def isWrite_def)
qed

lemma execCmd_del_line:
  assumes "plain_word k" and "role \<noteq> Read"
  shows "execCmd lib (del_line k) role sync z =
     (case z_del lib k z of (r, z1) \<Rightarrow>
        apfst Some (log_write lib True [(0, ''del''), (4, k)] (del_line k) sync r z1))"
proof -
  note l = one_key_line [OF command_names(3) assms(1)]
  obtain r z1 where g: "z_del lib k z = (r, z1)" by (cases "z_del lib k z")
  have "permitted ''d'' role" using assms(2) by (simp add: permitted_def isWrite_def isAdmin_def)
  moreover have "run_cmd lib ''d'' (del_line k) (words_of (del_line k)) z = (Some r, z1)"
    using l g by (simp add: run_cmd_def exec_del_def del_line_def)
  ultimately show ?thesis
    using l g command_names(6) by (simp add: execCmd_def del_line_def isWrite_def eval_nat_numeral)
qed

lemma set_line_words:
  assumes "plain_word k" and "plain_value v"
  shows "trim_command (set_line k v) = Some (set_line k v)"
    and "\<exists>w ws. words_of (set_line k v) = (0, ''set'') # (4, k) # (5 + length k, w) # ws"
proof -
  note pk = plain_word_parts [OF assms(1)]
  have pv: "v \<noteq> []" "\<not> is_ws (hd v)" "\<not> is_eol (last v)" using assms(2) by (auto simp: plain_value_def)
  have s: "set_line k v = ''set'' @ '' '' @ k @ '' '' @ v" by (simp add: set_line_def)
  show "trim_command (set_line k v) = Some (set_line k v)"
    unfolding s using pv(1,3) by (intro trim_command_plain) (auto simp: is_ws_def)
  have five: "length ''set'' + length k + 2 = 5 + length k" "length ''set'' + 1 = 4" by simp_all
  show "\<exists>w ws. words_of (set_line k v) = (0, ''set'') # (4, k) # (5 + length k, w) # ws"
    using words_of_command [OF command_names(2) assms(1) pv(1,2)] unfolding s five .
qed

lemma execCmd_set_line:
  assumes "plain_word k" and "plain_value v" and "role \<noteq> Read"
  shows "\<exists>w ws. execCmd lib (set_line k v) role sync z =
     (case z_set lib k v z of (r, z1) \<Rightarrow>
        apfst Some (log_write lib True ((0, ''set'') # (4, k) # (5 + length k, w) # ws) (set_line k v) sync r z1))"
proof -
  note t = set_line_words(1) [OF assms(1,2)]
  obtain w ws where ws: "words_of (set_line k v) = (0, ''set'') # (4, k) # (5 + length k, w) # ws"
    using set_line_words(2) [OF assms(1,2)] by blast
  obtain r z1 where g: "z_set lib k v z = (r, z1)" by (cases "z_set lib k v z")
  have p: "permitted ''s'' role" using assms(3) by (simp add: permitted_def isWrite_def isAdmin_def)
  have "set_line k v = (''set '' @ k @ '' '') @ v" "length (''set '' @ k @ '' '') = 5 + length k"
    by (simp_all add: set_line_def)
  then have "drop (5 + length k) (set_line k v) = v" by (metis append_eq_conv_conj)
  then have "run_cmd lib ''s'' (set_line k v) (words_of (set_line k v)) z = (Some r, z1)"
    using ws g by (simp add: run_cmd_def exec_set_def)
  with p t ws g command_names(5) show ?thesis
    by (intro exI [of _ w] exI [of _ ws]) (simp add: execCmd_def isWrite_def)
qed

end
