(* ===== verification/Replay.thy ===== *)
theory Replay
  imports Commands
begin

text \<open>
  Replay of the write-ahead logs (\<open>ZestDB::replayWAL\<close>, \<open>ShardManager::replayAllWAL\<close>): the writes
  that the logs hold are applied again, in the order of their sequence numbers. For single-key
  writes the outcome depends only on the values that the database had for the keys no logged write
  touches, so a log whose writes had already reached the files in part restores the same map.
\<close>

section \<open>Logged writes\<close>

datatype kv_write = WSet string string | WDel string

fun line_of :: "kv_write \<Rightarrow> string" where
  "line_of (WSet k v) = set_line k v"
| "line_of (WDel k) = del_line k"

fun write_key :: "kv_write \<Rightarrow> string" where
  "write_key (WSet k v) = k"
| "write_key (WDel k) = k"

fun apply_write :: "kv_write \<Rightarrow> (string \<Rightarrow> string option) \<Rightarrow> string \<Rightarrow> string option" where
  "apply_write (WSet k v) m = m(k \<mapsto> v)"
| "apply_write (WDel k) m = m(k := None)"

fun write_ok :: "kv_write \<Rightarrow> bool" where
  "write_ok (WSet k v) = (plain_word k \<and> length k \<le> MAX_KEY_SIZE \<and> plain_value v \<and> length v < 2 ^ 32)"
| "write_ok (WDel k) = plain_word k"

fun write_size :: "kv_write \<Rightarrow> nat" where
  "write_size (WSet k v) = length v"
| "write_size (WDel k) = 0"

text \<open>The last write to a key decides.\<close>

lemma fold_apply_other: "k \<notin> write_key ` set ws \<Longrightarrow> fold apply_write ws m k = m k"
proof (induction ws arbitrary: m)
  case Nil
  show ?case by simp
next
  case (Cons w ws)
  then show ?case by (cases w) auto
qed

lemma fold_apply_written: "k \<in> write_key ` set ws \<Longrightarrow> fold apply_write ws m k = fold apply_write ws m' k"
proof (induction ws arbitrary: m m')
  case Nil
  then show ?case by simp
next
  case (Cons w ws)
  show ?case
  proof (cases "k \<in> write_key ` set ws")
    case True
    with Cons.IH show ?thesis by simp
  next
    case False
    with Cons.prems show ?thesis by (cases w) (auto simp: fold_apply_other)
  qed
qed

lemma fold_apply_idem:
  assumes "\<And>k. k \<notin> write_key ` set ws \<Longrightarrow> m' k = m k"
  shows "fold apply_write ws m' = fold apply_write ws m"
proof
  fix k
  show "fold apply_write ws m' k = fold apply_write ws m k"
    using assms fold_apply_other fold_apply_written by (cases "k \<in> write_key ` set ws") metis+
qed

section \<open>Shards that are ready\<close>

definition mgr_ready :: "nat \<Rightarrow> nat \<Rightarrow> ShardManager \<Rightarrow> bool" where
  "mgr_ready n mx mgr \<longleftrightarrow> list_all (\<lambda>sh. ready n sh \<and> mx \<le> unat (SegSize (sh_settings sh))) (mgr_shards mgr)"

lemma ready_less: "ready (Suc n) sh \<Longrightarrow> ready n sh"
  by (auto simp: ready_def intro: ids_for_less)

lemma mgr_ready_step:
  assumes "mgr_ready (Suc n) mx mgr" and "i < length (mgr_shards mgr)"
    and "f (mgr_shards mgr ! i) = (r, run_op x (mgr_shards mgr ! i))"
    and "op_ok (of_nat mx) x" and "mx < 2 ^ 64" and "on_shard i f mgr = (r', mgr')"
  shows "mgr_ready n mx mgr'"
proof -
  let ?sh = "mgr_shards mgr ! i"
  have s: "ready (Suc n) ?sh" "mx \<le> unat (SegSize (sh_settings ?sh))"
    using assms(1,2) by (auto simp: mgr_ready_def list_all_length)
  have "op_ok (SegSize (sh_settings ?sh)) x"
    using assms(4,5) s(2) by (cases x) (auto simp: unat_of_nat_u64)
  note r = run_op_ready [OF s(1) this]
  have m: "mgr_shards mgr' = (mgr_shards mgr)[i := run_op x ?sh]"
    using assms(3,6) by (auto simp: on_shard_def)
  have "ready n (mgr_shards mgr' ! j) \<and> mx \<le> unat (SegSize (sh_settings (mgr_shards mgr' ! j)))"
    if "j < length (mgr_shards mgr)" for j
    using that assms(1,2) r s(2) ready_less
    by (cases "j = i") (auto simp: m mgr_ready_def list_all_length)
  then show ?thesis by (simp add: mgr_ready_def list_all_length m)
qed

lemma mgr_set_ready:
  assumes "mgr_inv h mgr" and "mgr_ready (Suc n) mx mgr" and "length k \<le> MAX_KEY_SIZE" and "v \<noteq> ''''"
    and "length v \<le> mx" and "length v < 2 ^ 32" and "mx < 2 ^ 64" and "mgr_set h k v mgr = (r, mgr')"
  shows "mgr_ready n mx mgr'" and "code r = Success" and "mgr_inv h mgr'" and "db h mgr' = (db h mgr)(k \<mapsto> v)"
proof -
  let ?i = "getShardId h mgr k"
  let ?sh = "mgr_shards mgr ! ?i"
  note i = getShardId_less [OF assms(1), of k]
  have s: "ready (Suc n) ?sh" "mx \<le> unat (SegSize (sh_settings ?sh))"
    using assms(2) i by (auto simp: mgr_ready_def list_all_length)
  then have d: "shard_inv ?sh" "ids_left (storageManager ?sh)" "dir_clean (storageManager ?sh)" "all_ok (sh_ios ?sh)"
    by (auto simp: ready_def sound_files_def intro: ids_for_left)
  have o: "on_shard ?i (sh_set k v) mgr = (r, mgr')" using assms(8) by (simp add: mgr_set_def)
  have x: "sh_set k v ?sh = (fst (sh_set k v ?sh), run_op (OpSet k v) ?sh)" by simp
  show "mgr_ready n mx mgr'"
    using mgr_ready_step [OF assms(2) i x _ assms(7) o] assms(3-7) by (simp add: unat_of_nat_u64)
  have "code (fst (sh_set k v ?sh)) = Success"
    using sh_set_succeeds [OF d(1-3) _ assms(6) d(4)] s(2) assms(5) by simp
  then show c: "code r = Success" using o by (auto simp: on_shard_def split: prod.splits)
  from mgr_set_spec [OF assms(1) d(2) assms(6,4,3,8)] c
  show "mgr_inv h mgr'" "db h mgr' = (db h mgr)(k \<mapsto> v)" by simp_all
qed

lemma mgr_del_ready:
  assumes "mgr_inv h mgr" and "mgr_ready (Suc n) mx mgr" and "mx < 2 ^ 64" and "mgr_del h k mgr = (r, mgr')"
  shows "mgr_ready n mx mgr'"
proof -
  let ?i = "getShardId h mgr k"
  have x: "sh_del k (mgr_shards mgr ! ?i) = (fst (sh_del k (mgr_shards mgr ! ?i)), run_op (OpDel k) (mgr_shards mgr ! ?i))"
    by simp
  show ?thesis
    using mgr_ready_step [where f = "sh_del k" and i = ?i and x = "OpDel k", OF assms(2) getShardId_less [OF assms(1)] x _ assms(3)]
      assms(4) by (simp add: mgr_del_def)
qed

section \<open>Replaying one entry\<close>

lemma replay_exec_line:
  assumes "z_inv lib z" and "replaying z" and "mgr_ready (Suc n) mx (shardManager z)" and "mx < 2 ^ 64"
    and "write_ok w" and "write_size w \<le> mx"
  shows "\<exists>z'. replay_exec lib (line_of w) z = Some z' \<and> z_inv lib z' \<and> mgr_only z z'
     \<and> mgr_ready n mx (shardManager z') \<and> z_db lib z' = apply_write w (z_db lib z)"
proof (cases w)
  case (WSet k v)
  have m: "mgr_inv (hash lib) (shardManager z)" using assms(1) by (simp add: z_inv_def)
  have ok: "plain_word k" "length k \<le> MAX_KEY_SIZE" "plain_value v" "length v < 2 ^ 32" "length v \<le> mx" "v \<noteq> ''''"
    using assms(5,6) WSet by (auto simp: plain_value_def)
  obtain r z1 where s: "z_set lib k v z = (r, z1)" by (cases "z_set lib k v z")
  then have "on_mgr (mgr_set (hash lib) k v) z = (r, z1)" using assms(2) ok(6) by (simp add: z_set_def Let_def)
  note o = on_mgr_only [OF this]
  note f = mgr_set_ready [OF m assms(3) ok(2,6,5,4) assms(4) conjunct2 [OF o]]
  have rp: "replaying z1" using mgr_only_fields(4) [OF conjunct1 [OF o]] assms(2) by simp
  have "execCmd lib (line_of w) Admin True z = (Some r, z1)"
    using execCmd_set_line [OF ok(1,3), of Admin lib True z] s rp by (auto simp: WSet log_write_def)
  then have "replay_exec lib (line_of w) z = Some z1" by (simp add: replay_exec_def)
  with o f assms(1) WSet show ?thesis by (auto simp: z_db_def intro: z_inv_only)
next
  case (WDel k)
  have m: "mgr_inv (hash lib) (shardManager z)" using assms(1) by (simp add: z_inv_def)
  obtain r z1 where s: "z_del lib k z = (r, z1)" by (cases "z_del lib k z")
  then have "on_mgr (mgr_del (hash lib) k) z = (r, z1)" using assms(2) by (simp add: z_del_def Let_def)
  note o = on_mgr_only [OF this]
  note d = z_del_spec [OF assms(1) s]
  have rp: "replaying z1" using mgr_only_fields(4) [OF conjunct1 [OF o]] assms(2) by simp
  have "execCmd lib (line_of w) Admin True z = (Some r, z1)"
    using execCmd_del_line [of k Admin lib True z] assms(5) s rp by (auto simp: WDel log_write_def)
  then have "replay_exec lib (line_of w) z = Some z1" by (simp add: replay_exec_def)
  with o d mgr_del_ready [OF m assms(3,4) conjunct2 [OF o]] assms(2) WDel show ?thesis by auto
qed

lemma replay_loop_lines:
  "z_inv lib z \<Longrightarrow> replaying z \<Longrightarrow> mgr_ready (length ws + n) mx (shardManager z) \<Longrightarrow> mx < 2 ^ 64 \<Longrightarrow>
     list_all write_ok ws \<Longrightarrow> list_all (\<lambda>w. write_size w \<le> mx) ws \<Longrightarrow> map we_cmd es = map line_of ws \<Longrightarrow>
     \<exists>z'. replay_loop (replay_exec lib) es z = Some z' \<and> z_inv lib z' \<and> mgr_only z z'
       \<and> mgr_ready n mx (shardManager z') \<and> z_db lib z' = fold apply_write ws (z_db lib z)"
proof (induction ws arbitrary: z es)
  case Nil
  then show ?case by simp
next
  case (Cons w ws)
  obtain e es1 where es: "es = e # es1" "we_cmd e = line_of w" "map we_cmd es1 = map line_of ws"
    using Cons.prems(7) by auto
  obtain z1 where 1: "replay_exec lib (line_of w) z = Some z1" "z_inv lib z1" "mgr_only z z1"
    "mgr_ready (length ws + n) mx (shardManager z1)" "z_db lib z1 = apply_write w (z_db lib z)"
    using replay_exec_line [of lib z "length ws + n" mx w] Cons.prems by auto
  have rp: "replaying z1" using mgr_only_fields(4) [OF 1(3)] Cons.prems(2) by simp
  obtain z' where 2: "replay_loop (replay_exec lib) es1 z1 = Some z'" "z_inv lib z'" "mgr_only z1 z'"
    "mgr_ready n mx (shardManager z')" "z_db lib z' = fold apply_write ws (z_db lib z1)"
    using Cons.IH [OF 1(2) rp 1(4) Cons.prems(4) _ _ es(3)] Cons.prems(5,6) by auto
  have "replay_loop (replay_exec lib) es z = Some z'" using es 1(1) 2(1) by simp
  with 1(5) 2 mgr_only_trans [OF 1(3) 2(3)] show ?case by auto
qed

section \<open>Replaying the logs\<close>

lemma getCmds_calm [calm]: "getCmds s w = (cs, w', s') \<Longrightarrow> all_ok s \<Longrightarrow> all_ok s'"
  by (auto simp: getCmds_def Let_def split: prod.splits if_splits dest: io_next_calm)

lemma wal_ready_frame: "all_ok s \<Longrightarrow> ready n sh \<Longrightarrow> ready n (sh\<lparr>sh_wal := w, sh_ios := s\<rparr>)"
  using wal_frame(1) [where sh = sh and w = w and s = s] by (auto simp: ready_def sound_files_def flags_ok_def)

lemma sh_getCmds_ready: "ready n sh \<Longrightarrow> ready n (snd (sh_getCmds sh)) \<and> sh_settings (snd (sh_getCmds sh)) = sh_settings sh"
proof -
  assume r: "ready n sh"
  obtain cs w s where g: "getCmds (sh_ios sh) (sh_wal sh) = (cs, w, s)" by (cases "getCmds (sh_ios sh) (sh_wal sh)")
  have "all_ok s" using getCmds_calm [OF g] r by (simp add: ready_def sound_files_def)
  with wal_ready_frame r g show ?thesis by (simp add: sh_getCmds_def)
qed

lemma collectLogs_ready: "mgr_ready n mx mgr \<Longrightarrow> mgr_ready n mx (snd (collectLogs mgr))"
  using sh_getCmds_ready by (auto simp: mgr_ready_def collectLogs_def Let_def list_all_length)

lemma mgr_ready_ios: "mgr_ready n mx mgr \<Longrightarrow> list_all (\<lambda>sh. all_ok (sh_ios sh)) (mgr_shards mgr)"
  by (auto simp: mgr_ready_def list_all_iff ready_def sound_files_def)

definition logs_hold :: "ShardManager \<Rightarrow> WalEntry list list \<Rightarrow> bool" where
  "logs_hold mgr logs \<longleftrightarrow> list_all2 (\<lambda>sh es. wal_logged (sh_wal sh) es) (mgr_shards mgr) logs"

lemma replayWAL_lines:
  assumes "z_inv lib z" and "mgr_ready (length ws) mx (shardManager z)" and "mx < 2 ^ 64"
    and "list_all write_ok ws" and "list_all (\<lambda>w. write_size w \<le> mx) ws"
    and "logs_hold (shardManager z) logs" and "map we_cmd (sort_key we_seq (concat logs)) = map line_of ws"
  shows "\<exists>z'. replayWAL lib z = Some z' \<and> z_inv lib z' \<and> \<not> replaying z'
     \<and> z_db lib z' = fold apply_write ws (z_db lib z)"
proof -
  have m: "mgr_inv (hash lib) (shardManager z)" using assms(1) by (simp add: z_inv_def)
  obtain es m1 where c: "collectLogs (shardManager z) = (es, m1)" by (cases "collectLogs (shardManager z)")
  have es: "map we_cmd es = map line_of ws"
    using collectLogs_logged [OF _ mgr_ready_ios [OF assms(2)], of logs] assms(6,7) c by (simp add: logs_hold_def)
  let ?z = "z\<lparr>replaying := True, shardManager := m1\<rparr>"
  have "mgr_inv (hash lib) m1" and d: "db (hash lib) m1 = db (hash lib) (shardManager z)" and "mgr_ready (length ws) mx m1"
    using collectLogs_spec [OF m] collectLogs_ready [OF assms(2)] c by simp_all
  then have i: "z_inv lib ?z" "mgr_ready (length ws + 0) mx (shardManager ?z)"
    using assms(1) by (simp_all add: z_inv_def)
  obtain z1 where r: "replay_loop (replay_exec lib) es ?z = Some z1" "z_inv lib z1"
    "z_db lib z1 = fold apply_write ws (z_db lib ?z)"
    using replay_loop_lines [OF i(1) _ i(2) assms(3,4,5) es] by auto
  have m1: "mgr_inv (hash lib) (shardManager z1)" using r(2) by (simp add: z_inv_def)
  let ?z' = "z1\<lparr>shardManager := mgr_flush (shardManager z1), replaying := False\<rparr>"
  have "replayWAL lib z = Some ?z'" using c r(1) by (simp add: replayWAL_def replayAllWAL_def)
  moreover have "z_inv lib ?z'" using mgr_flush_spec(1) [OF m1] r(2) by (simp add: z_inv_def)
  moreover have "z_db lib ?z' = fold apply_write ws (z_db lib z)"
    using mgr_flush_spec(2) [OF m1] r(3) d by (simp add: z_db_def)
  ultimately show ?thesis by auto
qed

end
