(* ===== verification/Examples.thy ===== *)
theory Examples
  imports Replay
begin

text \<open>
  A small concrete database, at which the theorems of the development are applied: settings, a shard
  that was just started on an empty directory, a manager of two shards, an instance of the library
  functions and the database made of them.
\<close>

definition st0 :: Settings where
  "st0 = \<lparr>DbPath = ''/db'', IndexPath = '''', WalPath = '''', SSLCertPath = '''', SSLKeyPath = '''',
     ArchiveStoragePath = ''/db/archive'', SegSize = 64, MaxKeySize = 16, MaxValueSize = 32, CacheSize = 4,
     CompactingInterval = 3600, FlushInterval = 120, DBPort = 7321, WebPort = 1237, NetworkValidationStr = ''.*'',
     ArchiveCreationDelay = 3600, ArchiveRetention = 10, MaxConnections = 8, AuthTimeout = 10, IdleTimeout = 300,
     AutoArchiveSaving = True, isDebug = False, useSSL = False, jsonOnly = False, readOnly = False,
     fsyncOnWrite = True\<rparr>"

definition no_files :: ShardFiles where
  "no_files = \<lparr>f_dir = False, f_index = None, f_seg = None, f_wal = None\<rparr>"

definition blank_storage :: StorageManager where
  "blank_storage =
     \<lparr>segments = [(1, \<lparr>ds_segmentId = 1, currentOffset = 0, segment = fs_fresh True [] [],
                       ds_canFlush = False, atWriteEnd = False\<rparr>)],
      latestSegmentId = 1, seg_dir = []\<rparr>"

definition blank_wal :: WAL where
  "blank_wal = \<lparr>wal = fs_fresh True [] [], canClear = True, dirty = False\<rparr>"

definition blank_index :: IndexManager where
  "blank_index = \<lparr>im_index = fs_fresh True [] [], memoryTree = [], im_canFlush = False\<rparr>"

definition blank_shard :: "nat \<Rightarrow> Shard" where
  "blank_shard i =
     \<lparr>sh_settings = shard_settings st0 i, shardId = i, perfMonitor = new_PerfMonitoring, sh_wal = blank_wal,
      indexManager = blank_index, storageManager = blank_storage,
      sh_cache = new_LRUCache 4, isStopped = False, sh_ios = [], sh_clock = []\<rparr>"

lemma new_StorageManager_blank: "new_StorageManager [] [] = (blank_storage, [])"
  by (simp add: new_StorageManager_def sm_boot_def make_segment_def existing_file_def new_DataSegment_def
      openSegment_def refreshFullStatus_def blank_storage_def fs_fresh_def)

lemma blank_shard_fields [simp]:
  "sh_settings (blank_shard i) = shard_settings st0 i" "sh_ios (blank_shard i) = []"
  "indexManager (blank_shard i) = blank_index" "storageManager (blank_shard i) = blank_storage"
  "sh_wal (blank_shard i) = blank_wal" "sh_cache (blank_shard i) = new_LRUCache 4"
  by (simp_all add: blank_shard_def)

lemma blank_lookup [simp]: "lookup blank_index k = None" "memoryTree blank_index = []"
  by (simp_all add: lookup_def blank_index_def)

lemma blank_contents [simp]: "contents (blank_shard i) = Map.empty"
  by (simp add: contents_alt)

lemma st0_fields [simp]:
  "SegSize st0 = 64" "MaxKeySize st0 = 16" "MaxValueSize st0 = 32" "readOnly st0 = False" "jsonOnly st0 = False"
  "SegSize (shard_settings st0 i) = 64" "fsyncOnWrite (shard_settings st0 i) = True" "CacheSize st0 = 4"
  "isDebug st0 = False"
  by (simp_all add: st0_def shard_settings_def Let_def)

lemma blank_sm_inv: "sm_inv blank_storage"
  by (simp add: sm_inv_def blank_storage_def seg_inv_def fs_fresh_def)

lemma blank_ids [simp]: "ids_for n blank_storage \<longleftrightarrow> 2 * n + 2 < 2 ^ 32" "ids_left blank_storage" "dir_clean blank_storage"
  by (simp_all add: ids_for_def ids_left_def dir_clean_def blank_storage_def)

lemma blank_shard_inv [simp]: "shard_inv (blank_shard i)"
  using blank_sm_inv
  by (simp add: shard_inv_def store_inv_def im_inv_def index_live_def segsize_ok_def)

lemma blank_logged [simp]: "wal_logged blank_wal []"
  by (simp add: wal_logged_def blank_wal_def fs_fresh_def)

lemma blank_im_logged: "im_logged blank_index"
  by (simp add: im_logged_def blank_index_def fs_fresh_def load_loop_Nil)

lemma blank_durable: "durable (blank_shard i)"
proof -
  have "on_disk (im_index blank_index)" by (simp add: on_disk_def blank_index_def fs_fresh_def)
  moreover have "list_all (\<lambda>(i, g). on_disk (segment g)) (segments blank_storage)"
    by (simp add: on_disk_def blank_storage_def fs_fresh_def)
  ultimately show ?thesis using blank_im_logged by (simp add: durable_def)
qed

lemma blank_ready: "2 * n + 2 < (2 :: nat) ^ 32 \<Longrightarrow> ready n (blank_shard i)"
  using blank_durable [of i] unfolding durable_def
  by (auto simp: ready_def sound_files_def flags_ok_def list_all_iff)

section \<open>A database of two shards\<close>

definition hash0 :: "string \<Rightarrow> u64" where
  "hash0 k = of_nat (length k)"

definition mgr0 :: ShardManager where
  "mgr0 = \<lparr>mgr_settings = st0, mgr_shards = [blank_shard 0, blank_shard 1], mgr_nextSeq = 0\<rparr>"

fun dump0 :: "json \<Rightarrow> string" where
  "dump0 JNull = ''null''"
| "dump0 (JBool b) = (if b then ''true'' else ''false'')"
| "dump0 (JInt i) = show_int i"
| "dump0 (JReal r) = ''0.0''"
| "dump0 (JStr s) = [CHR 0x22] @ s @ [CHR 0x22]"
| "dump0 (JArr xs) = ''['' @ join '','' (map dump0 xs) @ '']''"
| "dump0 (JObj ms) = ''{'' @ join '','' (map (\<lambda>(k, v). [CHR 0x22] @ k @ [CHR 0x22, CHR '':''] @ dump0 v) ms) @ ''}''"

definition lib0 :: Lib where
  "lib0 = \<lparr>hash = hash0, nth_el = (\<lambda>n xs. sort xs), dump = dump0, accept = (\<lambda>s. True), compiles = (\<lambda>p. p \<noteq> ''(''),
     re_match = (\<lambda>p k. p = ''.*'' \<or> p = k), what = (\<lambda>p. ''mismatched parenthesis''), sha = (\<lambda>s. rev s),
     cwd = ''/db''\<rparr>"

text \<open>A run of the archiver in which no call fails.\<close>

definition env0 :: ArchiveEnv where
  "env0 = \<lparr>ae_isDir = True, ae_setup = True, ae_extra = [], ae_inside = None, ae_seen = fs_data, ae_walCopy = (\<lambda>p. True),
     ae_later = (\<lambda>p. []), ae_ios = [], ae_stamp = ''2024-05-01_12-00-00'', ae_open = True, ae_add = (\<lambda>p. True),
     ae_zip = (\<lambda>fs. Some (Zip fs)), ae_prune = True, ae_remove = (\<lambda>n. True)\<rparr>"

definition z0 :: ZestDB where
  "z0 = \<lparr>settings = st0, users = [(''eve'', \<lparr>tokenHash = ''nekot'', ue_role = Write\<rparr>)], authFailures = [],
     shardManager = mgr0, running = True, archiving = False, replaying = False, config = None,
     logDebug = False, archiveDir = [], saves = (\<lambda>n. env0)\<rparr>"

lemma lib0_fields [simp]:
  "hash lib0 = hash0" "dump lib0 = dump0" "compiles lib0 = (\<lambda>p. p \<noteq> ''('')" "nth_el lib0 = (\<lambda>n xs. sort xs)"
  by (simp_all add: lib0_def)

lemma z0_fields [simp]:
  "settings z0 = st0" "shardManager z0 = mgr0" "replaying z0 = False" "archiving z0 = False" "authFailures z0 = []"
  by (simp_all add: z0_def)

lemma selects_sort: "selects (\<lambda>n xs. sort xs)"
proof -
  have "x \<le> y" if "x \<in> set (take n (sort xs))" "y \<in> set (drop n (sort xs))" for n x y and xs :: "string list"
    using sorted_append [of "take n (sort xs)" "drop n (sort xs)"] that by simp
  then show ?thesis by (simp add: selects_def)
qed

lemma lib0_ok [simp]: "lib_ok lib0"
proof -
  have "dump0 (JObj ms) \<noteq> ''''" for ms by simp
  then show ?thesis using selects_sort by (simp add: lib_ok_def dumps_arrays_def)
qed

lemma mgr0_inv [simp]: "mgr_inv hash0 mgr0"
proof -
  have "shard_inv (mgr_shards mgr0 ! i) \<and> contents (mgr_shards mgr0 ! i) k = None" if "i < 2" for i k
    using that by (auto simp: mgr0_def less_2_cases_iff)
  then show ?thesis by (simp add: mgr_inv_def) (simp add: mgr0_def)
qed

lemma mgr0_shard: "getShardId hash0 mgr0 k = 0 \<or> getShardId hash0 mgr0 k = 1"
  using getShardId_less [OF mgr0_inv, of k] by (auto simp: mgr0_def)

lemma mgr0_db [simp]: "db hash0 mgr0 = Map.empty"
proof
  show "db hash0 mgr0 k = None" for k
    using mgr0_shard [of k] by (auto simp: db_def mgr0_def)
qed

lemma mgr0_roomy [simp]: "roomy hash0 mgr0"
  by (simp add: roomy_def) (simp add: mgr0_def)

lemma mgr0_ready: "2 * n + 2 < (2 :: nat) ^ 32 \<Longrightarrow> mgr_ready n 64 mgr0"
  using blank_ready by (simp add: mgr_ready_def mgr0_def)

lemma mgr0_logs [simp]: "logs_hold mgr0 [[], []]"
  by (simp add: logs_hold_def mgr0_def)

lemma st0_ok [simp]: "settings_ok (\<lambda>p. p \<noteq> ''('') st0"
  by (simp add: settings_ok_def st0_def has_zero_def MAX_KEY_SIZE_def)

lemma z0_inv [simp]: "z_inv lib0 z0"
  by (simp add: z_inv_def)

lemma z0_db [simp]: "z_db lib0 z0 = Map.empty"
  by (simp add: z_db_def)

lemma blank_flush: "fst (flushData (blank_shard i)) = True \<and> flags_ok (blank_shard i)"
proof -
  have "flags_ok (blank_shard i)" using blank_ready [of 0 i] by (simp add: ready_def sound_files_def)
  moreover have "sm_flush [] blank_storage = (True, blank_storage, [])"
    by (simp add: sm_flush_def blank_storage_def seg_flush_def)
  moreover have "im_flush [] blank_index = (True, blank_index, [])"
    by (simp add: im_flush_def blank_index_def)
  ultimately show ?thesis by (simp add: flushData_def sh_sm_flush_def sh_im_flush_def)
qed

text \<open>The shard after one command, holding one value.\<close>

definition shard1 :: Shard where
  "shard1 = run_op (OpSet ''a'' ''xyz'') (blank_shard 0)"

lemma shard1_ready: "2 * n + 4 < (2 :: nat) ^ 32 \<Longrightarrow> ready n shard1"
  and shard1_contents [simp]: "contents shard1 = [''a'' \<mapsto> ''xyz'']"
  and shard1_settings [simp]: "sh_settings shard1 = shard_settings st0 0"
proof -
  have ok: "op_ok (SegSize (sh_settings (blank_shard 0))) (OpSet ''a'' ''xyz'')" by (simp add: MAX_KEY_SIZE_def)
  have r: "ready (Suc 0) (blank_shard 0)" by (rule blank_ready) simp
  from run_op_ready(2,3) [OF r ok] show "contents shard1 = [''a'' \<mapsto> ''xyz'']" "sh_settings shard1 = shard_settings st0 0"
    by (simp_all add: shard1_def del: run_op.simps)
  show "ready n shard1" if "2 * n + 4 < (2 :: nat) ^ 32"
    unfolding shard1_def by (rule run_op_ready(1) [OF blank_ready ok]) (use that in simp)
qed

lemma shard1_inv [simp]: "shard_inv shard1" "all_ok (sh_ios shard1)" "dir_clean (storageManager shard1)"
  "ids_left (storageManager shard1)"
  using shard1_ready [of 1] by (auto simp: ready_def sound_files_def intro: ids_for_left)

lemma shard1_tree: "length (memoryTree (indexManager shard1)) = 1"
proof -
  have i: "im_inv (indexManager shard1)" and l: "index_live shard1"
    using shard1_inv(1) by (auto simp: shard_inv_def store_inv_def)
  have "lookup (indexManager shard1) k = None \<longleftrightarrow> k \<noteq> ''a''" for k
    using contents_dom [OF shard_invD(1) [OF shard1_inv(1)], of k] by (cases "k = ''a''") simp_all
  then have "dom (lookup (indexManager shard1)) = {''a''}" by (simp add: dom_def)
  then have "fst ` set (memoryTree (indexManager shard1)) = {''a''}"
    by (simp add: lookup_def [abs_def] dom_map_of_conv_image_fst)
  with i show ?thesis
    using distinct_card [of "map fst (memoryTree (indexManager shard1))"] by (simp add: im_inv_def)
qed

end
