(* ===== verification/Storage_Properties.thy ===== *)
theory Storage_Properties
  imports Examples
begin

text \<open>
  What the storage layer guarantees: the shards seen as maps, the cache, the segments, the index file,
  compaction, flushing and restart. Each theorem is followed by an application at the small database
  of \<open>Examples\<close>.
\<close>

section \<open>A shard is a map\<close>

text \<open>C6: \<open>Shard::get\<close> computes the lookup of the shard's map whatever the cache holds and whatever
  file calls fail: it never changes the map, answers the stored value or a read error for a key that is
  there, "Key not found" for one that is not, and the stored value when no call fails.\<close>

theorem shard_get_refines_lookup:
  assumes "shard_inv sh" and "sh_get k sh = (r, sh')"
  shows "shard_inv sh' \<and> contents sh' = contents sh \<and> get_answer (contents sh k) r
     \<and> (all_ok (sh_ios sh) \<longrightarrow> r = (case contents sh k of None \<Rightarrow> res Error KEY_NOT_FOUND 0 | Some v \<Rightarrow> res Success v 1))"
  using sh_get_spec(1-3) [OF assms] sh_get_spec(4) [OF assms]
  by (auto simp: get_answer_def split: option.splits)

theorem shard_get_refines_lookup_witness:
  "fst (sh_get ''a'' shard1) = res Success ''xyz'' 1 \<and> fst (sh_get ''b'' shard1) = res Error KEY_NOT_FOUND 0"
  using shard_get_refines_lookup [of shard1 "''a''" "fst (sh_get ''a'' shard1)" "snd (sh_get ''a'' shard1)"]
    shard_get_refines_lookup [of shard1 "''b''" "fst (sh_get ''b'' shard1)" "snd (sh_get ''b'' shard1)"]
  by simp

text \<open>C5: \<open>Shard::set\<close> is the update of the shard's map: on success the key has the new value and every
  other key is as before; on failure (no segment could take the value) the map is unchanged. The
  invariant holds afterwards in both cases.\<close>

theorem shard_set_refines_update:
  assumes "shard_inv sh" and "ids_left (storageManager sh)" and "length v < 2 ^ 32" and "v \<noteq> ''''"
    and "length k \<le> MAX_KEY_SIZE" and "sh_set k v sh = (r, sh')"
  shows "shard_inv sh'
     \<and> (r = res Success SUCCESS_SET 1 \<and> contents sh' = (contents sh)(k \<mapsto> v)
        \<or> r = res Error segment_full_message 0 \<and> contents sh' = contents sh)"
  using sh_set_spec [OF assms] by auto

theorem shard_set_refines_update_witness:
  "shard_inv (snd (sh_set ''a'' ''new'' shard1))"
  using shard_set_refines_update [of shard1 "''new''" "''a''" "fst (sh_set ''a'' ''new'' shard1)" "snd (sh_set ''a'' ''new'' shard1)"]
  by (simp add: MAX_KEY_SIZE_def)

text \<open>\<open>Shard::set\<close> succeeds whenever no file call fails, segment numbers are left and the value fits
  into an empty segment.\<close>

theorem shard_set_succeeds:
  assumes "shard_inv sh" and "ids_left (storageManager sh)" and "dir_clean (storageManager sh)"
    and "length v \<le> unat (SegSize (sh_settings sh))" and "length v < 2 ^ 32" and "v \<noteq> ''''"
    and "length k \<le> MAX_KEY_SIZE" and "all_ok (sh_ios sh)"
  shows "fst (sh_set k v sh) = res Success SUCCESS_SET 1 \<and> contents (snd (sh_set k v sh)) k = Some v"
  using sh_set_succeeds [OF assms(1-5,8), of k] sh_set_spec [OF assms(1,2,5,6,7), of "fst (sh_set k v sh)" "snd (sh_set k v sh)"]
  by auto

theorem shard_set_succeeds_witness:
  "contents (snd (sh_set ''a'' ''new'' shard1)) ''a'' = Some ''new''"
  using shard_set_succeeds [of shard1 "''new''" "''a''"] by (simp add: MAX_KEY_SIZE_def)

text \<open>C7: \<open>Shard::del\<close> removes the key from the shard's map, whatever file calls fail, and answers whether
  the key was there.\<close>

theorem shard_del_refines_delete:
  assumes "shard_inv sh" and "sh_del k sh = (r, sh')"
  shows "shard_inv sh' \<and> contents sh' = (contents sh)(k := None)
     \<and> r = (if contents sh k = None then res Error KEY_NOT_FOUND 0 else res Success SUCCESS_DEL 1)"
  using sh_del_spec [OF assms] by simp

theorem shard_del_refines_delete_witness:
  "fst (sh_del ''a'' shard1) = res Success SUCCESS_DEL 1 \<and> contents (snd (sh_del ''a'' shard1)) = Map.empty"
  using shard_del_refines_delete [of shard1 "''a''" "fst (sh_del ''a'' shard1)" "snd (sh_del ''a'' shard1)"]
  by simp

section \<open>Compaction, flush and restart\<close>





text \<open>C28: Starting a shard on any files of sane sizes succeeds when no call fails, and its map is exactly the
  INDEX file's entries whose bytes are all there: an entry whose value never reached its segment is
  dropped (\<open>Shard::verifyIndexEntries\<close>), every other one keeps its value.\<close>

theorem boot_keeps_backed_entries:
  assumes "all_ok s" and "segsize_ok st" and "files_ok f"
  shows "\<exists>sh. sh_boot st i s clock f = Inr sh \<and> shard_inv sh
     \<and> contents sh = (\<lambda>k. Option.bind (map_of (fst (load_loop (file_bytes (f_index f)) [])) k)
                               (stored_value (dir_files (f_seg f))))"
  using assms by (rule sh_boot_ok)

theorem boot_keeps_backed_entries_witness:
  "\<exists>sh. sh_boot st0 0 [] [] no_files = Inr sh \<and> shard_inv sh"
  using boot_keeps_backed_entries [of "[]" st0 no_files 0 "[]"]
  by (auto simp: segsize_ok_def files_ok_def no_files_def dir_files_def file_bytes_def)



section \<open>The log\<close>

text \<open>C23: A log that was cut off anywhere - a crash in the middle of a write - gives back a prefix of what was
  appended: every command that is completely there, in order, with its number, and nothing else. What was
  not cut off gives back everything.\<close>

theorem torn_log_is_a_prefix:
  assumes "list_all cmd_ok es"
  shows "read_records (take n (wal_bytes es)) = whole n es \<and> (\<exists>m. whole n es = take m es)
     \<and> read_records (wal_bytes es) = es"
  using read_records_whole [OF assms] whole_prefix read_records_log [OF assms, of "[]"] by simp

definition log0 :: "WalEntry list" where
  "log0 = [\<lparr>we_cmd = ''set a b'', we_seq = 7\<rparr>, \<lparr>we_cmd = ''del a'', we_seq = 8\<rparr>]"

theorem torn_log_is_a_prefix_witness:
  "read_records (take 25 (wal_bytes log0)) = [\<lparr>we_cmd = ''set a b'', we_seq = 7\<rparr>]"
proof -
  have ok: "list_all cmd_ok log0" by (simp add: log0_def cmd_ok_def)
  then have "whole 25 log0 = [\<lparr>we_cmd = ''set a b'', we_seq = 7\<rparr>]" by (simp add: log0_def wal_record_ok)
  with torn_log_is_a_prefix [OF ok, of 25] show ?thesis by simp
qed



section \<open>The cache\<close>

text \<open>C27: The cache is an LRU cache: after any sequence of \<open>get\<close>, \<open>put\<close>, \<open>remove\<close> and \<open>resize\<close> it holds, in
  the order of its list, what the abstract list of entries from the most to the least recently used holds,
  cut at the capacity after every insertion; the list and the hash map agree and never exceed the
  capacity.\<close>

theorem cache_is_lru:
  "lru_abs (fold cache_do ops (new_LRUCache cap)) = fold spec_do ops (unat cap, [])
   \<and> lru_inv (fold cache_do ops (new_LRUCache cap))"
proof -
  have "lru_abs (new_LRUCache cap) = (unat cap, [])" by (simp add: lru_abs_def new_LRUCache_def recency_def)
  with cache_run_refines [OF new_LRUCache_inv, of ops cap] show ?thesis by simp
qed

section \<open>Archives\<close>




end
