(* ===== verification/Session.thy ===== *)
theory Session
  imports Commands
begin

text \<open>
  \<open>Session\<close> of \<open>Server.hpp\<close> and \<open>Server.cpp\<close>: one connection. A client sends payloads, a length of
  four bytes followed by that many bytes; a payload is a batch of commands, each with its own length.
  The first command of a connection must authenticate it. The sockets and the timer of the asio library
  are replaced by events: what a completion handler receives is the argument of the definition that
  models it, and \<open>reading\<close> says which read the session has started. Messages that were handed to the
  socket in full are in \<open>sent\<close>.

  The batch loop works on \<open>uint32_t\<close> and need not end, so it is a partial function; it is shown to end
  for every payload whose lengths do not overflow, to run well-formed batches command by command, and
  not to end for a length that overflows.
\<close>

datatype reading = Idle | ReadingSize | ReadingCommand u32

record Session =
  authenticated :: bool
  ses_username :: string
  remote_ip :: string
  authTimeout :: nat
  idleTimeout :: nat
  deadline :: nat
  reading :: reading
  write_queue :: "string list"
  closing :: bool
  stream_open :: bool
  sent :: "string list"

definition new_Session :: "nat \<Rightarrow> nat \<Rightarrow> Session" where
  "new_Session auth idle =
     \<lparr>authenticated = False, ses_username = '''', remote_ip = '''', authTimeout = auth, idleTimeout = idle, deadline = 0,
      reading = Idle, write_queue = [], closing = False, stream_open = True, sent = []\<rparr>"

definition MAX_UNAUTHENTICATED_PAYLOAD_SIZE :: u32 where "MAX_UNAUTHENTICATED_PAYLOAD_SIZE = 1024 * 1024"

definition MAX_PAYLOAD_SIZE :: u32 where "MAX_PAYLOAD_SIZE = 64 * 1024 * 1024"

section \<open>The stream\<close>

definition close_stream :: "Session \<Rightarrow> Session" where
  "close_stream ses = ses\<lparr>stream_open := False, reading := Idle\<rparr>"

text \<open>A write is in progress exactly while the queue is not empty: \<open>do_write\<close> sends its head.\<close>

definition queue_write :: "string \<Rightarrow> bool \<Rightarrow> Session \<Rightarrow> Session" where
  "queue_write message closeAfter ses = ses\<lparr>write_queue := write_queue ses @ [message], closing := closeAfter\<rparr>"

text \<open>The completion handler of \<open>do_write\<close>.\<close>

definition write_done :: "bool \<Rightarrow> Session \<Rightarrow> Session" where
  "write_done ok ses =
     (if \<not> ok then close_stream ses
      else let ses1 = ses\<lparr>write_queue := tl (write_queue ses), sent := sent ses @ [hd (write_queue ses)]\<rparr> in
        if write_queue ses1 \<noteq> [] then ses1
        else if closing ses1 then close_stream ses1 else ses1)"

text \<open>Instants and timeouts in nanoseconds.\<close>

definition touch :: "nat \<Rightarrow> Session \<Rightarrow> Session" where
  "touch now ses = ses\<lparr>deadline := now + (if authenticated ses then idleTimeout ses else authTimeout ses)\<rparr>"

text \<open>The timer fires: the session closes, or waits again for its deadline.\<close>

definition timer_fired :: "nat \<Rightarrow> Session \<Rightarrow> Session" where
  "timer_fired now ses = (if now \<ge> deadline ses then close_stream ses else ses)"

definition do_read_size :: "nat \<Rightarrow> Session \<Rightarrow> Session" where
  "do_read_size now ses = (touch now ses)\<lparr>reading := ReadingSize\<rparr>"

text \<open>\<open>remote\<close> is the address of the peer, \<open>None\<close> when it has left already; \<open>handshake\<close> its outcome under TLS.\<close>

definition ses_start :: "Lib \<Rightarrow> nat \<Rightarrow> string option \<Rightarrow> bool \<Rightarrow> ZestDB \<Rightarrow> Session \<Rightarrow> Session" where
  "ses_start lib now remote handshake z ses =
     (case remote of
        None \<Rightarrow> close_stream ses
      | Some ip \<Rightarrow>
          (let ses1 = ses\<lparr>remote_ip := ip\<rparr> in
           if \<not> isAddressAllowed lib ip z then queue_write ''unauthorized'' True ses1
           else let ses2 = touch now ses1 in
             if handshake then do_read_size now ses2 else close_stream ses2))"

definition crlf2 :: string where "crlf2 = [CHR 0x0D, CHR 0x0A, CHR 0x0D, CHR 0x0A]"

definition error_json :: "Lib \<Rightarrow> string \<Rightarrow> string" where
  "error_json lib m = responseToJson lib (fail m)"

text \<open>The handler of the four bytes of a length; \<open>None\<close> is an error or a short read.\<close>

definition size_read :: "Lib \<Rightarrow> bytes option \<Rightarrow> Session \<Rightarrow> Session" where
  "size_read lib data ses =
     (case data of
        None \<Rightarrow> close_stream ses
      | Some bs \<Rightarrow>
          (let payload_size = get_be32 bs in
           if payload_size > (if authenticated ses then MAX_PAYLOAD_SIZE else MAX_UNAUTHENTICATED_PAYLOAD_SIZE)
           then queue_write (error_json lib PAYLOAD_TOO_LARGE @ nl) True (ses\<lparr>reading := Idle\<rparr>)
           else ses\<lparr>reading := ReadingCommand payload_size\<rparr>))"

section \<open>One command\<close>

definition authPrefix :: string where "authPrefix = ''Authorization: ''"

text \<open>\<open>std::string::find\<close> of a character from a position on.\<close>

definition find_from :: "char \<Rightarrow> nat \<Rightarrow> string \<Rightarrow> nat option" where
  "find_from c pos s =
     (let n = length (takeWhile (\<lambda>x. x \<noteq> c) (drop pos s)) in
      if pos + n < length s then Some (pos + n) else None)"

text \<open>The result, whether to close, and the changed session and database.\<close>

definition handle_command ::
  "Lib \<Rightarrow> nat \<Rightarrow> string \<Rightarrow> Session \<Rightarrow> ZestDB \<Rightarrow> string \<times> bool \<times> Session \<times> ZestDB" where
  "handle_command lib now cmd ses z =
     (if \<not> authenticated ses
      then case find_from (CHR ''.'') (length authPrefix) cmd of
             None \<Rightarrow> (error_json lib AUTH_FAILED, True, ses, z)
           | Some dotPos \<Rightarrow>
               if take (length authPrefix) cmd \<noteq> authPrefix then (error_json lib AUTH_FAILED, True, ses, z)
               else let name = take (dotPos - length authPrefix) (drop (length authPrefix) cmd) in
                 if \<not> authAllowed now name (authFailures z) then (error_json lib AUTH_FAILED, True, ses, z)
                 else if authenticate (sha lib) (users z) name (drop (dotPos + 1) cmd) = None
                 then (error_json lib AUTH_FAILED, True, ses,
                       z\<lparr>authFailures := recordAuthResult now name False (authFailures z)\<rparr>)
                 else (responseToJson lib (res Success AUTH_SUCCESS 0), False,
                       ses\<lparr>authenticated := True, ses_username := name\<rparr>,
                       z\<lparr>authFailures := recordAuthResult now name True (authFailures z)\<rparr>)
      else case roleOf (users z) (ses_username ses) of
             None \<Rightarrow> (error_json lib SESSION_REVOKED, True, ses, z)
           | Some role \<Rightarrow>
               (case execCmd lib cmd role False z of
                  (None, z1) \<Rightarrow> (error_json lib INTERNAL_ERROR, False, ses, z1)
                | (Some r, z1) \<Rightarrow> (responseToJson lib r, False, ses, z1)))"

section \<open>A batch\<close>

definition add_result :: "string \<Rightarrow> string \<Rightarrow> string" where
  "add_result final_result r = (if final_result = [] then r else final_result @ crlf2 @ r)"

text \<open>\<open>ts\<close> gives the instants at which the coming commands are handled.\<close>

partial_function (option) batch_loop ::
  "Lib \<Rightarrow> (nat \<Rightarrow> nat) \<Rightarrow> bytes \<Rightarrow> u32 \<Rightarrow> u32 \<Rightarrow> string \<Rightarrow> bool \<Rightarrow> Session \<Rightarrow> ZestDB
     \<Rightarrow> (string \<times> bool \<times> Session \<times> ZestDB) option" where
  "batch_loop lib ts payload payload_size offset final_result should_close ses z =
     (if offset < payload_size \<and> \<not> should_close
      then if offset + 4 > payload_size
           then Some (add_result final_result (error_json lib MALFORMED_BATCH), should_close, ses, z)
           else let cmd_size = get_be32 (take 4 (drop (unat offset) payload)); off = offset + 4 in
             if off + cmd_size > payload_size
             then Some (add_result final_result (error_json lib MALFORMED_BATCH), should_close, ses, z)
             else case handle_command lib (ts 0) (take (unat cmd_size) (drop (unat off) payload)) ses z of
                    (r, should_close', ses', z') \<Rightarrow>
                      batch_loop lib (\<lambda>n. ts (Suc n)) payload payload_size (off + cmd_size)
                        (add_result final_result r) should_close' ses' z'
      else Some (final_result, should_close, ses, z))"

text \<open>
  The handler of a payload; \<open>None\<close> as data is an error or a short read, and \<open>None\<close> as the outcome
  a batch loop that does not end.
\<close>

definition payload_read ::
  "Lib \<Rightarrow> (nat \<Rightarrow> nat) \<Rightarrow> nat \<Rightarrow> bytes option \<Rightarrow> u32 \<Rightarrow> Session \<Rightarrow> ZestDB \<Rightarrow> (Session \<times> ZestDB) option" where
  "payload_read lib ts now data payload_size ses z =
     (case data of
        None \<Rightarrow> Some (close_stream ses, z)
      | Some payload \<Rightarrow>
          (case batch_loop lib ts payload payload_size 0 [] False (ses\<lparr>reading := Idle\<rparr>) z of
             None \<Rightarrow> None
           | Some (final_result, should_close, ses1, z1) \<Rightarrow>
               (case z_syncWAL z1 of (ok, z2) \<Rightarrow>
                  if \<not> ok then Some (close_stream ses1, z2)
                  else let ses2 = queue_write (final_result @ nl) should_close ses1 in
                    Some (if should_close then ses2 else do_read_size now ses2, z2))))"

section \<open>Authentication\<close>

lemma find_from_iff:
  "find_from c pos s = Some i \<longleftrightarrow> pos \<le> i \<and> i < length s \<and> s ! i = c \<and> (\<forall>j. pos \<le> j \<and> j < i \<longrightarrow> s ! j \<noteq> c)"
proof -
  let ?n = "length (takeWhile (\<lambda>x. x \<noteq> c) (drop pos s))"
  have le: "?n \<le> length s - pos" using length_takeWhile_le [of _ "drop pos s"] by simp
  have before: "s ! j \<noteq> c" if "pos \<le> j" "j < pos + ?n" for j
  proof -
    have j: "j - pos < ?n" "j < length s" using that le by auto
    have "drop pos s ! (j - pos) = takeWhile (\<lambda>x. x \<noteq> c) (drop pos s) ! (j - pos)"
      using j(1) by (simp add: takeWhile_nth)
    moreover have "takeWhile (\<lambda>x. x \<noteq> c) (drop pos s) ! (j - pos) \<noteq> c"
      using nth_mem [OF j(1)] by (auto dest: set_takeWhileD)
    ultimately show ?thesis using that(1) j by simp
  qed
  have at: "s ! (pos + ?n) = c" if "pos + ?n < length s"
    using nth_length_takeWhile [of "\<lambda>x. x \<noteq> c" "drop pos s"] that by simp
  show ?thesis
  proof
    assume "find_from c pos s = Some i"
    then have "pos + ?n < length s" "i = pos + ?n" by (auto simp: find_from_def Let_def split: if_splits)
    with before at show "pos \<le> i \<and> i < length s \<and> s ! i = c \<and> (\<forall>j. pos \<le> j \<and> j < i \<longrightarrow> s ! j \<noteq> c)" by auto
  next
    assume i: "pos \<le> i \<and> i < length s \<and> s ! i = c \<and> (\<forall>j. pos \<le> j \<and> j < i \<longrightarrow> s ! j \<noteq> c)"
    then have "\<not> i < pos + ?n" using before by auto
    moreover have "\<not> pos + ?n < i" using i at le by fastforce
    ultimately show "find_from c pos s = Some i" using i by (simp add: find_from_def Let_def)
  qed
qed

definition auth_line :: "string \<Rightarrow> string \<Rightarrow> string" where
  "auth_line name token = authPrefix @ name @ ''.'' @ token"

lemma find_from_auth_line:
  "CHR ''.'' \<notin> set name \<Longrightarrow> find_from (CHR ''.'') (length authPrefix) (auth_line name token) = Some (length authPrefix + length name)"
  by (auto simp: find_from_iff auth_line_def nth_append) (metis nth_mem)

text \<open>The only way to become authenticated is an accepted token of a user that is not locked out.\<close>

lemma handle_command_login:
  assumes "handle_command lib now cmd ses z = (r, cl, ses', z')" and "\<not> authenticated ses" and "authenticated ses'"
  obtains name token role where "cmd = auth_line name token" and "CHR ''.'' \<notin> set name"
    and "authAllowed now name (authFailures z)" and "authenticate (sha lib) (users z) name token = Some role"
    and "ses' = ses\<lparr>authenticated := True, ses_username := name\<rparr>" and "\<not> cl"
proof -
  obtain i where i: "find_from (CHR ''.'') (length authPrefix) cmd = Some i" and p: "take (length authPrefix) cmd = authPrefix"
    using assms by (auto simp: handle_command_def Let_def split: option.splits if_splits)
  define name where "name = take (i - length authPrefix) (drop (length authPrefix) cmd)"
  note f = i [unfolded find_from_iff]
  have n: "authPrefix @ name = take i cmd"
    using p f take_add [of "length authPrefix" "i - length authPrefix" cmd] by (simp add: name_def)
  have "(authPrefix @ name) @ CHR ''.'' # drop (i + 1) cmd = cmd"
    unfolding n using id_take_nth_drop [of i cmd] f by simp
  then have c: "cmd = auth_line name (drop (i + 1) cmd)" by (simp add: auth_line_def)
  have "name ! j \<noteq> CHR ''.''" if "j < length name" for j
    using that f by (auto simp: name_def)
  then have d: "CHR ''.'' \<notin> set name" by (auto simp: in_set_conv_nth)
  have "authAllowed now name (authFailures z) \<and> authenticate (sha lib) (users z) name (drop (i + 1) cmd) \<noteq> None
      \<and> ses' = ses\<lparr>authenticated := True, ses_username := name\<rparr> \<and> \<not> cl"
    using assms i p by (auto simp: handle_command_def Let_def name_def split: if_splits)
  with c d show ?thesis using that [of name "drop (i + 1) cmd"] by auto
qed

lemma handle_command_accepts:
  assumes "\<not> authenticated ses" and "CHR ''.'' \<notin> set name" and "authAllowed now name (authFailures z)"
    and "authenticate (sha lib) (users z) name token = Some role"
  shows "handle_command lib now (auth_line name token) ses z =
     (responseToJson lib (res Success AUTH_SUCCESS 0), False, ses\<lparr>authenticated := True, ses_username := name\<rparr>,
      z\<lparr>authFailures := AList.delete name (authFailures z)\<rparr>)"
  using assms find_from_auth_line [OF assms(2), of token]
  by (simp add: handle_command_def auth_line_def recordAuthResult_def)

text \<open>Before authentication nothing but the failure counters can change, and a refusal ends the session.\<close>

lemma handle_command_refused:
  assumes "handle_command lib now cmd ses z = (r, cl, ses', z')" and "\<not> authenticated ses"
  shows "z' = z\<lparr>authFailures := authFailures z'\<rparr>" and "\<not> authenticated ses' \<Longrightarrow> cl \<and> r = error_json lib AUTH_FAILED \<and> ses' = ses"
  using assms by (auto simp: handle_command_def Let_def split: option.splits if_splits)

lemma handle_command_session:
  assumes "handle_command lib now cmd ses z = (r, cl, ses', z')"
  shows "ses' = ses \<or> \<not> authenticated ses \<and> (\<exists>name. ses' = ses\<lparr>authenticated := True, ses_username := name\<rparr>)"
  using assms by (auto simp: handle_command_def Let_def split: option.splits if_splits prod.splits)

section \<open>Well-formed batches\<close>

definition frame :: "string \<Rightarrow> bytes" where
  "frame c = put_be32 (of_nat (length c)) @ c"

definition encode_batch :: "string list \<Rightarrow> bytes" where
  "encode_batch cmds = concat (map frame cmds)"

text \<open>The commands of a batch one after the other, until one closes the session.\<close>

fun run_batch ::
  "Lib \<Rightarrow> (nat \<Rightarrow> nat) \<Rightarrow> string list \<Rightarrow> string \<Rightarrow> bool \<Rightarrow> Session \<Rightarrow> ZestDB \<Rightarrow> string \<times> bool \<times> Session \<times> ZestDB" where
  "run_batch lib ts [] final_result cl ses z = (final_result, cl, ses, z)"
| "run_batch lib ts (c # cs) final_result cl ses z =
     (if cl then (final_result, cl, ses, z)
      else case handle_command lib (ts 0) c ses z of (r, cl', ses', z') \<Rightarrow>
        run_batch lib (\<lambda>n. ts (Suc n)) cs (add_result final_result r) cl' ses' z')"

lemma length_frame [simp]: "length (frame c) = 4 + length c"
  by (simp add: frame_def)

lemma encode_batch_simps [simp]: "encode_batch [] = []" "encode_batch (c # cs) = frame c @ encode_batch cs"
  by (simp_all add: encode_batch_def)

lemma less_of_nat_u32: "n < 2 ^ 32 \<Longrightarrow> m < 2 ^ 32 \<Longrightarrow> (of_nat n :: u32) < of_nat m \<longleftrightarrow> n < m"
  by (simp add: word_less_nat_alt unat_of_nat_u32)

lemma batch_loop_frames:
  "length (pre @ encode_batch cmds) < 2 ^ 32 \<Longrightarrow>
   batch_loop lib ts (pre @ encode_batch cmds) (of_nat (length (pre @ encode_batch cmds))) (of_nat (length pre)) acc cl ses z
     = Some (run_batch lib ts cmds acc cl ses z)"
proof (induction cmds arbitrary: pre ts acc cl ses z)
  case Nil
  then show ?case by (simp add: batch_loop.simps)
next
  case (Cons c cs)
  let ?p = "pre @ encode_batch (c # cs)"
  define n where "n = length ?p"
  have n: "n = length pre + 4 + length c + length (encode_batch cs)" "n < 2 ^ 32"
    using Cons.prems by (simp_all add: n_def)
  show ?case
  proof (cases cl)
    case True
    then show ?thesis by (simp add: batch_loop.simps)
  next
    case False
    have a: "(of_nat (length pre) :: u32) + 4 = of_nat (length pre + 4)"
      "(of_nat (length pre + 4) :: u32) + of_nat (length c) = of_nat (length pre + 4 + length c)" by simp_all
    have sz: "get_be32 (take 4 (drop (unat (of_nat (length pre) :: u32)) ?p)) = of_nat (length c)"
      using n by (simp add: unat_of_nat_u32 frame_def)
    have l: "(of_nat (length pre) :: u32) < of_nat n" "\<not> (of_nat n :: u32) < of_nat (length pre + 4)"
      "\<not> (of_nat n :: u32) < of_nat (length pre + 4 + length c)"
      using n by (simp_all add: less_of_nat_u32 del: of_nat_add)
    have body: "take (unat (of_nat (length c) :: u32)) (drop (unat (of_nat (length pre + 4) :: u32)) ?p) = c"
      using n by (simp add: unat_of_nat_u32 frame_def del: of_nat_add)
    obtain r cl' ses' z' where h: "handle_command lib (ts 0) c ses z = (r, cl', ses', z')"
      by (cases "handle_command lib (ts 0) c ses z")
    have ih: "batch_loop lib (\<lambda>n. ts (Suc n)) ?p (of_nat n) (of_nat (length pre + 4 + length c)) (add_result acc r) cl' ses' z'
        = Some (run_batch lib (\<lambda>n. ts (Suc n)) cs (add_result acc r) cl' ses' z')"
      using Cons.IH [of "pre @ frame c" "\<lambda>n. ts (Suc n)" "add_result acc r" cl' ses' z'] n
      by (simp add: n_def del: of_nat_add) (simp add: ac_simps)
    have "batch_loop lib ts ?p (of_nat n) (of_nat (length pre)) acc cl ses z
        = batch_loop lib (\<lambda>n. ts (Suc n)) ?p (of_nat n) (of_nat (length pre + 4 + length c)) (add_result acc r) cl' ses' z'"
      unfolding batch_loop.simps [of lib ts ?p "of_nat n" "of_nat (length pre)"] Let_def sz a body h using l False
      by (simp del: of_nat_add)
    with ih False h show ?thesis by (simp add: n_def)
  qed
qed

section \<open>When the loop ends\<close>

text \<open>The lengths in the payload do not reach beyond what an offset can hold.\<close>

definition lengths_fit :: "bytes \<Rightarrow> u32 \<Rightarrow> bool" where
  "lengths_fit payload n \<longleftrightarrow>
     (\<forall>i < unat n. i + 4 \<le> unat n \<longrightarrow> i + 4 + unat (get_be32 (take 4 (drop i payload))) < 2 ^ 32)"

lemma batch_loop_ends:
  "lengths_fit payload n \<Longrightarrow> n \<le> MAX_PAYLOAD_SIZE \<Longrightarrow> \<exists>y. batch_loop lib ts payload n off acc cl ses z = Some y"
proof (induction "unat n - unat off" arbitrary: off ts acc cl ses z rule: less_induct)
  case less
  have n: "unat n \<le> 67108864" using less.prems(2) by (simp add: MAX_PAYLOAD_SIZE_def word_le_nat_alt)
  show ?case
  proof (cases "off < n \<and> \<not> cl \<and> \<not> off + 4 > n")
    case False
    then show ?thesis by (subst batch_loop.simps) (auto simp: Let_def)
  next
    case True
    let ?c = "get_be32 (take 4 (drop (unat off) payload))"
    have o: "unat (off + 4) = unat off + 4"
      using True n by (subst unat_add_lem [THEN iffD1]) (auto simp: word_less_nat_alt)
    have "unat off + 4 + unat ?c < 2 ^ 32"
      using less.prems(1) True o by (auto simp: lengths_fit_def word_less_nat_alt word_le_nat_alt not_less)
    then have c: "unat (off + 4 + ?c) = unat off + 4 + unat ?c"
      by (subst unat_add_lem [THEN iffD1]) (auto simp: o)
    show ?thesis
    proof (cases "off + 4 + ?c > n")
      case big: True
      with True show ?thesis by (subst batch_loop.simps) (auto simp: Let_def)
    next
      case small: False
      obtain r cl' ses' z' where h: "handle_command lib (ts 0) (take (unat ?c) (drop (unat (off + 4)) payload)) ses z = (r, cl', ses', z')"
        by (metis prod_cases4)
      have "unat n - unat (off + 4 + ?c) < unat n - unat off"
        using True unfolding c word_less_nat_alt by linarith
      from less.hyps [OF this less.prems, of "\<lambda>n. ts (Suc n)" "add_result acc r" cl' ses' z'] True small h
      show ?thesis by (subst batch_loop.simps) (simp add: Let_def)
    qed
  qed
qed

text \<open>
  A length of \<open>2\<^sup>3\<^sup>2 - 4\<close> at offset 4 makes the sum 0: the check passes, the command is the rest of
  the payload, and the loop is back where it began.
\<close>

definition wrapping_payload :: bytes where
  "wrapping_payload = put_be32 0xFFFFFFFC @ ''h''"

lemma wrapping_payload_parts:
  "get_be32 (take 4 wrapping_payload) = 0xFFFFFFFC" "take (unat (0xFFFFFFFC :: u32)) (drop 4 wrapping_payload) = ''h''"
  by (simp_all add: wrapping_payload_def)

lemma execCmd_help: "execCmd lib ''h'' role sync z = (Some (res Success help_text 0), z)"
proof -
  have t: "trim_command ''h'' = Some ''h''"
    by (simp add: trim_command_def is_ws_def is_eol_def)
  have w: "words_of ''h'' = [(0, ''h'')]"
    by (simp add: words_of_def split_words_end plain_word_def is_ws_def)
  have a: "alias_of (toLowerStr (snd (hd [(0 :: nat, ''h'')]))) = ''h''" by (simp add: toLowerStr_def to_lower_def alias_of_def)
  show ?thesis
    unfolding execCmd_def t option.case Let_def w a
    by (simp add: permitted_def isWrite_def isAdmin_def run_cmd_def log_write_def)
qed

lemma handle_command_help:
  "authenticated ses \<Longrightarrow> roleOf (users z) (ses_username ses) = Some role \<Longrightarrow>
     handle_command lib now ''h'' ses z = (responseToJson lib (res Success help_text 0), False, ses, z)"
  by (simp add: handle_command_def execCmd_help)

definition wraps_at :: "bytes \<Rightarrow> u32 \<Rightarrow> u32 \<Rightarrow> bool \<Rightarrow> Session \<Rightarrow> ZestDB \<Rightarrow> bool" where
  "wraps_at p n off cl ses z \<longleftrightarrow> p = wrapping_payload \<and> n = 5 \<and> off = 0 \<and> \<not> cl \<and> authenticated ses
     \<and> roleOf (users z) (ses_username ses) \<noteq> None"

lemma batch_loop_wraps:
  assumes "batch_loop lib ts p n off acc cl ses z = Some y"
  shows "\<not> wraps_at p n off cl ses z"
proof (rule batch_loop.raw_induct [where P = "\<lambda>lib ts p n off acc cl ses z y. \<not> wraps_at p n off cl ses z", OF _ assms])
  fix loop lib ts p n off acc cl ses z y
  assume ih: "\<And>lib ts p n off acc cl ses z y. loop lib ts p n off acc cl ses z = Some y \<Longrightarrow> \<not> wraps_at p n off cl ses z"
    and body: "(if off < n \<and> \<not> cl
      then if off + 4 > n then Some (add_result acc (error_json lib MALFORMED_BATCH), cl, ses, z)
           else let cmd_size = get_be32 (take 4 (drop (unat off) p)); o1 = off + 4 in
             if o1 + cmd_size > n then Some (add_result acc (error_json lib MALFORMED_BATCH), cl, ses, z)
             else case handle_command lib (ts 0) (take (unat cmd_size) (drop (unat o1) p)) ses z of
                    (r, cl', ses', z') \<Rightarrow> loop lib (\<lambda>n. ts (Suc n)) p n (o1 + cmd_size) (add_result acc r) cl' ses' z'
      else Some (acc, cl, ses, z)) = Some y"
  show "\<not> wraps_at p n off cl ses z"
  proof
    assume a: "wraps_at p n off cl ses z"
    then obtain role where "roleOf (users z) (ses_username ses) = Some role" by (auto simp: wraps_at_def)
    then have "loop lib (\<lambda>n. ts (Suc n)) p n 4294967296 (add_result acc (responseToJson lib (res Success help_text 0))) False ses z = Some y"
      using a body wrapping_payload_parts handle_command_help [of ses z role lib "ts 0"] by (simp add: Let_def wraps_at_def)
    moreover have w: "(4294967296 :: u32) = 0" by code_simp
    ultimately have "loop lib (\<lambda>n. ts (Suc n)) p n 0 (add_result acc (responseToJson lib (res Success help_text 0))) False ses z = Some y"
      by (simp only: w)
    from ih [OF this] a show False by (simp add: wraps_at_def)
  qed
qed

lemma batch_loop_diverges:
  assumes "authenticated ses" and "roleOf (users z) (ses_username ses) = Some role"
  shows "batch_loop lib ts wrapping_payload 5 0 acc False ses z = None"
proof (cases "batch_loop lib ts wrapping_payload 5 0 acc False ses z")
  case (Some y)
  from batch_loop_wraps [OF this] assms show ?thesis by (simp add: wraps_at_def)
qed simp

section \<open>Acknowledgements\<close>

text \<open>Every log that had something to write has been flushed and, under \<open>fsyncOnWrite\<close>, is on disk.\<close>

definition logs_synced :: "ShardManager \<Rightarrow> ShardManager \<Rightarrow> bool" where
  "logs_synced mgr mgr' \<longleftrightarrow> list_all2 (\<lambda>sh sh'. \<not> dirty (sh_wal sh')
     \<and> (dirty (sh_wal sh) \<and> fsyncOnWrite (sh_settings sh) \<longrightarrow> on_disk (wal (sh_wal sh')))
     \<and> fs_data (wal (sh_wal sh')) = fs_data (wal (sh_wal sh))) (mgr_shards mgr) (mgr_shards mgr')"

lemma wal_sync_result:
  assumes "wal_sync st s w = (ok, w', s')"
  shows "fs_data (wal w') = fs_data (wal w)" and "ok \<Longrightarrow> \<not> dirty w'"
    and "ok \<Longrightarrow> dirty w \<Longrightarrow> fsyncOnWrite st \<Longrightarrow> on_disk (wal w')"
proof -
  have "fs_data (wal w') = fs_data (wal w) \<and> (ok \<longrightarrow> \<not> dirty w')
      \<and> (ok \<and> dirty w \<and> fsyncOnWrite st \<longrightarrow> on_disk (wal w'))"
    using assms
    by (auto simp: wal_sync_def flush_and_fsync_def fs_flush_def sync_to_disk_def on_disk_def split: if_splits prod.splits)
  then show "fs_data (wal w') = fs_data (wal w)" "ok \<Longrightarrow> \<not> dirty w'"
    "ok \<Longrightarrow> dirty w \<Longrightarrow> fsyncOnWrite st \<Longrightarrow> on_disk (wal w')" by auto
qed

lemma syncWAL_synced:
  assumes "syncWAL mgr = (True, mgr')"
  shows "logs_synced mgr mgr'"
proof -
  have m: "mgr_shards mgr' = map (\<lambda>sh. snd (sh_sync sh)) (mgr_shards mgr)"
    and ok: "list_all (\<lambda>sh. fst (sh_sync sh)) (mgr_shards mgr)"
    using assms by (auto simp: syncWAL_def Let_def comp_def list_all_iff)
  have "\<not> dirty (sh_wal (snd (sh_sync sh))) \<and> (dirty (sh_wal sh) \<and> fsyncOnWrite (sh_settings sh) \<longrightarrow> on_disk (wal (sh_wal (snd (sh_sync sh)))))
      \<and> fs_data (wal (sh_wal (snd (sh_sync sh)))) = fs_data (wal (sh_wal sh))" if "fst (sh_sync sh)" for sh
    using that by (auto simp: sh_sync_def split: prod.splits dest: wal_sync_result)
  with ok show ?thesis by (auto simp: logs_synced_def m list_all2_conv_all_nth list_all_length)
qed

text \<open>What a batch does is a sequence of handled commands.\<close>

inductive handled :: "Lib \<Rightarrow> Session \<times> ZestDB \<Rightarrow> Session \<times> ZestDB \<Rightarrow> bool" for lib where
  none: "handled lib x x"
| one: "handle_command lib now cmd ses z = (r, cl, ses1, z1) \<Longrightarrow> handled lib (ses1, z1) x \<Longrightarrow> handled lib (ses, z) x"

lemma batch_loop_handled:
  assumes "batch_loop lib ts p n off acc cl ses z = Some y"
  shows "handled lib (ses, z) (snd (snd y))"
proof (rule batch_loop.raw_induct [where P = "\<lambda>lib ts p n off acc cl ses z y. handled lib (ses, z) (snd (snd y))", OF _ assms])
  fix loop lib ts p n off acc cl ses z y
  assume ih: "\<And>lib ts p n off acc cl ses z y. loop lib ts p n off acc cl ses z = Some y \<Longrightarrow> handled lib (ses, z) (snd (snd y))"
    and body: "(if off < n \<and> \<not> cl
      then if off + 4 > n then Some (add_result acc (error_json lib MALFORMED_BATCH), cl, ses, z)
           else let cmd_size = get_be32 (take 4 (drop (unat off) p)); o1 = off + 4 in
             if o1 + cmd_size > n then Some (add_result acc (error_json lib MALFORMED_BATCH), cl, ses, z)
             else case handle_command lib (ts 0) (take (unat cmd_size) (drop (unat o1) p)) ses z of
                    (r, cl', ses', z') \<Rightarrow> loop lib (\<lambda>n. ts (Suc n)) p n (o1 + cmd_size) (add_result acc r) cl' ses' z'
      else Some (acc, cl, ses, z)) = Some y"
  have "handled lib (ses, z) (snd (snd y))" if "snd (snd y) = (ses, z)" unfolding that by (rule handled.none)
  with body show "handled lib (ses, z) (snd (snd y))"
    by (auto simp: Let_def split: if_splits prod.splits intro: handled.one [OF _ ih])
qed

text \<open>A batch changes nothing of a session but who it is authenticated as.\<close>

definition same_stream :: "Session \<Rightarrow> Session \<Rightarrow> bool" where
  "same_stream a b \<longleftrightarrow> (\<exists>au name. b = a\<lparr>authenticated := au, ses_username := name\<rparr>) \<and> (authenticated a \<longrightarrow> b = a)"

lemma handled_stream: "handled lib (ses, z) (ses', z') \<Longrightarrow> same_stream ses ses'"
proof (induction "(ses, z)" "(ses', z')" arbitrary: ses z rule: handled.induct)
  case none
  have "ses' = ses'\<lparr>authenticated := authenticated ses', ses_username := ses_username ses'\<rparr>" by simp
  then show ?case unfolding same_stream_def by blast
next
  case (one now cmd ses z r cl ses1 z1)
  then show ?case using handle_command_session [OF one(1)] by (auto simp: same_stream_def)
qed

lemma same_stream_fields:
  assumes "same_stream a b"
  shows "write_queue b = write_queue a" "reading b = reading a" "closing b = closing a" "stream_open b = stream_open a"
    "sent b = sent a" "deadline b = deadline a"
  using assms by (auto simp: same_stream_def)

text \<open>An answer is queued only when the logs were synced after the whole batch had run.\<close>

lemma payload_read_acknowledges:
  assumes "payload_read lib ts now (Some payload) n ses z = Some (ses', z')" and "write_queue ses' \<noteq> write_queue ses"
  obtains r cl ses1 z1 where "batch_loop lib ts payload n 0 [] False (ses\<lparr>reading := Idle\<rparr>) z = Some (r, cl, ses1, z1)"
    and "write_queue ses' = write_queue ses @ [r @ nl]" and "logs_synced (shardManager z1) (shardManager z')"
proof -
  obtain r cl ses1 z1 where b: "batch_loop lib ts payload n 0 [] False (ses\<lparr>reading := Idle\<rparr>) z = Some (r, cl, ses1, z1)"
    using assms(1) by (auto simp: payload_read_def split: option.splits)
  have q: "write_queue ses1 = write_queue ses"
    using same_stream_fields(1) [OF handled_stream] batch_loop_handled [OF b] by simp
  obtain ok z2 where s: "z_syncWAL z1 = (ok, z2)" by (cases "z_syncWAL z1")
  have ok: "ok" using assms b s q by (auto simp: payload_read_def close_stream_def split: if_splits)
  then have z': "z' = z2" "write_queue ses' = write_queue ses @ [r @ nl]"
    using assms(1) b s q by (auto simp: payload_read_def queue_write_def do_read_size_def touch_def Let_def split: if_splits)
  have "syncWAL (shardManager z1) = (True, shardManager z2)"
    using on_mgr_only [OF s [unfolded z_syncWAL_def]] ok by simp
  from syncWAL_synced [OF this] b z' show ?thesis using that by blast
qed

lemma handled_auth_mono: "handled lib (ses, z) (ses', z') \<Longrightarrow> authenticated ses \<Longrightarrow> authenticated ses'"
  using handled_stream [of lib ses z ses' z'] by (auto simp: same_stream_def)

text \<open>A session that is not authenticated after a batch has changed nothing but the failure counters.\<close>

lemma handled_unauthenticated:
  "handled lib (ses, z) (ses', z') \<Longrightarrow> \<not> authenticated ses' \<Longrightarrow> z' = z\<lparr>authFailures := authFailures z'\<rparr>"
proof (induction "(ses, z)" "(ses', z')" arbitrary: ses z rule: handled.induct)
  case none
  then show ?case by simp
next
  case (one now cmd ses z r cl ses1 z1)
  have "\<not> authenticated ses1" using handled_auth_mono one(2,4) by blast
  then have "\<not> authenticated ses" using handle_command_session [OF one(1)] by auto
  from handle_command_refused(1) [OF one(1) this] have z1: "z1 = z\<lparr>authFailures := authFailures z1\<rparr>" .
  have "z' = z1\<lparr>authFailures := authFailures z'\<rparr>" by (rule one(3) [OF one(4)])
  then show ?case by (subst (asm) z1) simp
qed

section \<open>The session as a state machine\<close>

text \<open>
  The events of a session. Everything else (other sessions, the threads of the database) may change
  the database between two of them. A completion handler gets data only from an open stream.
\<close>

inductive ses_step :: "Lib \<Rightarrow> Session \<times> ZestDB \<Rightarrow> Session \<times> ZestDB \<Rightarrow> bool" for lib where
  size_event: "reading ses = ReadingSize \<Longrightarrow> pred_option (\<lambda>bs. length bs = 4) data \<Longrightarrow>
     ses_step lib (ses, z) (size_read lib data ses, z)"
| payload_event: "reading ses = ReadingCommand n \<Longrightarrow> pred_option (\<lambda>p. length p = unat n) data \<Longrightarrow>
     payload_read lib ts now data n ses z = Some (ses', z') \<Longrightarrow> ses_step lib (ses, z) (ses', z')"
| write_event: "write_queue ses \<noteq> [] \<Longrightarrow> ok \<longrightarrow> stream_open ses \<Longrightarrow> ses_step lib (ses, z) (write_done ok ses, z)"
| timer_event: "stream_open ses \<Longrightarrow> ses_step lib (ses, z) (timer_fired now ses, z)"
| other_event: "ses_step lib (ses, z) (ses, z')"

inductive_cases ses_stepE: "ses_step lib (ses, z) (ses', z')"

inductive ses_reachable :: "Lib \<Rightarrow> Session \<times> ZestDB \<Rightarrow> bool" for lib where
  started: "ses_reachable lib (ses_start lib now remote handshake z (new_Session auth idle), z)"
| stepped: "ses_reachable lib x \<Longrightarrow> ses_step lib x y \<Longrightarrow> ses_reachable lib y"

text \<open>
  A closed session reads nothing; a session that is about to close reads nothing more and still has
  something to write unless it is closed; the payload it waits for is within the limit that holds for it.
\<close>

definition ses_inv :: "Session \<Rightarrow> bool" where
  "ses_inv ses \<longleftrightarrow> (\<not> stream_open ses \<longrightarrow> reading ses = Idle)
     \<and> (closing ses \<longrightarrow> reading ses = Idle \<and> (write_queue ses \<noteq> [] \<or> \<not> stream_open ses))
     \<and> (\<forall>n. reading ses = ReadingCommand n \<longrightarrow>
          n \<le> (if authenticated ses then MAX_PAYLOAD_SIZE else MAX_UNAUTHENTICATED_PAYLOAD_SIZE))"

lemma close_stream_inv [simp]: "ses_inv (close_stream ses)"
  by (simp add: ses_inv_def close_stream_def)

lemma ses_start_inv: "ses_inv (ses_start lib now remote handshake z (new_Session auth idle))"
  by (auto simp: ses_start_def ses_inv_def new_Session_def queue_write_def touch_def do_read_size_def close_stream_def Let_def
      split: option.splits)

lemma size_read_inv: "ses_inv ses \<Longrightarrow> reading ses = ReadingSize \<Longrightarrow> ses_inv (size_read lib data ses)"
  by (auto simp: size_read_def Let_def ses_inv_def queue_write_def not_less split: option.splits) (simp_all add: close_stream_def)

lemma payload_read_inv:
  assumes "ses_inv ses" and "reading ses = ReadingCommand n" and "payload_read lib ts now data n ses z = Some (ses', z')"
  shows "ses_inv ses'"
proof (cases data)
  case None
  with assms(3) show ?thesis by (auto simp: payload_read_def)
next
  case (Some payload)
  obtain r cl ses1 z1 where b: "batch_loop lib ts payload n 0 [] False (ses\<lparr>reading := Idle\<rparr>) z = Some (r, cl, ses1, z1)"
    using assms(3) Some by (auto simp: payload_read_def split: option.splits)
  have "same_stream (ses\<lparr>reading := Idle\<rparr>) ses1" using handled_stream batch_loop_handled [OF b] by simp
  note f = same_stream_fields [OF this]
  have o: "stream_open ses" "\<not> closing ses" using assms(1,2) by (auto simp: ses_inv_def)
  obtain ok z2 where s: "z_syncWAL z1 = (ok, z2)" by (cases "z_syncWAL z1")
  show ?thesis
    using assms(3) Some b s f o
    by (auto simp: payload_read_def Let_def ses_inv_def queue_write_def do_read_size_def touch_def close_stream_def split: if_splits)
qed

lemma ses_step_inv: "ses_step lib (ses, z) (ses', z') \<Longrightarrow> ses_inv ses \<Longrightarrow> ses_inv ses'"
proof (erule ses_stepE)
  assume i: "ses_inv ses"
  show "ses_inv ses'" if "ses' = size_read lib data ses" "reading ses = ReadingSize" for data
    using size_read_inv [OF i] that by simp
  show "ses_inv ses'" if "reading ses = ReadingCommand n" "payload_read lib ts now data n ses z = Some (ses', z')" for n ts now data
    using payload_read_inv [OF i] that by simp
  show "ses_inv ses'" if "ses' = write_done ok ses" "write_queue ses \<noteq> []" for ok
  proof (cases "write_queue ses")
    case (Cons m ms)
    with i that show ?thesis by (cases ms) (auto simp: write_done_def ses_inv_def close_stream_def Let_def)
  qed (use that in simp)
  show "ses_inv ses'" if "ses' = timer_fired now ses" for now
    using i that by (simp add: timer_fired_def)
  show "ses_inv ses'" if "ses' = ses" using i that by simp
qed

lemma ses_reachable_inv: "ses_reachable lib x \<Longrightarrow> ses_inv (fst x)"
proof (induction rule: ses_reachable.induct)
  case started
  show ?case by (simp add: ses_start_inv)
next
  case (stepped x y)
  then show ?case using ses_step_inv [of lib "fst x" "snd x" "fst y" "snd y"] by simp
qed

text \<open>Answers go out in the order in which they were queued.\<close>

lemma payload_read_queue:
  assumes "payload_read lib ts now data n ses z = Some (ses', z')"
  shows "\<exists>new. sent ses' = sent ses \<and> write_queue ses' = write_queue ses @ new \<and> length new \<le> 1"
proof (cases data)
  case None
  with assms show ?thesis by (auto simp: payload_read_def close_stream_def)
next
  case (Some payload)
  obtain r cl ses1 z1 where b: "batch_loop lib ts payload n 0 [] False (ses\<lparr>reading := Idle\<rparr>) z = Some (r, cl, ses1, z1)"
    using assms Some by (auto simp: payload_read_def split: option.splits)
  have "same_stream (ses\<lparr>reading := Idle\<rparr>) ses1" using handled_stream batch_loop_handled [OF b] by simp
  note f = same_stream_fields [OF this]
  obtain ok z2 where s: "z_syncWAL z1 = (ok, z2)" by (cases "z_syncWAL z1")
  with assms Some b f show ?thesis
    by (auto simp: payload_read_def Let_def queue_write_def do_read_size_def touch_def close_stream_def split: if_splits)
qed

lemma ses_step_fifo:
  assumes "ses_step lib (ses, z) (ses', z')"
  shows "\<exists>new. sent ses' @ write_queue ses' = sent ses @ write_queue ses @ new \<and> length new \<le> 1"
  using assms
proof (cases rule: ses_step.cases)
  case (payload_event n data ts now)
  from payload_read_queue [OF payload_event(3)] show ?thesis by auto
next
  case (write_event ok)
  then obtain m ms where "write_queue ses = m # ms" by (cases "write_queue ses") auto
  with write_event show ?thesis by (auto simp: write_done_def close_stream_def Let_def)
qed (auto simp: size_read_def write_done_def timer_fired_def close_stream_def queue_write_def Let_def split: option.splits)

end
