(* ===== verification/Durability.thy ===== *)
theory Durability
  imports Replay Session
begin

text \<open>
  Writes that were acknowledged survive a crash. A run of single-key commands through \<open>execCmd\<close>, with
  the logs synced, leaves in the logs of the shards exactly the commands that succeeded, numbered in
  their order and on disk. A database that starts from what a crash leaves - the logs as they were on
  disk, and for the keys that the run did not touch the values from before - replays them and holds
  the same map as before the crash, whatever had become of the touched keys.
\<close>

section \<open>The logs of the manager\<close>

definition log_state :: "ShardManager \<Rightarrow> WalEntry list \<Rightarrow> bool" where
  "log_state mgr es \<longleftrightarrow> (\<exists>logs. logs_hold mgr logs \<and> mset (concat logs) = mset es)
     \<and> sorted_wrt (\<lambda>a b. we_seq a < we_seq b) es \<and> list_all (\<lambda>e. we_seq e < mgr_nextSeq mgr) es"

text \<open>Every log is on disk unless it is marked as dirty, and is synced to disk when asked.\<close>

definition logs_sound :: "ShardManager \<Rightarrow> bool" where
  "logs_sound mgr \<longleftrightarrow> list_all (\<lambda>sh. fs_good (wal (sh_wal sh)) \<and> fsyncOnWrite (sh_settings sh)
     \<and> (dirty (sh_wal sh) \<or> on_disk (wal (sh_wal sh)))) (mgr_shards mgr)"

definition logs_on_disk :: "ShardManager \<Rightarrow> bool" where
  "logs_on_disk mgr \<longleftrightarrow> list_all (\<lambda>sh. \<not> dirty (sh_wal sh) \<and> on_disk (wal (sh_wal sh))) (mgr_shards mgr)"

lemma sort_key_unique:
  assumes "mset xs = mset es" and "sorted_wrt (\<lambda>a b. we_seq a < we_seq b) es"
  shows "sort_key we_seq xs = es"
proof (rule properties_for_sort_key)
  show "mset es = mset xs" by (simp add: assms(1))
  show "sorted (map we_seq es)" using assms(2) by (auto simp: sorted_map intro: sorted_wrt_mono_rel [rotated])
  have d: "distinct (map we_seq es)"
    using assms(2) strict_sorted_iff [of "map we_seq es"] by (simp add: sorted_wrt_map)
  fix k assume k: "k \<in> set es"
  have one: "filter (\<lambda>x. we_seq k = we_seq x) ys = [k]" if "mset ys = mset es" for ys
  proof -
    have e: "filter (\<lambda>x. we_seq k = we_seq x) es = [k]"
      using d k
    proof (induction es)
      case (Cons a es)
      show ?case
      proof (cases "k = a")
        case True
        with Cons.prems show ?thesis by (auto simp: filter_empty_conv)
      next
        case False
        with Cons.prems have i: "k \<in> set es" by simp
        then have "we_seq k \<in> set (map we_seq es)" by simp
        moreover have "we_seq a \<notin> set (map we_seq es)" using Cons.prems(1) by simp
        ultimately have "we_seq k \<noteq> we_seq a" by metis
        with Cons i show ?thesis by simp
      qed
    qed simp
    have "mset (filter (\<lambda>x. we_seq k = we_seq x) ys) = mset (filter (\<lambda>x. we_seq k = we_seq x) es)"
      using that by (simp add: mset_filter)
    then have "mset (filter (\<lambda>x. we_seq k = we_seq x) ys) = {#k#}" unfolding e by simp
    then show ?thesis by (simp only: mset_single_iff)
  qed
  show "filter (\<lambda>x. we_seq k = we_seq x) es = filter (\<lambda>x. we_seq k = we_seq x) xs"
    using one [of es] one [OF assms(1)] by simp
qed

lemma mgr_ready_less: "mgr_ready n mx mgr \<Longrightarrow> m \<le> n \<Longrightarrow> mgr_ready m mx mgr"
proof (induction n)
  case (Suc n)
  show ?case
  proof (cases "m = Suc n")
    case False
    have "mgr_ready n mx mgr" using Suc.prems(1) ready_less by (auto simp: mgr_ready_def list_all_iff)
    with Suc False show ?thesis by simp
  qed (use Suc in simp)
qed simp

section \<open>Writing to the shards leaves the logs alone\<close>

lemma sh_set_wal: "sh_wal (snd (sh_set k v sh)) = sh_wal sh" "sh_settings (snd (sh_set k v sh)) = sh_settings sh"
  by (auto simp: sh_set_def sh_append_def sh_insert_def sh_put_def record_stats_def Let_def split: prod.splits)

lemma sh_del_wal: "sh_wal (snd (sh_del k sh)) = sh_wal sh" "sh_settings (snd (sh_del k sh)) = sh_settings sh"
  by (auto simp: sh_del_def sh_update_def sh_uncache_def record_stats_def Let_def split: prod.splits)

text \<open>The logs of two managers are the same, with the same counter.\<close>

definition same_logs :: "ShardManager \<Rightarrow> ShardManager \<Rightarrow> bool" where
  "same_logs mgr mgr' \<longleftrightarrow> map sh_wal (mgr_shards mgr') = map sh_wal (mgr_shards mgr)
     \<and> map sh_settings (mgr_shards mgr') = map sh_settings (mgr_shards mgr) \<and> mgr_nextSeq mgr' = mgr_nextSeq mgr"

lemma on_shard_logs:
  assumes "on_shard i f mgr = (r, mgr')" and "sh_wal (snd (f (mgr_shards mgr ! i))) = sh_wal (mgr_shards mgr ! i)"
    and "sh_settings (snd (f (mgr_shards mgr ! i))) = sh_settings (mgr_shards mgr ! i)"
  shows "same_logs mgr mgr'"
  using assms by (auto simp: on_shard_def same_logs_def map_update list_update_same_conv split: prod.splits)
    (metis list_update_beyond list_update_id map_update not_le)+

lemma mgr_set_logs: "mgr_set h k v mgr = (r, mgr') \<Longrightarrow> same_logs mgr mgr'"
  unfolding mgr_set_def by (rule on_shard_logs [where f = "sh_set k v"]) (simp_all add: sh_set_wal)

lemma mgr_del_logs: "mgr_del h k mgr = (r, mgr') \<Longrightarrow> same_logs mgr mgr'"
  unfolding mgr_del_def by (rule on_shard_logs [where f = "sh_del k"]) (simp_all add: sh_del_wal)

lemma same_logs_state:
  assumes "same_logs mgr mgr'"
  shows "log_state mgr' es = log_state mgr es" and "logs_sound mgr' = logs_sound mgr" and "logs_on_disk mgr' = logs_on_disk mgr"
proof -
  have l: "length (mgr_shards mgr') = length (mgr_shards mgr)"
    using assms unfolding same_logs_def by (metis length_map)
  have n: "sh_wal (mgr_shards mgr' ! i) = sh_wal (mgr_shards mgr ! i)"
    "sh_settings (mgr_shards mgr' ! i) = sh_settings (mgr_shards mgr ! i)" if "i < length (mgr_shards mgr)" for i
    using assms that l unfolding same_logs_def by (metis nth_map)+
  have "logs_hold mgr' logs = logs_hold mgr logs" for logs
    using l n by (auto simp: logs_hold_def list_all2_conv_all_nth)
  then show "log_state mgr' es = log_state mgr es" using assms by (simp add: log_state_def same_logs_def)
  show "logs_sound mgr' = logs_sound mgr" using l n by (auto simp: logs_sound_def list_all_length)
  show "logs_on_disk mgr' = logs_on_disk mgr" using l n by (auto simp: logs_on_disk_def list_all_length)
qed

section \<open>Appending and syncing\<close>

lemma concat_snoc_mset: "i < length logs \<Longrightarrow> mset (concat (logs[i := logs ! i @ [e]])) = add_mset e (mset (concat logs))"
proof (induction logs arbitrary: i)
  case (Cons l logs)
  then show ?case by (cases i) auto
qed simp

lemma appendToWAL_state:
  assumes "mgr_inv h mgr" and "mgr_ready n mx mgr" and "log_state mgr es" and "logs_sound mgr" and "length cmd < 2 ^ 32"
    and "unat (mgr_nextSeq mgr) + 1 < 2 ^ 64" and "appendToWAL h k cmd mgr = (ok, mgr')"
  shows "ok" and "log_state mgr' (es @ [\<lparr>we_cmd = cmd, we_seq = mgr_nextSeq mgr\<rparr>])" and "logs_sound mgr'"
    and "mgr_ready n mx mgr'" and "mgr_nextSeq mgr' = mgr_nextSeq mgr + 1"
proof -
  let ?i = "getShardId h mgr k" and ?e = "\<lparr>we_cmd = cmd, we_seq = mgr_nextSeq mgr\<rparr>"
  let ?sh = "mgr_shards mgr ! ?i"
  note i = getShardId_less [OF assms(1), of k]
  obtain logs where l: "logs_hold mgr logs" "mset (concat logs) = mset es" using assms(3) by (auto simp: log_state_def)
  have len: "length logs = length (mgr_shards mgr)" using l(1) by (simp add: logs_hold_def list_all2_lengthD)
  have w: "wal_logged (sh_wal ?sh) (logs ! ?i)" using l(1) i by (simp add: logs_hold_def list_all2_conv_all_nth)
  have io: "all_ok (sh_ios ?sh)" using mgr_ready_ios [OF assms(2)] i by (simp add: list_all_length)
  obtain q w' s' where a: "wal_append (sh_ios ?sh) cmd (mgr_nextSeq mgr) (sh_wal ?sh) = (ok, q, w', s')"
    and m: "mgr' = mgr\<lparr>mgr_shards := (mgr_shards mgr)[?i := ?sh\<lparr>sh_wal := w', sh_ios := s'\<rparr>], mgr_nextSeq := q\<rparr>"
    using assms(7) by (auto simp: appendToWAL_def Let_def split: prod.splits)
  note f = wal_append_logged [OF w assms(5) io a]
  show ok: "ok" by (rule f(1))
  show q: "mgr_nextSeq mgr' = mgr_nextSeq mgr + 1" using f(2) by (simp add: m)
  have good: "fs_good (wal w')" "dirty w'" using a ok by (auto simp: wal_append_def split: if_splits prod.splits)
  have "logs_hold mgr' (logs[?i := logs ! ?i @ [?e]])"
    using l(1) f(4) by (auto simp: logs_hold_def m intro: list_all2_update_cong)
  moreover have "mset (concat (logs[?i := logs ! ?i @ [?e]])) = mset (es @ [?e])"
    using l(2) concat_snoc_mset [of ?i logs ?e] i len by simp
  moreover have "mgr_nextSeq mgr < mgr_nextSeq mgr + 1"
    using assms(6) by (simp add: word_less_nat_alt unat_word_ariths)
  then have "list_all (\<lambda>e. we_seq e < mgr_nextSeq mgr + 1) (es @ [?e])"
    using assms(3) by (auto simp: log_state_def list_all_iff)
  moreover have "sorted_wrt (\<lambda>a b. we_seq a < we_seq b) (es @ [?e])"
    using assms(3) by (auto simp: log_state_def sorted_wrt_append list_all_iff)
  ultimately show "log_state mgr' (es @ [?e])" unfolding log_state_def q by blast
  show "logs_sound mgr'"
    using assms(4) good i by (auto simp: logs_sound_def m list_all_length nth_list_update)
  show "mgr_ready n mx mgr'"
    using assms(2) i wal_ready_frame [OF f(3)] by (auto simp: mgr_ready_def m list_all_length nth_list_update)
qed

lemma wal_sync_ok:
  assumes "wal_logged w es" and "fs_good (wal w)" and "fsyncOnWrite st" and "dirty w \<or> on_disk (wal w)" and "all_ok s"
    and "wal_sync st s w = (ok, w', s')"
  shows "ok" and "wal_logged w' es" and "fs_good (wal w')" and "\<not> dirty w'" and "on_disk (wal w')" and "all_ok s'"
proof -
  obtain s1 where f: "flush_and_fsync s (wal w) = (True, (wal w)\<lparr>fs_disk := fs_data (wal w)\<rparr>, s1)" "all_ok s1"
    using flush_and_fsync_ok [of "wal w" s] assms(1,2,5) by (auto simp: wal_logged_def)
  have "ok \<and> wal_logged w' es \<and> fs_good (wal w') \<and> \<not> dirty w' \<and> on_disk (wal w') \<and> all_ok s'"
    using assms f by (cases "dirty w") (auto simp: wal_sync_def wal_logged_def on_disk_def)
  then show "ok" "wal_logged w' es" "fs_good (wal w')" "\<not> dirty w'" "on_disk (wal w')" "all_ok s'" by auto
qed

lemma syncWAL_state:
  assumes "mgr_inv h mgr" and "mgr_ready n mx mgr" and "log_state mgr es" and "logs_sound mgr" and "syncWAL mgr = (ok, mgr')"
  shows "ok" and "log_state mgr' es" and "logs_sound mgr'" and "logs_on_disk mgr'" and "mgr_ready n mx mgr'"
    and "mgr_nextSeq mgr' = mgr_nextSeq mgr"
proof -
  obtain logs where l: "logs_hold mgr logs" "mset (concat logs) = mset es" using assms(3) by (auto simp: log_state_def)
  have m: "mgr' = mgr\<lparr>mgr_shards := map (\<lambda>sh. snd (sh_sync sh)) (mgr_shards mgr)\<rparr>"
    and okd: "ok = list_all (\<lambda>sh. fst (sh_sync sh)) (mgr_shards mgr)"
    using assms(5) by (auto simp: syncWAL_def Let_def comp_def list_all_iff)
  have step: "fst (sh_sync sh) \<and> wal_logged (sh_wal (snd (sh_sync sh))) (logs ! i) \<and> fs_good (wal (sh_wal (snd (sh_sync sh))))
      \<and> \<not> dirty (sh_wal (snd (sh_sync sh))) \<and> on_disk (wal (sh_wal (snd (sh_sync sh))))
      \<and> sh_settings (snd (sh_sync sh)) = sh_settings sh \<and> (ready n sh \<longrightarrow> ready n (snd (sh_sync sh)))"
    if i: "i < length (mgr_shards mgr)" "sh = mgr_shards mgr ! i" for i sh
  proof -
    obtain k w s where w: "wal_sync (sh_settings sh) (sh_ios sh) (sh_wal sh) = (k, w, s)"
      by (cases "wal_sync (sh_settings sh) (sh_ios sh) (sh_wal sh)")
    have io: "all_ok (sh_ios sh)" using mgr_ready_ios [OF assms(2)] i by (simp add: list_all_length)
    have "wal_logged (sh_wal sh) (logs ! i)" using l(1) i by (simp add: logs_hold_def list_all2_conv_all_nth)
    moreover have "fs_good (wal (sh_wal sh))" "fsyncOnWrite (sh_settings sh)" "dirty (sh_wal sh) \<or> on_disk (wal (sh_wal sh))"
      using assms(4) i by (auto simp: logs_sound_def list_all_length)
    ultimately have "k \<and> wal_logged w (logs ! i) \<and> fs_good (wal w) \<and> \<not> dirty w \<and> on_disk (wal w) \<and> all_ok s"
      using wal_sync_ok [OF _ _ _ _ io w] by blast
    with wal_ready_frame [of s n sh w] show ?thesis by (simp add: sh_sync_def w)
  qed
  have len: "length logs = length (mgr_shards mgr)" using l(1) by (simp add: logs_hold_def list_all2_lengthD)
  show "ok" using step by (simp add: okd list_all_length)
  have "logs_hold mgr' logs" using step len by (simp add: logs_hold_def m list_all2_conv_all_nth)
  with l(2) assms(3) show "log_state mgr' es" by (auto simp: log_state_def m)
  show "logs_sound mgr'" using step assms(4) by (auto simp: logs_sound_def m list_all_length)
  show "logs_on_disk mgr'" using step by (auto simp: logs_on_disk_def m list_all_length)
  show "mgr_ready n mx mgr'" using step assms(2) by (auto simp: mgr_ready_def m list_all_length)
  show "mgr_nextSeq mgr' = mgr_nextSeq mgr" by (simp add: m)
qed

section \<open>One write\<close>

text \<open>The state in which the logs hold \<open>es\<close> and \<open>n\<close> more writes can be made without a failing call.\<close>

definition live_state :: "Lib \<Rightarrow> nat \<Rightarrow> nat \<Rightarrow> WalEntry list \<Rightarrow> ZestDB \<Rightarrow> bool" where
  "live_state lib n mx es z \<longleftrightarrow> z_inv lib z \<and> \<not> replaying z \<and> mgr_ready n mx (shardManager z)
     \<and> log_state (shardManager z) es \<and> logs_sound (shardManager z) \<and> logs_on_disk (shardManager z)
     \<and> unat (mgr_nextSeq (shardManager z)) + n < 2 ^ 64 \<and> mx < 2 ^ 64"

fun accepted :: "Lib \<Rightarrow> ZestDB \<Rightarrow> kv_write \<Rightarrow> bool" where
  "accepted lib z (WSet k v) = (key_accepted z k \<and> value_accepted lib z v)"
| "accepted lib z (WDel k) = (validateKey z k \<and> \<not> readOnly (settings z))"

lemma accepted_only: "mgr_only z z' \<Longrightarrow> accepted lib z' w = accepted lib z w"
  using mgr_only_fields(1,4) [of z z']
  by (cases w) (auto simp: key_accepted_def value_accepted_def validateKey_def validateValue_def)

text \<open>What the end of \<open>execCmd\<close> does for a write that succeeded.\<close>

lemma log_write_live:
  assumes "z_inv lib z" and "\<not> replaying z" and "mgr_ready n mx (shardManager z)" and "log_state (shardManager z) es"
    and "logs_sound (shardManager z)" and "unat (mgr_nextSeq (shardManager z)) + Suc n < 2 ^ 64" and "mx < 2 ^ 64"
    and "length line < 2 ^ 32" and "code r = Success" and "length ws \<ge> 2"
    and "log_write lib True ws line True r z = (r', z')"
  shows "r' = r" and "live_state lib n mx (es @ [\<lparr>we_cmd = line, we_seq = mgr_nextSeq (shardManager z)\<rparr>]) z'"
    and "mgr_only z z'" and "z_db lib z' = z_db lib z"
proof -
  let ?e = "\<lparr>we_cmd = line, we_seq = mgr_nextSeq (shardManager z)\<rparr>"
  have m: "mgr_inv (hash lib) (shardManager z)" using assms(1) by (simp add: z_inv_def)
  obtain ok z1 where a: "z_appendToWAL lib (word_at ws 1) line z = (ok, z1)" by (cases "z_appendToWAL lib (word_at ws 1) line z")
  then have oa: "on_mgr (appendToWAL (hash lib) (word_at ws 1) line) z = (ok, z1)" using assms(2) by (simp add: z_appendToWAL_def)
  have n1: "unat (mgr_nextSeq (shardManager z)) + 1 < 2 ^ 64" using assms(6) by simp
  note f = appendToWAL_state [OF m assms(3,4,5,8) n1 conjunct2 [OF on_mgr_only [OF oa]]]
  obtain ok2 z2 where s: "z_syncWAL z1 = (ok2, z2)" by (cases "z_syncWAL z1")
  have i1: "z_inv lib z1" using z_appendToWAL_effect [OF assms(1) a] by (simp add: read_effect_def)
  then have m1: "mgr_inv (hash lib) (shardManager z1)" by (simp add: z_inv_def)
  note g = syncWAL_state [OF m1 f(4,2,3) conjunct2 [OF on_mgr_only [OF s [unfolded z_syncWAL_def]]]]
  have e: "read_effect lib z z2"
    using read_effect_trans [OF z_appendToWAL_effect [OF assms(1) a] z_syncWAL_effect [OF i1 s]] .
  have r: "r' = r" "z' = z2" using assms(2,9,10,11) a f(1) s g(1) by (auto simp: log_write_def)
  show "r' = r" by (rule r(1))
  show "mgr_only z z'" "z_db lib z' = z_db lib z" using e r(2) by (auto simp: read_effect_def)
  have "unat (mgr_nextSeq (shardManager z2)) = unat (mgr_nextSeq (shardManager z)) + 1"
    using g(6) f(5) n1 by (simp add: unat_word_ariths)
  with e g r(2) assms(2,6,7) mgr_only_fields(4) [of z z2] show "live_state lib n mx (es @ [?e]) z'"
    by (simp add: live_state_def read_effect_def)
qed

text \<open>One accepted write, with no failing call: a command that succeeded is in the logs and on disk.\<close>

definition succeeded :: "ResultType option \<Rightarrow> bool" where
  "succeeded ro \<longleftrightarrow> (case ro of None \<Rightarrow> False | Some r \<Rightarrow> code r = Success)"

text \<open>The second half of a write: the shards have changed from \<open>z\<close> to \<open>z1\<close> and the logs have not.\<close>

lemma live_finish:
  assumes "live_state lib (Suc n) mx es z" and "mgr_only z z1" and "z_inv lib z1" and "mgr_ready n mx (shardManager z1)"
    and "same_logs (shardManager z) (shardManager z1)"
  shows "live_state lib n mx es z1"
    and "length line < 2 ^ 32 \<Longrightarrow> code r = Success \<Longrightarrow> length ws \<ge> 2 \<Longrightarrow> log_write lib True ws line True r z1 = (r', z') \<Longrightarrow>
       r' = r \<and> mgr_only z z' \<and> z_db lib z' = z_db lib z1 \<and> (\<exists>q. live_state lib n mx (es @ [\<lparr>we_cmd = line, we_seq = q\<rparr>]) z')"
proof -
  have l: "\<not> replaying z" "log_state (shardManager z) es" "logs_sound (shardManager z)" "logs_on_disk (shardManager z)"
    "unat (mgr_nextSeq (shardManager z)) + Suc n < 2 ^ 64" "mx < 2 ^ 64" using assms(1) by (auto simp: live_state_def)
  note st = same_logs_state [OF assms(5)]
  have rp: "\<not> replaying z1" using mgr_only_fields(4) [OF assms(2)] l(1) by simp
  have q: "unat (mgr_nextSeq (shardManager z1)) + Suc n < 2 ^ 64" using assms(5) l(5) by (simp add: same_logs_def)
  have e: "log_state (shardManager z1) es" "logs_sound (shardManager z1)" using st l(2,3) by simp_all
  show "live_state lib n mx es z1" using assms(3,4) rp e q l(4,6) st(3) by (simp add: live_state_def)
  assume a: "length line < 2 ^ 32" "code r = Success" "length ws \<ge> 2" "log_write lib True ws line True r z1 = (r', z')"
  note g = log_write_live [OF assms(3) rp assms(4) e q l(6) a]
  from g mgr_only_trans [OF assms(2)]
  show "r' = r \<and> mgr_only z z' \<and> z_db lib z' = z_db lib z1 \<and> (\<exists>q. live_state lib n mx (es @ [\<lparr>we_cmd = line, we_seq = q\<rparr>]) z')"
    by blast
qed

abbreviation shard_count :: "ZestDB \<Rightarrow> nat" where
  "shard_count z \<equiv> length (mgr_shards (shardManager z))"

lemma same_logs_length: "same_logs mgr mgr' \<Longrightarrow> length (mgr_shards mgr') = length (mgr_shards mgr)"
  unfolding same_logs_def by (metis length_map)

lemma log_write_count: "log_write lib b ws line sync r z = (r', z') \<Longrightarrow> shard_count z' = shard_count z"
  by (auto simp: log_write_def z_appendToWAL_def z_syncWAL_def on_mgr_def appendToWAL_def syncWAL_def Let_def
      split: if_splits prod.splits)

definition write_outcome :: "Lib \<Rightarrow> nat \<Rightarrow> nat \<Rightarrow> WalEntry list \<Rightarrow> kv_write \<Rightarrow> ZestDB \<Rightarrow> ResultType option \<Rightarrow> ZestDB \<Rightarrow> bool" where
  "write_outcome lib n mx es w z ro z' \<longleftrightarrow> mgr_only z z' \<and> shard_count z' = shard_count z \<and> z_db lib z' = apply_write w (z_db lib z)
     \<and> (if succeeded ro then \<exists>q. live_state lib n mx (es @ [\<lparr>we_cmd = line_of w, we_seq = q\<rparr>]) z'
        else live_state lib n mx es z' \<and> z_db lib z' = z_db lib z)"

lemma live_set:
  assumes "live_state lib (Suc n) mx es z" and "key_accepted z k" and "value_accepted lib z v" and "write_ok (WSet k v)"
    and "length v \<le> mx" and "length (set_line k v) < 2 ^ 32" and "role \<noteq> Read"
    and "execCmd lib (set_line k v) role True z = (ro, z')"
  shows "write_outcome lib n mx es (WSet k v) z ro z'"
proof -
  have l: "z_inv lib z" "\<not> replaying z" "mgr_ready (Suc n) mx (shardManager z)" "mx < 2 ^ 64"
    using assms(1) by (auto simp: live_state_def)
  have m: "mgr_inv (hash lib) (shardManager z)" using l(1) by (simp add: z_inv_def)
  have ok: "plain_word k" "length k \<le> MAX_KEY_SIZE" "plain_value v" "length v < 2 ^ 32" "v \<noteq> ''''"
    using assms(4) by (auto simp: plain_value_def)
  obtain r z1 where s: "z_set lib k v z = (r, z1)" by (cases "z_set lib k v z")
  have o: "on_mgr (mgr_set (hash lib) k v) z = (r, z1)" using z_set_cases [OF s] assms(2,3) l(2) by auto
  note o2 = on_mgr_only [OF o]
  note f = mgr_set_ready [OF m l(3) ok(2,5) assms(5) ok(4) l(4) conjunct2 [OF o2]]
  obtain x ws where x: "execCmd lib (set_line k v) role True z =
      apfst Some (log_write lib True ((0, ''set'') # (4, k) # (5 + length k, x) # ws) (set_line k v) True r z1)"
    using execCmd_set_line [OF ok(1,3) assms(7), of lib True z] s by auto
  obtain r' where lw: "log_write lib True ((0, ''set'') # (4, k) # (5 + length k, x) # ws) (set_line k v) True r z1 = (r', z')"
    "ro = Some r'" using x assms(8) by (auto simp: apfst_def map_prod_def split: prod.splits)
  note g = live_finish(2) [OF assms(1) conjunct1 [OF o2] z_inv_only [OF conjunct1 [OF o2] l(1) f(3)] f(1)
      mgr_set_logs [OF conjunct2 [OF o2]] assms(6) f(2) _ lw(1)]
  have "shard_count z' = shard_count z"
    using log_write_count [OF lw(1)] same_logs_length [OF mgr_set_logs [OF conjunct2 [OF o2]]] by simp
  with g f(2,4) lw(2) show ?thesis by (auto simp: write_outcome_def succeeded_def z_db_def)
qed

lemma live_del:
  assumes "live_state lib (Suc n) mx es z" and "validateKey z k" and "\<not> readOnly (settings z)" and "plain_word k"
    and "length (del_line k) < 2 ^ 32" and "role \<noteq> Read" and "execCmd lib (del_line k) role True z = (ro, z')"
  shows "write_outcome lib n mx es (WDel k) z ro z'"
proof -
  have l: "z_inv lib z" "\<not> replaying z" "mgr_ready (Suc n) mx (shardManager z)" "mx < 2 ^ 64"
    using assms(1) by (auto simp: live_state_def)
  have m: "mgr_inv (hash lib) (shardManager z)" using l(1) by (simp add: z_inv_def)
  obtain r z1 where s: "z_del lib k z = (r, z1)" by (cases "z_del lib k z")
  have o: "on_mgr (mgr_del (hash lib) k) z = (r, z1)" using s assms(2,3) by (simp add: z_del_def Let_def)
  note o2 = on_mgr_only [OF o]
  note d = mgr_del_spec [OF m conjunct2 [OF o2]]
  have db1: "z_db lib z1 = (z_db lib z)(k := None)" using d(2) by (simp add: z_db_def)
  note h = live_finish [OF assms(1) conjunct1 [OF o2] z_inv_only [OF conjunct1 [OF o2] l(1) d(1)]
      mgr_del_ready [OF m l(3,4) conjunct2 [OF o2]] mgr_del_logs [OF conjunct2 [OF o2]]]
  obtain r' where lw: "log_write lib True [(0, ''del''), (4, k)] (del_line k) True r z1 = (r', z')" "ro = Some r'"
    using execCmd_del_line [OF assms(4,6), of lib True z] assms(7) s by (auto simp: apfst_def map_prod_def split: prod.splits)
  have c: "shard_count z' = shard_count z"
    using log_write_count [OF lw(1)] same_logs_length [OF mgr_del_logs [OF conjunct2 [OF o2]]] by simp
  show ?thesis
  proof (cases "code r = Success")
    case True
    from h(2) [OF assms(5) True _ lw(1)] db1 True lw(2) c show ?thesis by (auto simp: write_outcome_def succeeded_def)
  next
    case False
    then have r: "r' = r" "z' = z1" using lw(1) by (auto simp: log_write_def)
    have "z_db lib z k = None" using d(3) False by (auto simp: z_db_def split: if_splits)
    then have "z_db lib z1 = z_db lib z" using db1 by auto
    with h(1) db1 o2 False r lw(2) c show ?thesis by (simp add: write_outcome_def succeeded_def)
  qed
qed

lemma live_write:
  assumes "live_state lib (Suc n) mx es z" and "accepted lib z w" and "write_ok w" and "write_size w \<le> mx"
    and "length (line_of w) < 2 ^ 32" and "role \<noteq> Read" and "execCmd lib (line_of w) role True z = (ro, z')"
  shows "write_outcome lib n mx es w z ro z'"
  using assms live_set [of lib n mx es z] live_del [of lib n mx es z] by (cases w) auto

section \<open>A run of writes, a crash, and the replay\<close>

text \<open>The commands of a client one after the other; those that were answered with success, and the final state.\<close>

fun run_writes :: "Lib \<Rightarrow> Role \<Rightarrow> kv_write list \<Rightarrow> ZestDB \<Rightarrow> kv_write list \<times> ZestDB" where
  "run_writes lib role [] z = ([], z)"
| "run_writes lib role (w # ws) z =
     (case execCmd lib (line_of w) role True z of (ro, z1) \<Rightarrow>
      case run_writes lib role ws z1 of (acked, z2) \<Rightarrow> (if succeeded ro then w # acked else acked, z2))"

definition good_writes :: "Lib \<Rightarrow> ZestDB \<Rightarrow> nat \<Rightarrow> kv_write list \<Rightarrow> bool" where
  "good_writes lib z mx ws \<longleftrightarrow>
     list_all (\<lambda>w. accepted lib z w \<and> write_ok w \<and> write_size w \<le> mx \<and> length (line_of w) < 2 ^ 32) ws"

lemma run_writes_live:
  "live_state lib (length ws + n) mx es z \<Longrightarrow> good_writes lib z mx ws \<Longrightarrow> role \<noteq> Read \<Longrightarrow> run_writes lib role ws z = (acked, z') \<Longrightarrow>
     (\<exists>es'. live_state lib n mx (es @ es') z' \<and> map we_cmd es' = map line_of acked)
     \<and> z_db lib z' = fold apply_write acked (z_db lib z) \<and> z_db lib z' = fold apply_write ws (z_db lib z)
     \<and> length acked \<le> length ws \<and> set acked \<subseteq> set ws \<and> shard_count z' = shard_count z"
proof (induction ws arbitrary: es z acked z')
  case Nil
  then show ?case by auto
next
  case (Cons w ws)
  obtain ro z1 where x: "execCmd lib (line_of w) role True z = (ro, z1)" by (cases "execCmd lib (line_of w) role True z")
  obtain a z2 where r: "run_writes lib role ws z1 = (a, z2)" by (cases "run_writes lib role ws z1")
  have z': "z' = z2" "acked = (if succeeded ro then w # a else a)" using Cons.prems(4) x r by simp_all
  have w: "accepted lib z w" "write_ok w" "write_size w \<le> mx" "length (line_of w) < 2 ^ 32"
    using Cons.prems(2) by (simp_all add: good_writes_def)
  have l: "live_state lib (Suc (length ws + n)) mx es z" using Cons.prems(1) by simp
  note o = live_write [OF l w Cons.prems(3) x, unfolded write_outcome_def]
  have g: "good_writes lib z1 mx ws"
    using Cons.prems(2) accepted_only [OF conjunct1 [OF o]] by (simp add: good_writes_def list_all_iff)
  show ?case
  proof (cases "succeeded ro")
    case True
    then obtain q where "live_state lib (length ws + n) mx (es @ [\<lparr>we_cmd = line_of w, we_seq = q\<rparr>]) z1" using o by auto
    from Cons.IH [OF this g Cons.prems(3) r] obtain es' where
      "live_state lib n mx (es @ (\<lparr>we_cmd = line_of w, we_seq = q\<rparr> # es')) z2" "map we_cmd es' = map line_of a" by auto
    moreover from Cons.IH [OF \<open>live_state lib (length ws + n) mx (es @ [\<lparr>we_cmd = line_of w, we_seq = q\<rparr>]) z1\<close> g Cons.prems(3) r]
    have "z_db lib z2 = fold apply_write a (z_db lib z1)" "z_db lib z2 = fold apply_write ws (z_db lib z1)"
      "length a \<le> length ws" "set a \<subseteq> set ws" "shard_count z2 = shard_count z1" by auto
    ultimately show ?thesis using o True z' by (intro conjI exI [of _ "\<lparr>we_cmd = line_of w, we_seq = q\<rparr> # es'"]) auto
  next
    case False
    then have z1: "live_state lib (length ws + n) mx es z1" "z_db lib z1 = z_db lib z" "z_db lib z1 = apply_write w (z_db lib z)"
      using o by auto
    from Cons.IH [OF z1(1) g Cons.prems(3) r] z1(2,3) z' False o show ?thesis by auto
  qed
qed

text \<open>The logs that a new process finds are what was on disk.\<close>

definition logs_found :: "ShardManager \<Rightarrow> ShardManager \<Rightarrow> bool" where
  "logs_found old mgr \<longleftrightarrow> list_all2 (\<lambda>sh' sh. fs_open (wal (sh_wal sh)) \<and> canClear (sh_wal sh)
     \<and> fs_data (wal (sh_wal sh)) = fs_disk (wal (sh_wal sh'))) (mgr_shards old) (mgr_shards mgr)"

lemma logs_found_hold:
  assumes "logs_hold old logs" and "logs_on_disk old" and "logs_found old mgr"
  shows "logs_hold mgr logs"
  using assms by (auto simp: logs_hold_def logs_on_disk_def logs_found_def list_all2_conv_all_nth list_all_length wal_logged_def on_disk_def)

lemma survives_crash:
  assumes "live_state lib (length ws) mx [] z" and "good_writes lib z mx ws" and "role \<noteq> Read"
    and "run_writes lib role ws z = (acked, z')"
    and "z_inv lib z1" and "mgr_ready (length ws) mx (shardManager z1)" and "logs_found (shardManager z') (shardManager z1)"
    and "\<And>k. k \<notin> write_key ` set acked \<Longrightarrow> z_db lib z1 k = z_db lib z k"
  shows "\<exists>z2. replayWAL lib z1 = Some z2 \<and> z_inv lib z2 \<and> z_db lib z2 = z_db lib z'"
proof -
  have l0: "live_state lib (length ws + 0) mx [] z" using assms(1) by simp
  obtain es where l: "live_state lib 0 mx ([] @ es) z'" "map we_cmd es = map line_of acked"
    using run_writes_live [OF l0 assms(2-4)] by blast
  have d: "z_db lib z' = fold apply_write acked (z_db lib z)" "length acked \<le> length ws" "set acked \<subseteq> set ws"
    using run_writes_live [OF l0 assms(2-4)] by auto
  obtain logs where g: "logs_hold (shardManager z') logs" "mset (concat logs) = mset es" "logs_on_disk (shardManager z')"
    "sorted_wrt (\<lambda>a b. we_seq a < we_seq b) es" using l(1) by (auto simp: live_state_def log_state_def)
  have s: "map we_cmd (sort_key we_seq (concat logs)) = map line_of acked"
    unfolding sort_key_unique [OF g(2,4)] by (rule l(2))
  have mx: "mx < 2 ^ 64" using assms(1) by (simp add: live_state_def)
  have ok: "list_all write_ok acked" "list_all (\<lambda>w. write_size w \<le> mx) acked"
    using assms(2) d(3) by (auto simp: good_writes_def list_all_iff)
  obtain z2 where "replayWAL lib z1 = Some z2" "z_inv lib z2" "z_db lib z2 = fold apply_write acked (z_db lib z1)"
    using replayWAL_lines [OF assms(5) mgr_ready_less [OF assms(6) d(2)] mx ok logs_found_hold [OF g(1,3) assms(7)] s] by blast
  moreover have "fold apply_write acked (z_db lib z1) = fold apply_write acked (z_db lib z)"
    by (rule fold_apply_idem) (rule assms(8))
  ultimately show ?thesis using d(1) by auto
qed

text \<open>The harshest such crash: of everything since \<open>z\<close>, only the logs are left.\<close>

definition lose_all_but_logs :: "ZestDB \<Rightarrow> ZestDB \<Rightarrow> ZestDB" where
  "lose_all_but_logs z z' = z\<lparr>shardManager := (shardManager z)\<lparr>mgr_shards :=
     map2 (\<lambda>sh sh'. sh\<lparr>sh_wal := \<lparr>wal = fs_fresh True (fs_disk (wal (sh_wal sh'))) (fs_disk (wal (sh_wal sh'))),
                                   canClear = True, dirty = False\<rparr>\<rparr>)
       (mgr_shards (shardManager z)) (mgr_shards (shardManager z'))\<rparr>\<rparr>"

lemma lose_all_but_logs_state:
  assumes "z_inv lib z" and "mgr_ready n mx (shardManager z)" and "shard_count z' = shard_count z"
  shows "z_inv lib (lose_all_but_logs z z')" and "mgr_ready n mx (shardManager (lose_all_but_logs z z'))"
    and "logs_found (shardManager z') (shardManager (lose_all_but_logs z z'))"
    and "z_db lib (lose_all_but_logs z z') = z_db lib z"
proof -
  let ?w = "\<lambda>sh' :: Shard. \<lparr>wal = fs_fresh True (fs_disk (wal (sh_wal sh'))) (fs_disk (wal (sh_wal sh'))), canClear = True, dirty = False\<rparr>"
  let ?f = "\<lambda>(sh :: Shard) (sh' :: Shard). sh\<lparr>sh_wal := ?w sh'\<rparr>"
  let ?shs = "map2 ?f (mgr_shards (shardManager z)) (mgr_shards (shardManager z'))"
  have c: "shardManager (lose_all_but_logs z z') = (shardManager z)\<lparr>mgr_shards := ?shs\<rparr>"
    "settings (lose_all_but_logs z z') = settings z" by (simp_all add: lose_all_but_logs_def)
  have m: "mgr_inv (hash lib) (shardManager z)" using assms(1) by (simp add: z_inv_def)
  have n: "length ?shs = length (mgr_shards (shardManager z))" using assms(3) by simp
  have i: "?shs ! i = ?f (mgr_shards (shardManager z) ! i) (mgr_shards (shardManager z') ! i)" if "i < length (mgr_shards (shardManager z))" for i
    using that assms(3) by simp
  have f: "shard_inv (?f sh sh') = shard_inv sh" "contents (?f sh sh') = contents sh" for sh sh'
    by (auto simp: shard_inv_def store_inv_def index_live_def contents_alt)
  have iv: "shard_inv (?shs ! i)" if "i < length (mgr_shards (shardManager z))" for i
    using i [OF that] mgr_inv_shard [OF m that] f(1) by simp
  have e: "contents (?shs ! i) = contents (mgr_shards (shardManager z) ! i)" if "i < length (mgr_shards (shardManager z))" for i
    unfolding i [OF that] by (rule f(2))
  have e': "contents (mgr_shards (shardManager z) ! i) k \<noteq> None"
    if "i < length (mgr_shards (shardManager z))" "contents (?shs ! i) k \<noteq> None" for i k
    using that(2) unfolding e [OF that(1)] .
  note u = mgr_update_all [OF m n iv e' c(1)]
  have "mgr_inv (hash lib) (shardManager (lose_all_but_logs z z'))" by (rule u(1))
  then show "z_inv lib (lose_all_but_logs z z')" using assms(1) c(2) by (simp add: z_inv_def)
  have "db (hash lib) (shardManager (lose_all_but_logs z z')) k = db (hash lib) (shardManager z) k" for k
  proof -
    have "db (hash lib) (shardManager (lose_all_but_logs z z')) k = contents (?shs ! getShardId (hash lib) (shardManager z) k) k"
      by (rule u(2))
    also have "\<dots> = db (hash lib) (shardManager z) k" unfolding e [OF getShardId_less [OF m]] db_def ..
    finally show ?thesis .
  qed
  then show "z_db lib (lose_all_but_logs z z') = z_db lib z" by (simp add: z_db_def fun_eq_iff)
  have "ready n (?f sh sh') = ready n sh" for sh sh'
    by (simp add: ready_def sound_files_def flags_ok_def f(1))
  then show "mgr_ready n mx (shardManager (lose_all_but_logs z z'))"
    using assms(2,3) by (simp add: mgr_ready_def c list_all_length)
  show "logs_found (shardManager z') (shardManager (lose_all_but_logs z z'))"
    using assms(3) by (simp add: logs_found_def c list_all2_conv_all_nth fs_fresh_def)
qed

end
