(* ===== verification/Server.thy ===== *)
theory Server
  imports Session
begin

text \<open>
  \<open>Server\<close> of \<open>Server.hpp\<close> and \<open>Server.cpp\<close>: the acceptor, the limit on open sessions and the choice
  of an IO thread. An accepted connection becomes a session unless too many are open; the counter
  \<open>activeSessions\<close> is raised by the constructor of \<open>Session\<close> and lowered by its destructor. \<open>live\<close> is
  the list of the sessions that exist, each with the number of its IO thread.
\<close>

record Server =
  workers :: nat
  nextWorker :: u64
  stopped :: bool
  acceptor_open :: bool
  accepting :: "nat option"
  retrying :: bool
  srv_useSSL :: bool
  maxConnections :: u64
  srv_authTimeout :: nat
  srv_idleTimeout :: nat
  activeSessions :: u64
  live :: "nat list"

definition makeWorkers :: "u32 \<Rightarrow> nat" where
  "makeWorkers hardware_concurrency = unat (max 1 hardware_concurrency)"

text \<open>The next connection will run on the IO thread whose turn it is.\<close>

definition do_accept :: "Server \<Rightarrow> Server" where
  "do_accept srv =
     srv\<lparr>accepting := Some (unat (nextWorker srv mod of_nat (workers srv))), nextWorker := nextWorker srv + 1\<rparr>"

definition new_Server :: "u32 \<Rightarrow> Settings \<Rightarrow> Server" where
  "new_Server hardware_concurrency st =
     do_accept \<lparr>workers = makeWorkers hardware_concurrency, nextWorker = 0, stopped = False, acceptor_open = True, accepting = None, retrying = False,
       srv_useSSL = useSSL st, maxConnections = ucast (MaxConnections st), srv_authTimeout = unat (AuthTimeout st) * 10 ^ 9,
       srv_idleTimeout = unat (IdleTimeout st) * 10 ^ 9, activeSessions = 0, live = []\<rparr>"

datatype accept_result = Aborted | Failed | Accepted

text \<open>The completion handler of an accept that was started for the IO thread \<open>w\<close>.\<close>

definition accept_done :: "accept_result \<Rightarrow> nat \<Rightarrow> Server \<Rightarrow> Server" where
  "accept_done ec w srv =
     (let srv1 = srv\<lparr>accepting := None\<rparr> in
      case ec of
        Aborted \<Rightarrow> srv1
      | Failed \<Rightarrow> srv1\<lparr>retrying := True\<rparr>
      | Accepted \<Rightarrow>
          do_accept (if activeSessions srv1 \<ge> maxConnections srv1 then srv1
                     else srv1\<lparr>activeSessions := activeSessions srv1 + 1, live := live srv1 @ [w]\<rparr>))"

text \<open>The timer that starts accepting again; \<open>cancelled\<close> when the server stopped meanwhile.\<close>

definition retry_done :: "bool \<Rightarrow> Server \<Rightarrow> Server" where
  "retry_done cancelled srv =
     (let srv1 = srv\<lparr>retrying := False\<rparr> in if cancelled then srv1 else do_accept srv1)"

text \<open>The destructor of session number \<open>i\<close>.\<close>

definition session_ended :: "nat \<Rightarrow> Server \<Rightarrow> Server" where
  "session_ended i srv =
     srv\<lparr>activeSessions := activeSessions srv - 1, live := take i (live srv) @ drop (Suc i) (live srv)\<rparr>"

text \<open>
  \<open>stop\<close> raises the flag and posts the closing of the acceptor to its thread, where it runs as an
  event of its own; \<open>stop\<close> waits for it.
\<close>

definition srv_stop :: "Server \<Rightarrow> Server" where
  "srv_stop srv = (if stopped srv then srv else srv\<lparr>stopped := True\<rparr>)"

definition close_acceptor :: "Server \<Rightarrow> Server" where
  "close_acceptor srv = srv\<lparr>acceptor_open := False\<rparr>"

text \<open>The events. A closed acceptor accepts no connection; a timer that had expired is not cancelled.\<close>

inductive srv_step :: "Server \<Rightarrow> Server \<Rightarrow> bool" where
  accept: "accepting srv = Some w \<Longrightarrow> \<not> acceptor_open srv \<longrightarrow> ec \<noteq> Accepted \<Longrightarrow> srv_step srv (accept_done ec w srv)"
| retry: "retrying srv \<Longrightarrow> srv_step srv (retry_done cancelled srv)"
| closed: "stopped srv \<Longrightarrow> srv_step srv (close_acceptor srv)"
| ended: "i < length (live srv) \<Longrightarrow> srv_step srv (session_ended i srv)"
| stop: "srv_step srv (srv_stop srv)"

inductive_cases srv_stepE: "srv_step srv srv'"

inductive srv_reachable :: "Server \<Rightarrow> Server \<Rightarrow> bool" for start where
  init: "srv_reachable start start"
| step: "srv_reachable start srv \<Longrightarrow> srv_step srv srv' \<Longrightarrow> srv_reachable start srv'"

definition srv_inv :: "Server \<Rightarrow> bool" where
  "srv_inv srv \<longleftrightarrow> 0 < workers srv \<and> workers srv < 2 ^ 32
     \<and> unat (activeSessions srv) = length (live srv) \<and> length (live srv) \<le> unat (maxConnections srv)
     \<and> list_all (\<lambda>w. w < workers srv) (live srv) \<and> pred_option (\<lambda>w. w < workers srv) (accepting srv)
     \<and> \<not> (accepting srv \<noteq> None \<and> retrying srv)"

lemma makeWorkers_pos: "0 < makeWorkers h" "makeWorkers h < 2 ^ 32"
proof -
  have "0 < max 1 h" by (simp add: less_max_iff_disj)
  then show "0 < makeWorkers h" by (simp add: makeWorkers_def word_less_nat_alt)
  show "makeWorkers h < 2 ^ 32" using unat_u32_less by (simp add: makeWorkers_def)
qed

lemma worker_in_range:
  assumes "0 < n" and "n < 2 ^ 32"
  shows "unat (x mod of_nat n :: u64) < n"
proof -
  have "unat (of_nat n :: u64) = n" using assms(2) by (simp add: unat_of_nat_u64)
  with assms(1) show ?thesis by (simp add: unat_mod)
qed

lemma do_accept_inv: "srv_inv srv \<Longrightarrow> \<not> retrying srv \<Longrightarrow> srv_inv (do_accept srv)"
  using worker_in_range by (simp add: srv_inv_def do_accept_def)

lemma new_Server_inv: "srv_inv (new_Server h st)"
  unfolding new_Server_def by (rule do_accept_inv) (use makeWorkers_pos in \<open>simp_all add: srv_inv_def\<close>)

lemma unat_Suc_u64: "(x :: u64) < y \<Longrightarrow> unat (x + 1) = Suc (unat x) \<and> Suc (unat x) \<le> unat y"
proof -
  assume "x < y"
  then have l: "unat x < unat y" by (simp add: word_less_nat_alt)
  then have "unat x + 1 < 2 ^ 64" using unat_u64_less [of y] by simp
  then have "unat (x + 1) = unat x + 1" using unat_add_lem [of x 1] by simp
  with l show ?thesis by simp
qed

lemma srv_step_inv:
  assumes "srv_step srv srv'" and "srv_inv srv"
  shows "srv_inv srv'"
  using assms(1)
proof (cases rule: srv_step.cases)
  case (accept w ec)
  let ?s = "srv\<lparr>accepting := None\<rparr>"
  have i: "srv_inv ?s" "\<not> retrying ?s" using assms(2) accept by (auto simp: srv_inv_def)
  have "srv_inv (?s\<lparr>activeSessions := activeSessions srv + 1, live := live srv @ [w]\<rparr>)"
    if "activeSessions srv < maxConnections srv"
    using unat_Suc_u64 [OF that] assms(2) accept by (auto simp: srv_inv_def)
  with i accept show ?thesis
    by (cases ec) (auto simp: accept_done_def Let_def not_le srv_inv_def [of "srv\<lparr>accepting := None, retrying := True\<rparr>"]
      intro!: do_accept_inv, auto simp: srv_inv_def)
next
  case (retry cancelled)
  have "srv_inv (srv\<lparr>retrying := False\<rparr>)" using assms(2) by (simp add: srv_inv_def)
  with retry show ?thesis by (auto simp: retry_done_def Let_def intro: do_accept_inv)
next
  case (ended i)
  have "0 < unat (activeSessions srv)" using assms(2) ended(2) by (cases "live srv") (auto simp: srv_inv_def)
  then have "unat (activeSessions srv - 1) = unat (activeSessions srv) - 1"
    by (metis unat_minus_one unat_0 less_irrefl)
  with assms(2) ended show ?thesis
    by (auto simp: srv_inv_def session_ended_def list_all_iff dest: in_set_takeD in_set_dropD)
next
  case closed
  with assms(2) show ?thesis by (simp add: close_acceptor_def srv_inv_def)
next
  case stop
  with assms(2) show ?thesis by (simp add: srv_stop_def srv_inv_def)
qed

lemma srv_reachable_inv: "srv_reachable start srv \<Longrightarrow> srv_inv start \<Longrightarrow> srv_inv srv"
  by (induction rule: srv_reachable.induct) (auto intro: srv_step_inv)

text \<open>Once the acceptor is closed it stays closed and no further session is opened.\<close>

lemma srv_closed_step:
  "srv_step srv srv' \<Longrightarrow> \<not> acceptor_open srv \<Longrightarrow> \<not> acceptor_open srv' \<and> length (live srv') \<le> length (live srv)"
  by (erule srv_stepE)
    (auto simp: accept_done_def retry_done_def session_ended_def srv_stop_def close_acceptor_def do_accept_def Let_def
      split: accept_result.splits)

lemma srv_closed_reachable:
  "srv_reachable start srv \<Longrightarrow> \<not> acceptor_open start \<Longrightarrow> \<not> acceptor_open srv \<and> length (live srv) \<le> length (live start)"
  by (induction rule: srv_reachable.induct) (use srv_closed_step in fastforce)+

end
