(* ===== verification/Service.thy ===== *)
theory Service
  imports Server
begin

text \<open>
  The running database: what its constructor in \<open>ZestDB.cpp\<close> sets up around the shards. The flush
  thread and the save thread are given by one round of their loops; a round returns \<open>None\<close> when its loop
  ends. The handlers of the HTTP server follow. At the end, everything that can happen to the database
  while it runs is one step function, with commands, thread rounds and compaction in any order.
\<close>

section \<open>The threads\<close>

text \<open>\<open>stop_requested\<close> is the state of the stop token when the wait is over.\<close>

definition flush_round :: "bool \<Rightarrow> ZestDB \<Rightarrow> ZestDB option" where
  "flush_round stop_requested z =
     (if stop_requested \<or> \<not> running z then None else Some (z_flush z))"

text \<open>The save thread also returns the delay before its next round.\<close>

definition save_round :: "bool \<Rightarrow> ZestDB \<Rightarrow> (u32 \<times> ZestDB) option" where
  "save_round stop_requested z =
     (if stop_requested \<or> \<not> running z then None
      else Some (ArchiveCreationDelay (settings z),
                 if AutoArchiveSaving (settings z) then snd (createArchive z) else z))"

section \<open>The HTTP server\<close>

datatype handler_response = Unhandled | Handled nat

definition pre_routing :: "Lib \<Rightarrow> string \<Rightarrow> ZestDB \<Rightarrow> handler_response" where
  "pre_routing lib remote_addr z = (if isAddressAllowed lib remote_addr z then Unhandled else Handled 403)"

definition stats_json :: "ShardManager \<Rightarrow> json" where
  "stats_json mgr =
     JObj (if mgr_shards mgr = [] then []
           else [(''stats'', JObj (sort_key fst
                  (map (\<lambda>(i, sh). (''shard'' @ show_nat i, getPerformances (perfMonitor sh)))
                       (enumerate 0 (mgr_shards mgr)))))])"

text \<open>A request for \<open>/\<close>: its status and body.\<close>

definition http_get :: "Lib \<Rightarrow> string \<Rightarrow> ZestDB \<Rightarrow> nat \<times> string" where
  "http_get lib remote_addr z =
     (case pre_routing lib remote_addr z of
        Handled status \<Rightarrow> (status, [])
      | Unhandled \<Rightarrow> (200, dump lib (stats_json (shardManager z))))"

section \<open>Everything that happens\<close>

datatype db_event =
    Command string Role bool
  | Sync
  | FlushRound bool
  | SaveRound bool
  | Compact nat
  | AuthResult nat string bool

definition compact_shard :: "nat \<Rightarrow> ShardManager \<Rightarrow> ShardManager" where
  "compact_shard i mgr = mgr\<lparr>mgr_shards := (mgr_shards mgr)[i := compactor_round (mgr_shards mgr ! i)]\<rparr>"

fun db_step :: "Lib \<Rightarrow> db_event \<Rightarrow> ZestDB \<Rightarrow> ZestDB" where
  "db_step lib (Command line role sync) z = snd (execCmd lib line role sync z)"
| "db_step lib Sync z = snd (z_syncWAL z)"
| "db_step lib (FlushRound stop) z = (case flush_round stop z of None \<Rightarrow> z | Some z1 \<Rightarrow> z1)"
| "db_step lib (SaveRound stop) z = (case save_round stop z of None \<Rightarrow> z | Some (d, z1) \<Rightarrow> z1)"
| "db_step lib (Compact i) z =
     (if i < length (mgr_shards (shardManager z)) then z\<lparr>shardManager := compact_shard i (shardManager z)\<rparr> else z)"
| "db_step lib (AuthResult now name ok) z = z\<lparr>authFailures := recordAuthResult now name ok (authFailures z)\<rparr>"

text \<open>The events that may change the map: a writing command of a user that may write.\<close>

fun may_write :: "db_event \<Rightarrow> bool" where
  "may_write (Command line role sync) = (\<exists>cmd. command_word line = Some cmd \<and> isWrite cmd \<and> role \<noteq> Read)"
| "may_write _ = False"

text \<open>
  What a state must offer for the next event: room for new segments in every shard, indexes whose
  entries can be counted, and a segment size below the limit of the offsets.
\<close>

definition can_go_on :: "Lib \<Rightarrow> ZestDB \<Rightarrow> bool" where
  "can_go_on lib z \<longleftrightarrow> z_roomy lib z \<and> segsize_ok (settings z)
     \<and> list_all (\<lambda>sh. index_fits sh \<and> ids_for (length (memoryTree (indexManager sh))) (storageManager sh)) (mgr_shards (shardManager z))"

lemma compact_shard_spec:
  assumes "mgr_inv h mgr" and "i < length (mgr_shards mgr)"
    and "list_all (\<lambda>sh. index_fits sh \<and> ids_for (length (memoryTree (indexManager sh))) (storageManager sh)) (mgr_shards mgr)"
  shows "mgr_inv h (compact_shard i mgr)" and "db h (compact_shard i mgr) = db h mgr"
proof -
  let ?shs = "(mgr_shards mgr)[i := compactor_round (mgr_shards mgr ! i)]"
  have s: "shard_inv (?shs ! j)" "contents (?shs ! j) = contents (mgr_shards mgr ! j)" if "j < length (mgr_shards mgr)" for j
    using that assms compactor_round_spec [of "mgr_shards mgr ! i"] mgr_inv_shard [OF assms(1)]
    by (cases "j = i"; auto simp: list_all_length)+
  have c: "compact_shard i mgr = mgr\<lparr>mgr_shards := ?shs\<rparr>" by (simp add: compact_shard_def)
  note u = mgr_update_all [OF assms(1) _ s(1) _ c]
  show "mgr_inv h (compact_shard i mgr)" by (rule u(1)) (simp_all add: s(2))
  show "db h (compact_shard i mgr) = db h mgr"
  proof
    fix k
    have "db h (compact_shard i mgr) k = contents (?shs ! getShardId h mgr k) k" by (rule u(2)) (simp_all add: s(2))
    then show "db h (compact_shard i mgr) k = db h mgr k"
      using s(2) [OF getShardId_less [OF assms(1)]] by (simp add: db_def)
  qed
qed

lemma createArchive_effect:
  assumes "z_inv lib z"
  shows "admin_effect lib z (snd (createArchive z))" and "running (snd (createArchive z)) = running z"
proof -
  have "exec_save z = (fst (exec_save z), snd (createArchive z))" by (simp add: exec_save_def split: prod.splits)
  from exec_save_effect [OF assms this] show "admin_effect lib z (snd (createArchive z))" .
  show "running (snd (createArchive z)) = running z"
    by (auto simp: createArchive_def flushLocked_def Let_def split: prod.splits)
qed

text \<open>One event keeps the invariant, and keeps the map unless it may write.\<close>

lemma command_step_spec:
  assumes "z_inv lib z" and "z_roomy lib z" and "lib_ok lib" and "\<not> replaying z"
    and "execCmd lib line role sync z = (ro, z')"
  shows "may_write (Command line role sync) \<Longrightarrow> z_inv lib z' \<and> \<not> replaying z'"
    and "\<not> may_write (Command line role sync) \<Longrightarrow> admin_effect lib z z'"
proof -
  note e = execCmd_effect [OF assms]
  show "z_inv lib z' \<and> \<not> replaying z'" if w: "may_write (Command line role sync)"
  proof -
    from w obtain cmd where "command_word line = Some cmd" "isWrite cmd" by auto
    from e(2) [OF this] mgr_only_fields(4) [of z z'] assms(4) show ?thesis by simp
  qed
  show "admin_effect lib z z'" if "\<not> may_write (Command line role sync)" using that e(1) by auto
qed

lemma db_step_spec:
  assumes "z_inv lib z" and "lib_ok lib" and "\<not> replaying z" and "can_go_on lib z"
  shows "segsize_ok (settings (db_step lib ev z)) \<Longrightarrow> z_inv lib (db_step lib ev z)"
    and "\<not> replaying (db_step lib ev z)"
    and "\<not> may_write ev \<Longrightarrow> z_db lib (db_step lib ev z) = z_db lib z"
proof -
  have m: "mgr_inv (hash lib) (shardManager z)" using assms(1) by (simp add: z_inv_def)
  have a: "(segsize_ok (settings z') \<longrightarrow> z_inv lib z') \<and> \<not> replaying z' \<and> z_db lib z' = z_db lib z"
    if "admin_effect lib z z'" for z'
    using that assms(3) by (simp add: admin_effect_def)
  have "(segsize_ok (settings (db_step lib ev z)) \<longrightarrow> z_inv lib (db_step lib ev z))
      \<and> \<not> replaying (db_step lib ev z) \<and> (\<not> may_write ev \<longrightarrow> z_db lib (db_step lib ev z) = z_db lib z)"
  proof (cases ev)
    case (Command line role sync)
    obtain ro z' where x: "execCmd lib line role sync z = (ro, z')" by (cases "execCmd lib line role sync z")
    have "z_roomy lib z" using assms(4) by (simp add: can_go_on_def)
    note e = command_step_spec [OF assms(1) this assms(2,3) x]
    show ?thesis
      by (cases "may_write ev") (use e a [of z'] x in \<open>simp_all add: Command del: may_write.simps\<close>)
  next
    case Sync
    obtain ok z' where s: "z_syncWAL z = (ok, z')" by (cases "z_syncWAL z")
    from a [OF read_admin_effect [OF z_syncWAL_effect [OF assms(1) s]]] s show ?thesis by (simp add: Sync)
  next
    case (FlushRound stop)
    from a [OF read_admin_effect [OF z_flush_effect [OF assms(1)]]] a [OF admin_effect_same [OF assms(1)]]
    show ?thesis by (simp add: FlushRound flush_round_def)
  next
    case (SaveRound stop)
    from a [OF createArchive_effect(1) [OF assms(1)]] a [OF admin_effect_same [OF assms(1)]]
    show ?thesis by (simp add: SaveRound save_round_def)
  next
    case (Compact i)
    have "z_inv lib (db_step lib ev z) \<and> z_db lib (db_step lib ev z) = z_db lib z"
      if "i < length (mgr_shards (shardManager z))"
      using compact_shard_spec [OF m that] assms(1,4) that by (simp add: Compact can_go_on_def z_inv_def z_db_def)
    with assms(1,3) show ?thesis by (cases "i < length (mgr_shards (shardManager z))") (simp_all add: Compact)
  next
    case (AuthResult now name ok)
    with assms(1,3) show ?thesis by (simp add: z_inv_def z_db_def)
  qed
  then show "segsize_ok (settings (db_step lib ev z)) \<Longrightarrow> z_inv lib (db_step lib ev z)"
    "\<not> replaying (db_step lib ev z)" "\<not> may_write ev \<Longrightarrow> z_db lib (db_step lib ev z) = z_db lib z" by auto
qed

text \<open>The states of the running database.\<close>

inductive db_reachable :: "Lib \<Rightarrow> ZestDB \<Rightarrow> ZestDB \<Rightarrow> bool" for lib start where
  init: "db_reachable lib start start"
| step: "db_reachable lib start z \<Longrightarrow> can_go_on lib z \<Longrightarrow> segsize_ok (settings (db_step lib ev z)) \<Longrightarrow>
     db_reachable lib start (db_step lib ev z)"

lemma db_reachable_inv:
  "db_reachable lib start z \<Longrightarrow> z_inv lib start \<Longrightarrow> lib_ok lib \<Longrightarrow> \<not> replaying start \<Longrightarrow> z_inv lib z \<and> \<not> replaying z"
proof (induction rule: db_reachable.induct)
  case (step z ev)
  then have i: "z_inv lib z" "\<not> replaying z" by auto
  from db_step_spec(1,2) [OF i(1) step(6) i(2) step(2), of ev] step(3) show ?case by simp
qed simp

text \<open>A run in which nobody may write.\<close>

inductive quiet_run :: "Lib \<Rightarrow> ZestDB \<Rightarrow> ZestDB \<Rightarrow> bool" for lib where
  quiet_init: "quiet_run lib z z"
| quiet_step: "quiet_run lib start z \<Longrightarrow> can_go_on lib z \<Longrightarrow> segsize_ok (settings (db_step lib ev z)) \<Longrightarrow> \<not> may_write ev \<Longrightarrow>
     quiet_run lib start (db_step lib ev z)"

lemma quiet_run_reachable: "quiet_run lib start z \<Longrightarrow> db_reachable lib start z"
  by (induction rule: quiet_run.induct) (auto intro: db_reachable.intros)

lemma quiet_run_db:
  "quiet_run lib start z \<Longrightarrow> z_inv lib start \<Longrightarrow> lib_ok lib \<Longrightarrow> \<not> replaying start \<Longrightarrow> z_db lib z = z_db lib start"
proof (induction rule: quiet_run.induct)
  case (quiet_step start z ev)
  from db_reachable_inv [OF quiet_run_reachable [OF quiet_step(1)] quiet_step(6-8)] have "z_inv lib z" "\<not> replaying z" by auto
  from db_step_spec(3) [OF this(1) quiet_step(7) this(2) quiet_step(2,4)] quiet_step show ?case by simp
qed simp

end
