(* ===== verification/Command_Properties.thy ===== *)
theory Command_Properties
  imports Examples Durability Service
begin

text \<open>
  What the database as a whole guarantees to its users: acknowledged writes survive a crash, the logs
  are replayed, commands act on one map, refused commands change nothing, roles and the read-only mode
  are respected, and the configuration stays acceptable. Each theorem is followed by an application to
  the small database of \<open>Examples\<close>.
\<close>

section \<open>Crash safety\<close>

lemma mgr0_log_state: "log_state mgr0 []"
  unfolding log_state_def using mgr0_logs by (auto intro!: exI [of _ "[[], []]"])

lemma mgr0_logs_sound: "logs_sound mgr0" "logs_on_disk mgr0"
  by (simp_all add: logs_sound_def logs_on_disk_def mgr0_def blank_wal_def fs_fresh_def on_disk_def)

lemma z0_live: "2 * n + 2 < 2 ^ 32 \<Longrightarrow> live_state lib0 n 64 [] z0"
  using mgr0_ready [of n] by (simp add: live_state_def mgr0_log_state mgr0_logs_sound) (simp add: mgr0_def)

lemma z0_live_Suc: "live_state lib0 (Suc (Suc 0)) 64 [] z0"
  by (rule z0_live) simp

definition writes0 :: "kv_write list" where
  "writes0 = [WSet ''a'' ''xyz'', WDel ''b'']"

lemma writes0_good: "good_writes lib0 z0 64 writes0" "length writes0 = 2"
  by (simp_all add: good_writes_def writes0_def key_accepted_def value_accepted_def validateKey_def validateValue_def
      plain_word_def plain_value_def is_ws_def is_eol_def MAX_KEY_SIZE_def set_line_def del_line_def)

text \<open>C1: Acknowledged writes survive a crash. A client issues \<open>set\<close> and \<open>del\<close> commands through
  \<open>execCmd\<close> with syncing on, no file call fails, and the process dies. Whatever a new process finds for
  the keys those commands touched - nothing, old values or new ones - if its logs are what was on disk
  and the other keys are as before, replaying the logs gives exactly the map of the moment of the crash.\<close>

theorem acknowledged_writes_survive:
  assumes "live_state lib (length ws) mx [] z" and "good_writes lib z mx ws" and "role \<noteq> Read"
    and "run_writes lib role ws z = (acked, z')"
    and "z_inv lib z1" and "mgr_ready (length ws) mx (shardManager z1)" and "logs_found (shardManager z') (shardManager z1)"
    and "\<forall>k. k \<notin> write_key ` set acked \<longrightarrow> z_db lib z1 k = z_db lib z k"
  shows "\<exists>z2. replayWAL lib z1 = Some z2 \<and> z_inv lib z2 \<and> z_db lib z2 = z_db lib z'"
  using survives_crash [OF assms(1-7)] assms(8) by blast

theorem acknowledged_writes_survive_witness:
  "\<exists>z2. replayWAL lib0 (lose_all_but_logs z0 (snd (run_writes lib0 Write writes0 z0))) = Some z2 \<and> z_db lib0 z2 ''a'' = Some ''xyz''"
proof -
  obtain acked z' where r: "run_writes lib0 Write writes0 z0 = (acked, z')" by (cases "run_writes lib0 Write writes0 z0")
  have l: "live_state lib0 (length writes0) 64 [] z0" using z0_live by (simp add: writes0_good)
  note run = run_writes_live [of lib0 writes0 0 64 "[]" z0 Write acked z', simplified, OF l writes0_good(1) r]
  have c: "shard_count z' = shard_count z0" and d: "z_db lib0 z' = fold apply_write writes0 (z_db lib0 z0)" using run by auto
  have m: "mgr_ready (length writes0) 64 (shardManager z0)" using l by (simp add: live_state_def)
  note s = lose_all_but_logs_state [OF z0_inv m c]
  from acknowledged_writes_survive [OF l writes0_good(1) _ r s(1-3)] s(4)
  obtain z2 where "replayWAL lib0 (lose_all_but_logs z0 z') = Some z2" "z_db lib0 z2 = z_db lib0 z'" by auto
  with d r show ?thesis by (simp add: writes0_def)
qed

text \<open>C11: Replaying the logs (\<open>replayAllWAL\<close>, \<open>replayWAL\<close>) succeeds and applies the logged single-key
  writes in the order of their sequence numbers, across the logs of all shards, to the map that was
  there.\<close>

theorem replay_applies_logs:
  assumes "z_inv lib z" and "mgr_ready (length ws) mx (shardManager z)" and "mx < 2 ^ 64"
    and "list_all write_ok ws" and "list_all (\<lambda>w. write_size w \<le> mx) ws"
    and "logs_hold (shardManager z) logs" and "map we_cmd (sort_key we_seq (concat logs)) = map line_of ws"
  shows "\<exists>z'. replayWAL lib z = Some z' \<and> z_inv lib z' \<and> \<not> replaying z' \<and> z_db lib z' = fold apply_write ws (z_db lib z)"
  by (rule replayWAL_lines [OF assms])

text \<open>A database whose second shard has the later of two logged writes to one key.\<close>

definition entry0 :: "nat \<Rightarrow> string \<Rightarrow> WalEntry" where
  "entry0 q v = \<lparr>we_cmd = set_line ''a'' v, we_seq = of_nat q\<rparr>"

definition log_of :: "WalEntry list \<Rightarrow> WAL" where
  "log_of es = \<lparr>wal = fs_fresh True (wal_bytes es) (wal_bytes es), canClear = True, dirty = False\<rparr>"

definition zlog :: ZestDB where
  "zlog = lose_all_but_logs z0 (z0\<lparr>shardManager := mgr0\<lparr>mgr_shards :=
     [(blank_shard 0)\<lparr>sh_wal := log_of [entry0 2 ''new'']\<rparr>, (blank_shard 1)\<lparr>sh_wal := log_of [entry0 1 ''old'']\<rparr>]\<rparr>\<rparr>)"

theorem replay_applies_logs_witness:
  "\<exists>z'. replayWAL lib0 zlog = Some z' \<and> z_db lib0 z' = [''a'' \<mapsto> ''new'']"
proof -
  let ?ws = "[WSet ''a'' ''old'', WSet ''a'' ''new'']" and ?logs = "[[entry0 2 ''new''], [entry0 1 ''old'']]"
  let ?z = "z0\<lparr>shardManager := mgr0\<lparr>mgr_shards :=
     [(blank_shard 0)\<lparr>sh_wal := log_of [entry0 2 ''new'']\<rparr>, (blank_shard 1)\<lparr>sh_wal := log_of [entry0 1 ''old'']\<rparr>]\<rparr>\<rparr>"
  have r: "mgr_ready 2 64 (shardManager z0)" using mgr0_ready [of 2] by simp
  have c: "shard_count ?z = shard_count z0" by (simp add: mgr0_def)
  note s = lose_all_but_logs_state [OF z0_inv r c, folded zlog_def]
  have ok: "cmd_ok (entry0 q v)" if "v = ''new'' \<or> v = ''old''" for q v
    using that by (auto simp: cmd_ok_def entry0_def set_line_def)
  have h: "logs_hold (shardManager zlog) ?logs"
    using ok by (simp add: logs_hold_def zlog_def lose_all_but_logs_def mgr0_def log_of_def wal_logged_def fs_fresh_def)
  have o: "map we_cmd (sort_key we_seq (concat ?logs)) = map line_of ?ws"
    by (simp add: entry0_def set_line_def word_le_nat_alt)
  have "length ?ws = 2" by simp
  then have r2: "mgr_ready (length ?ws) 64 (shardManager zlog)" using s(2) by (simp only:)
  from replay_applies_logs [of lib0 zlog ?ws 64 ?logs, OF s(1) r2 _ _ _ h o] s(4)
  show ?thesis by (auto simp: plain_word_def plain_value_def is_ws_def is_eol_def MAX_KEY_SIZE_def)
qed

section \<open>Commands and the map\<close>

text \<open>C4: A value written with the text command \<open>set <key> <value>\<close> is what the text command
  \<open>get <key>\<close> answers afterwards, spaces inside the value included: parsing, the checks, the choice of
  the shard, the segment, the index, the cache and the log in between.\<close>

theorem set_then_get:
  assumes "live_state lib (Suc n) mx es z" and "key_accepted z k" and "value_accepted lib z v" and "write_ok (WSet k v)"
    and "length v \<le> mx" and "length (set_line k v) < 2 ^ 32" and "role \<noteq> Read"
    and "execCmd lib (set_line k v) role True z = (ro, z1)" and "execCmd lib (get_line k) role' sync z1 = (ro', z2)"
  shows "succeeded ro' \<and> ro' = Some (res Success v 1) \<and> z_db lib z2 = (z_db lib z)(k \<mapsto> v)"
proof -
  note o = live_set [OF assms(1-8), unfolded write_outcome_def]
  then have l: "z_inv lib z1" "mgr_ready n mx (shardManager z1)" "mgr_only z z1" "z_db lib z1 = (z_db lib z)(k \<mapsto> v)"
    by (auto simp: live_state_def split: if_splits)
  have "\<not> replaying z" using assms(1) by (simp add: live_state_def)
  then have vk: "validateKey z1 k"
    using assms(2) mgr_only_fields(1) [OF l(3)] by (simp add: key_accepted_def validateKey_def)
  obtain r z2' where g: "z_get lib k z1 = (r, z2')" by (cases "z_get lib k z1")
  have x: "ro' = Some r" "z2 = z2'"
    using execCmd_get_line [of k lib role' sync z1] assms(4,9) g by simp_all
  have m: "mgr_inv (hash lib) (shardManager z1)" using l(1) by (simp add: z_inv_def)
  have i: "getShardId (hash lib) (shardManager z1) k < length (mgr_shards (shardManager z1))" by (rule getShardId_less [OF m])
  let ?sh = "mgr_shards (shardManager z1) ! getShardId (hash lib) (shardManager z1) k"
  have "all_ok (sh_ios ?sh)" using mgr_ready_ios [OF l(2)] i by (simp add: list_all_length)
  moreover have "contents ?sh k = Some v" using l(4) by (simp add: z_db_def db_def fun_eq_iff split: if_splits)
  moreover obtain sh' where "sh_get k ?sh = (r, sh')"
    using g vk by (auto simp: z_get_def on_mgr_def mgr_get_def on_shard_def split: prod.splits)
  ultimately have "r = res Success v 1" using sh_get_spec(4) mgr_inv_shard [OF m i] by blast
  with x z_get_spec(3) [OF l(1) g] l(4) show ?thesis by (simp add: succeeded_def)
qed

theorem set_then_get_witness:
  "fst (execCmd lib0 (get_line ''a'') Read False (snd (execCmd lib0 (set_line ''a'' ''x y'') Write True z0))) = Some (res Success ''x y'' 1)"
  using set_then_get [of lib0 1 64 "[]" z0 "''a''" "''x y''" Write "fst (execCmd lib0 (set_line ''a'' ''x y'') Write True z0)"
      "snd (execCmd lib0 (set_line ''a'' ''x y'') Write True z0)" Read False
      "fst (execCmd lib0 (get_line ''a'') Read False (snd (execCmd lib0 (set_line ''a'' ''x y'') Write True z0)))"
      "snd (execCmd lib0 (get_line ''a'') Read False (snd (execCmd lib0 (set_line ''a'' ''x y'') Write True z0)))"] z0_live_Suc
  by (simp add: key_accepted_def value_accepted_def validateKey_def validateValue_def
      plain_word_def plain_value_def is_ws_def is_eol_def MAX_KEY_SIZE_def set_line_def)




text \<open>C9: An answer with an error code means that the map is unchanged, for every command line, every
  role and every outcome of the file calls, with one exception: the write was applied and only its
  logging failed, which the answer says.\<close>

theorem error_changes_nothing:
  assumes "z_inv lib z" and "z_roomy lib z" and "lib_ok lib" and "\<not> replaying z"
    and "execCmd lib line role sync z = (Some r, z')" and "code r = Error" and "response r \<noteq> WAL_WRITE_FAILED"
  shows "z_db lib z' = z_db lib z"
  by (rule execCmd_effect(3) [OF assms(1-5) refl assms(6,7)])

lemma set_no_value: "execCmd lib ''set'' Write True z = (Some (fail MISSING_KEY), z)"
proof -
  have t: "trim_command ''set'' = Some ''set''" "words_of ''set'' = [(0, ''set'')]"
    by (simp_all add: trim_command_def is_ws_def is_eol_def words_of_def split_words_end plain_word_def)
  show ?thesis unfolding execCmd_def t option.case Let_def
    using command_names(5) by (simp add: permitted_def isWrite_def isAdmin_def run_cmd_def exec_set_def log_write_def)
qed

theorem error_changes_nothing_witness: "z_db lib0 (snd (execCmd lib0 ''set'' Write True z0)) = Map.empty"
  using error_changes_nothing [of lib0 z0 "''set''" Write True "fail MISSING_KEY" "snd (execCmd lib0 ''set'' Write True z0)"]
  by (simp add: set_no_value MISSING_KEY_def WAL_WRITE_FAILED_def)

section \<open>Roles\<close>

text \<open>Only an administrator changes anything outside the shards.\<close>

lemma execCmd_mgr_only:
  assumes "z_inv lib z" and "z_roomy lib z" and "lib_ok lib" and "\<not> replaying z"
    and "execCmd lib line role sync z = (ro, z')" and "role \<noteq> Admin"
  shows "mgr_only z z' \<and> z_inv lib z'"
  using assms(5)
proof (cases rule: execCmd_cases)
  case (threw cmd sv)
  have w: "\<not> isWrite cmd" using run_cmd_write [OF assms(1-4) _ threw(4)] by auto
  have "\<not> isAdmin cmd" using threw(3) assms(6) by (simp add: permitted_def)
  from run_cmd_other(2) [OF assms(1,3) w threw(4) third_word [OF threw(2)] this] show ?thesis by (simp add: read_effect_def)
next
  case (ran cmd sv r z1 r')
  have a: "\<not> isAdmin cmd" using ran(3) assms(6) by (simp add: permitted_def)
  have 1: "mgr_only z z1 \<and> z_inv lib z1"
    using run_cmd_write [OF assms(1-4) _ ran(4)] run_cmd_other(2) [OF assms(1,3) _ ran(4) third_word [OF ran(2)] a]
    by (cases "isWrite cmd") (auto simp: write_effect_def read_effect_def)
  from log_write_effect(1) [OF conjunct2 [OF 1] ran(5)] 1 mgr_only_trans [of z z1 z'] show ?thesis
    by (simp add: read_effect_def)
qed (use assms(1) in simp_all)

text \<open>C17: A user with the role \<open>Read\<close> can send any line whatever without changing the map, the settings,
  the users or the failure counters; a user with the role \<open>Write\<close> can change the map and nothing else; in
  read-only mode no command of any role changes the map.\<close>

theorem roles_are_respected:
  assumes "z_inv lib z" and "z_roomy lib z" and "lib_ok lib" and "\<not> replaying z"
    and "execCmd lib line role sync z = (ro, z')"
  shows "(role \<noteq> Admin \<longrightarrow> z_inv lib z' \<and> settings z' = settings z \<and> users z' = users z \<and> authFailures z' = authFailures z
            \<and> config z' = config z)
     \<and> (role = Read \<or> readOnly (settings z) \<longrightarrow> z_db lib z' = z_db lib z)"
proof (intro conjI impI)
  assume a: "role \<noteq> Admin"
  note m = execCmd_mgr_only [OF assms a]
  then show "z_inv lib z'" by simp
  show "settings z' = settings z" "users z' = users z" "authFailures z' = authFailures z" "config z' = config z"
    using m mgr_only_fields [of z z'] by simp_all
next
  assume "role = Read \<or> readOnly (settings z)"
  with execCmd_effect(1) [OF assms] execCmd_effect(4) [OF assms] show "z_db lib z' = z_db lib z"
    by (auto simp: admin_effect_def)
qed

definition zro :: ZestDB where
  "zro = z0\<lparr>settings := st0\<lparr>readOnly := True\<rparr>\<rparr>"

lemma zro_inv: "z_inv lib0 zro" "z_db lib0 zro = Map.empty" "\<not> replaying zro" "z_roomy lib0 zro" "readOnly (settings zro)"
  using st0_ok by (simp_all add: zro_def z_inv_def z_db_def settings_ok_def has_zero_def)

theorem roles_are_respected_witness:
  "settings (snd (execCmd lib0 ''scfg readonly true'' Write True z0)) = st0
   \<and> z_db lib0 (snd (execCmd lib0 ''set a b'' Admin True zro)) = Map.empty"
  using roles_are_respected [of lib0 z0 "''scfg readonly true''" Write True "fst (execCmd lib0 ''scfg readonly true'' Write True z0)"
      "snd (execCmd lib0 ''scfg readonly true'' Write True z0)"]
    roles_are_respected [of lib0 zro "''set a b''" Admin True "fst (execCmd lib0 ''set a b'' Admin True zro)"
      "snd (execCmd lib0 ''set a b'' Admin True zro)"] zro_inv by simp

section \<open>Bulk commands\<close>

text \<open>C31: \<open>getby\<close> leaves the map alone and answers a JSON array of key-value pairs of matching keys, without
  duplicates and never more than the limit; when no read fails it has all matching keys, or exactly the
  limit if there are more.\<close>

theorem getby_answers_matching:
  assumes "z_inv lib z" and "lib_ok lib" and "z_getBy lib valid z = (r, z')"
  shows "z_db lib z' = z_db lib z \<and> (\<exists>ks. distinct ks \<and> set ks \<subseteq> matching lib z valid
     \<and> r = res Success (dump lib (JArr (map (pair_json (z_db lib z)) ks))) (int (length ks))
     \<and> (limit valid \<noteq> UINT_MAX \<longrightarrow> length ks \<le> unat (limit valid))
     \<and> (list_all (\<lambda>sh. all_ok (sh_ios sh)) (mgr_shards (shardManager z)) \<longrightarrow>
          length ks = (if limit valid = UINT_MAX then card (matching lib z valid)
                       else min (card (matching lib z valid)) (unat (limit valid)))))"
proof -
  have m: "mgr_inv (hash lib) (shardManager z)" and d: "dumps_arrays (dump lib)"
    using assms by (simp_all add: z_inv_def lib_ok_def)
  have "on_mgr (mgr_getBy (dump lib) valid) z = (r, z')" using assms(3) by (simp add: z_getBy_def)
  from mgr_getBy_spec [OF m d conjunct2 [OF on_mgr_only [OF this]]] show ?thesis
    unfolding matching_def z_db_def by blast
qed

theorem getby_answers_matching_witness:
  "fst (z_getBy lib0 \<lparr>func = (\<lambda>k. True), limit = 3\<rparr> z0) = res Success ''[]'' 0"
proof -
  let ?v = "\<lparr>func = (\<lambda>k :: string. True), limit = 3 :: u32\<rparr>"
  have m: "matching lib0 z0 ?v = {}" by (simp add: matching_def)
  from getby_answers_matching [of lib0 z0 ?v "fst (z_getBy lib0 ?v z0)" "snd (z_getBy lib0 ?v z0)"] m
  show ?thesis by auto
qed

text \<open>C29: \<open>delby\<close> removes exactly the matching keys - with a limit, the smallest ones in the order of the
  keys, as many as the limit allows - and answers how many there were.\<close>

theorem delby_removes_first_matching:
  assumes "z_inv lib z" and "lib_ok lib" and "\<not> replaying z" and "\<not> readOnly (settings z)" and "z_delBy lib valid z = (r, z')"
  shows "r = res Success (delBy_message (int (card (first_matching lib z valid)))) (int (card (first_matching lib z valid)))
     \<and> z_db lib z' = z_db lib z |` (- first_matching lib z valid)"
proof -
  note s = z_delBy_spec [OF assms(1,2,5)]
  have "code r = Success"
    using assms(3-5) by (auto simp: z_delBy_def on_mgr_def mgr_delBy_def Let_def split: prod.splits if_splits)
  with s show ?thesis by auto
qed

theorem delby_removes_first_matching_witness:
  "z_db lib0 (snd (z_delBy lib0 \<lparr>func = (\<lambda>k. k = ''a''), limit = 1\<rparr> z0)) = Map.empty"
  using delby_removes_first_matching [of lib0 z0 "\<lparr>func = (\<lambda>k. k = ''a''), limit = 1\<rparr>"
      "fst (z_delBy lib0 \<lparr>func = (\<lambda>k. k = ''a''), limit = 1\<rparr> z0)" "snd (z_delBy lib0 \<lparr>func = (\<lambda>k. k = ''a''), limit = 1\<rparr> z0)"]
  by simp



text \<open>The limit of a \<open>getby\<close> holds however the threads of the shards interleave: from the shared
  counter at zero, every state that any number of \<open>fetch_add\<close> and \<open>fetch_sub\<close> steps of the workers lead
  to has handed out at most as many matches as the limit allows, and an increment that is still to be
  undone means that the limit is exhausted.\<close>

theorem getby_limit_concurrent:
  assumes "(counter_step lmt)\<^sup>*\<^sup>* (0, replicate n (Scanning 0)) (c, ws)" and "unat lmt + n + 1 < 2 ^ 32"
  shows "length ws = n \<and> unat c = total_taken ws + total_pending ws \<and> total_taken ws \<le> unat lmt
     \<and> (total_pending ws > 0 \<longrightarrow> total_taken ws = unat lmt)"
proof -
  have "counter_inv lmt n (0, replicate n (Scanning 0))"
    by (simp add: counter_inv_def total_taken_def total_pending_def sum_list_replicate)
  from counter_reachable [OF assms(1) this assms(2)] show ?thesis by (simp add: counter_inv_def)
qed

theorem getby_limit_concurrent_witness:
  "\<exists>c ws. (counter_step 1)\<^sup>*\<^sup>* (0, replicate 2 (Scanning 0)) (c, ws) \<and> ws = [Scanning 1, Undoing 0] \<and> total_taken ws = 1"
proof -
  have a: "counter_step 1 (0, [Scanning 0, Scanning 0]) (1, [Scanning 1, Scanning 0])"
    using counter_step.take_match [of 0 "[Scanning 0, Scanning 0]" 0 0 1] by simp
  have b: "counter_step 1 (1, [Scanning 1, Scanning 0]) (2, [Scanning 1, Undoing 0])"
    using counter_step.over_limit [of 1 "[Scanning 1, Scanning 0]" 0 1 1] by simp
  have "replicate 2 (Scanning 0) = [Scanning 0, Scanning 0]" by (simp add: numeral_2_eq_2)
  with a b have r: "(counter_step 1)\<^sup>*\<^sup>* (0, replicate 2 (Scanning 0)) (2, [Scanning 1, Undoing 0])" by simp
  from getby_limit_concurrent [OF r] have "total_taken [Scanning 1, Undoing 0] = 1"
    by (simp add: total_pending_def)
  with r show ?thesis by blast
qed

section \<open>Patterns\<close>

text \<open>C40: What the modes of the bulk commands mean: \<open>sw\<close> selects the keys that start with the pattern,
  \<open>ct\<close> those that contain it, \<open>ew\<close> those that end with it, and \<open>re\<close> those the regular expression
  matches, provided it compiles, has no back reference and passes the complexity guard; nothing else is a
  mode. The guard on 64-bit counters decides what the same estimate decides over the natural numbers: no
  pattern makes a sum or a product wrap and slip through.\<close>

theorem pattern_modes:
  "createValidationRule cmp mat mode p =
     (if mode = ''sw'' then Some (\<lambda>k. prefix p k)
      else if mode = ''ct'' then Some (\<lambda>k. sublist p k)
      else if mode = ''ew'' then Some (\<lambda>k. suffix p k)
      else if mode = ''re'' \<and> \<not> exactly_too_complex p \<and> \<not> has_backref p \<and> cmp p then Some (mat p)
      else None)"
  unfolding createValidationRule_def take_is_prefix_iff contains_sub_iff drop_is_suffix_iff isRegexTooComplex_exact
  by simp

section \<open>Configuration and users\<close>







text \<open>C32: A user is locked out exactly when its last attempts were five or more failures in a row, none of
  them followed by a pause of a whole lockout. The counters of the code, their expiry and their clean-up
  decide the same as a look through the whole history of attempts.\<close>

theorem lockout_is_failure_streak:
  assumes "timely now h" and "length h < 2 ^ 32"
  shows "authAllowed now u (recorded h) \<longleftrightarrow> streak u now h < 5"
  by (rule authAllowed_streak [OF assms])

theorem lockout_is_failure_streak_witness:
  "\<not> authAllowed 4 ''eve'' (recorded (map (\<lambda>t. (t, ''eve'', False)) [4, 3, 2, 1, 0]))
   \<and> authAllowed 4 ''bob'' (recorded (map (\<lambda>t. (t, ''eve'', False)) [4, 3, 2, 1, 0]))"
  using lockout_is_failure_streak [of 4 "map (\<lambda>t. (t, ''eve'', False)) [4, 3, 2, 1, 0]" "''eve''"]
    lockout_is_failure_streak [of 4 "map (\<lambda>t. (t, ''eve'', False)) [4, 3, 2, 1, 0]" "''bob''"]
  by (simp add: AUTH_LOCKOUT_def)

section \<open>The running database\<close>

text \<open>C8: The invariant of the whole database holds in every state it can reach, with commands of all
  roles, syncs, rounds of the flush thread and the save thread, compaction of any shard and recorded
  logins in any order, and with any outcome of the file calls.\<close>

theorem database_invariant:
  assumes "db_reachable lib start z" and "z_inv lib start" and "lib_ok lib" and "\<not> replaying start"
  shows "z_inv lib z \<and> \<not> replaying z"
  by (rule db_reachable_inv [OF assms])

lemma z0_can_go_on: "can_go_on lib0 z0"
proof -
  have "list_all (\<lambda>sh. index_fits sh \<and> ids_for (length (memoryTree (indexManager sh))) (storageManager sh)) (mgr_shards mgr0)"
    by (simp add: mgr0_def index_fits_def)
  then show ?thesis by (simp add: can_go_on_def segsize_ok_def)
qed

theorem database_invariant_witness: "z_inv lib0 (db_step lib0 Sync z0)"
proof -
  have "settings (db_step lib0 Sync z0) = st0" by (simp add: z_syncWAL_def on_mgr_def split: prod.splits)
  then have "db_reachable lib0 z0 (db_step lib0 Sync z0)"
    using db_reachable.step [OF db_reachable.init z0_can_go_on, of Sync] by (simp add: segsize_ok_def)
  from database_invariant [OF this] show ?thesis by simp
qed

text \<open>Nothing but a writing command of a user that may write ever changes the map: any run of other
  commands, syncs, flushes, archives, compactions and logins ends with the map it started with.\<close>

theorem quiet_runs_keep_the_map:
  assumes "quiet_run lib start z" and "z_inv lib start" and "lib_ok lib" and "\<not> replaying start"
  shows "z_db lib z = z_db lib start"
  by (rule quiet_run_db [OF assms])

theorem quiet_runs_keep_the_map_witness: "z_db lib0 (db_step lib0 (Compact 1) z0) = Map.empty"
proof -
  have "settings (db_step lib0 (Compact 1) z0) = st0" by simp
  then have "quiet_run lib0 z0 (db_step lib0 (Compact 1) z0)"
    using quiet_step [OF quiet_init z0_can_go_on, of "Compact 1"] by (simp add: segsize_ok_def)
  from quiet_runs_keep_the_map [OF this] show ?thesis by simp
qed

end
