(* ===== verification/ThreadPool.thy ===== *)
theory ThreadPool
  imports Zest_Prelude
begin

text \<open>
  \<open>ThreadPool.hpp\<close> and \<open>ThreadPool.cpp\<close>: the threads, their queue and the two condition variables. A
  step is what one thread does while it holds \<open>queueMutex\<close>, or a notification, which is sent after the
  mutex was released. A thread that waits on a condition is asleep until it is notified; it may also wake
  up by itself. \<open>submitted\<close> and \<open>finished\<close> record the tasks that were enqueued and that have returned (or
  thrown, which is caught).
\<close>

datatype 'a thread = Awake | Sleeping | Running 'a | Exited

record 'a ThreadPool =
  threads :: "'a thread list"
  tasks :: "'a list"
  stopFlag :: bool
  activeTasks :: nat
  notifyOne :: nat
  notifyAll :: bool
  allWaiter :: bool
  submitted :: "'a list"
  finished :: "'a list"

definition new_ThreadPool :: "nat \<Rightarrow> 'a ThreadPool" where
  "new_ThreadPool numThreads =
     \<lparr>threads = replicate numThreads Awake, tasks = [], stopFlag = False, activeTasks = 0, notifyOne = 0, notifyAll = False,
      allWaiter = False, submitted = [], finished = []\<rparr>"

abbreviation set_thread :: "nat \<Rightarrow> 'a thread \<Rightarrow> 'a ThreadPool \<Rightarrow> 'a ThreadPool" where
  "set_thread i t p \<equiv> p\<lparr>threads := (threads p)[i := t]\<rparr>"

text \<open>
  What a thread does next, with \<open>queueMutex\<close> held. Before its wait it checks the predicate and goes on,
  goes to sleep or returns; after a task it lowers the counter, and notifies \<open>completionCondition\<close> when
  nothing is left.
\<close>

definition thread_turn :: "nat \<Rightarrow> 'a ThreadPool \<Rightarrow> 'a ThreadPool" where
  "thread_turn i p =
     (case threads p ! i of
        Awake \<Rightarrow>
          (if \<not> (stopFlag p \<or> tasks p \<noteq> []) then set_thread i Sleeping p
           else case tasks p of
                  [] \<Rightarrow> set_thread i Exited p
                | t # ts \<Rightarrow> (set_thread i (Running t) p)\<lparr>tasks := ts, activeTasks := activeTasks p + 1\<rparr>)
      | Running t \<Rightarrow>
          (let p1 = (set_thread i Awake p)\<lparr>activeTasks := activeTasks p - 1, finished := finished p @ [t]\<rparr> in
           if activeTasks p1 = 0 \<and> tasks p1 = [] then p1\<lparr>allWaiter := False\<rparr> else p1)
      | _ \<Rightarrow> p)"

definition enqueue :: "'a \<Rightarrow> 'a ThreadPool \<Rightarrow> 'a ThreadPool" where
  "enqueue t p = p\<lparr>tasks := tasks p @ [t], notifyOne := notifyOne p + 1, submitted := submitted p @ [t]\<rparr>"

text \<open>\<open>notify_one\<close> wakes thread \<open>i\<close>, if any is asleep.\<close>

definition notify_one :: "nat option \<Rightarrow> 'a ThreadPool \<Rightarrow> 'a ThreadPool" where
  "notify_one j p = (case j of None \<Rightarrow> p | Some i \<Rightarrow> set_thread i Awake p)\<lparr>notifyOne := notifyOne p - 1\<rparr>"

definition wake :: "'a thread \<Rightarrow> 'a thread" where
  "wake t = (case t of Sleeping \<Rightarrow> Awake | _ \<Rightarrow> t)"

text \<open>The destructor: the flag, then \<open>notify_all\<close>; it then joins the threads.\<close>

definition stop_pool :: "'a ThreadPool \<Rightarrow> 'a ThreadPool" where
  "stop_pool p = p\<lparr>stopFlag := True, notifyAll := True\<rparr>"

definition notify_all :: "'a ThreadPool \<Rightarrow> 'a ThreadPool" where
  "notify_all p = p\<lparr>threads := map wake (threads p), notifyAll := False\<rparr>"

text \<open>\<open>waitAll\<close> returns, or its caller goes to sleep.\<close>

definition all_done :: "'a ThreadPool \<Rightarrow> bool" where
  "all_done p \<longleftrightarrow> tasks p = [] \<and> activeTasks p = 0"

definition waitAll :: "'a ThreadPool \<Rightarrow> bool \<times> 'a ThreadPool" where
  "waitAll p = (if all_done p then (True, p) else (False, p\<lparr>allWaiter := True\<rparr>))"

text \<open>The steps of the pool itself, and those of its clients.\<close>

inductive pool_step :: "'a ThreadPool \<Rightarrow> 'a ThreadPool \<Rightarrow> bool" where
  turn: "i < length (threads p) \<Longrightarrow> threads p ! i \<notin> {Sleeping, Exited} \<Longrightarrow> pool_step p (thread_turn i p)"
| notified: "0 < notifyOne p \<Longrightarrow> i < length (threads p) \<Longrightarrow> threads p ! i = Sleeping \<Longrightarrow> pool_step p (notify_one (Some i) p)"
| unnoticed: "0 < notifyOne p \<Longrightarrow> Sleeping \<notin> set (threads p) \<Longrightarrow> pool_step p (notify_one None p)"
| stopped: "notifyAll p \<Longrightarrow> pool_step p (notify_all p)"

inductive client_step :: "'a ThreadPool \<Rightarrow> 'a ThreadPool \<Rightarrow> bool" where
  enqueued: "\<not> stopFlag p \<Longrightarrow> client_step p (enqueue t p)"
| waits: "client_step p (snd (waitAll p))"
| destroyed: "\<not> stopFlag p \<Longrightarrow> client_step p (stop_pool p)"
| spurious: "i < length (threads p) \<Longrightarrow> threads p ! i = Sleeping \<Longrightarrow> client_step p (set_thread i Awake p)"

inductive_cases pool_stepE: "pool_step p p'"
inductive_cases client_stepE: "client_step p p'"

inductive pool_reachable :: "nat \<Rightarrow> 'a ThreadPool \<Rightarrow> bool" for n where
  init: "pool_reachable n (new_ThreadPool n)"
| pool: "pool_reachable n p \<Longrightarrow> pool_step p p' \<Longrightarrow> pool_reachable n p'"
| client: "pool_reachable n p \<Longrightarrow> client_step p p' \<Longrightarrow> pool_reachable n p'"

section \<open>Invariant\<close>

fun running_task :: "'a thread \<Rightarrow> 'a list" where
  "running_task (Running t) = [t]"
| "running_task _ = []"

definition in_progress :: "'a ThreadPool \<Rightarrow> 'a list" where
  "in_progress p = concat (map running_task (threads p))"

definition pool_inv :: "'a ThreadPool \<Rightarrow> bool" where
  "pool_inv p \<longleftrightarrow> activeTasks p = length (in_progress p)
     \<and> mset (submitted p) = mset (tasks p) + mset (in_progress p) + mset (finished p)
     \<and> (Exited \<in> set (threads p) \<longrightarrow> stopFlag p \<and> tasks p = [])
     \<and> (tasks p \<noteq> [] \<and> threads p \<noteq> [] \<and> set (threads p) \<subseteq> {Sleeping} \<longrightarrow> 0 < notifyOne p)
     \<and> (stopFlag p \<and> \<not> notifyAll p \<longrightarrow> Sleeping \<notin> set (threads p)) \<and> (notifyAll p \<longrightarrow> stopFlag p)
     \<and> (allWaiter p \<longrightarrow> \<not> all_done p)"

lemma in_progress_update:
  "i < length ts \<Longrightarrow> mset (concat (map running_task (ts[i := t]))) + mset (running_task (ts ! i))
     = mset (concat (map running_task ts)) + mset (running_task t)"
proof (induction ts arbitrary: i)
  case Nil
  then show ?case by simp
next
  case (Cons x xs)
  then show ?case by (cases i) (auto simp: ac_simps)
qed

lemma in_progress_set_thread:
  assumes "i < length (threads p)"
  shows "mset (in_progress (set_thread i t p)) + mset (running_task (threads p ! i)) = mset (in_progress p) + mset (running_task t)"
    and "length (in_progress (set_thread i t p)) + length (running_task (threads p ! i)) = length (in_progress p) + length (running_task t)"
proof -
  show m: "mset (in_progress (set_thread i t p)) + mset (running_task (threads p ! i)) = mset (in_progress p) + mset (running_task t)"
    using in_progress_update [OF assms] by (simp add: in_progress_def)
  show "length (in_progress (set_thread i t p)) + length (running_task (threads p ! i)) = length (in_progress p) + length (running_task t)"
    using arg_cong [OF m, of size] by simp
qed

lemma in_progress_frame [simp]:
  "in_progress (p\<lparr>tasks := a\<rparr>) = in_progress p" "in_progress (p\<lparr>stopFlag := b\<rparr>) = in_progress p"
  "in_progress (p\<lparr>activeTasks := n\<rparr>) = in_progress p" "in_progress (p\<lparr>notifyOne := n\<rparr>) = in_progress p"
  "in_progress (p\<lparr>notifyAll := b\<rparr>) = in_progress p" "in_progress (p\<lparr>allWaiter := b\<rparr>) = in_progress p"
  "in_progress (p\<lparr>submitted := a\<rparr>) = in_progress p" "in_progress (p\<lparr>finished := a\<rparr>) = in_progress p"
  by (simp_all add: in_progress_def)

lemma not_all_asleep: "i < length ts \<Longrightarrow> t \<noteq> Sleeping \<Longrightarrow> \<not> set (ts[i := t]) \<subseteq> {Sleeping}"
  using set_update_memI [of i ts t] by auto

lemma new_ThreadPool_inv: "pool_inv (new_ThreadPool n)"
  by (simp add: pool_inv_def new_ThreadPool_def in_progress_def all_done_def)

lemma set_thread_exited: "x \<in> set (ts[i := t]) \<Longrightarrow> x = t \<or> x \<in> set ts"
  using set_update_subset_insert by fastforce

lemma thread_turn_inv:
  assumes "pool_inv p" and "i < length (threads p)" and "threads p ! i \<notin> {Sleeping, Exited}"
  shows "pool_inv (thread_turn i p)"
proof (cases "threads p ! i")
  case Awake
  note a = in_progress_set_thread [OF assms(2), of "Sleeping :: 'a thread"] in_progress_set_thread [OF assms(2), of "Exited :: 'a thread"]
  show ?thesis
  proof (cases "tasks p")
    case Nil
    with a Awake assms show ?thesis
      by (auto simp: thread_turn_def pool_inv_def all_done_def dest!: set_thread_exited)
  next
    case (Cons t ts)
    note r = in_progress_set_thread [OF assms(2), of "Running t"]
    have "\<not> set ((threads p)[i := Running t]) \<subseteq> {Sleeping}" using assms(2) by (rule not_all_asleep) simp
    with r Cons Awake assms show ?thesis
      by (auto simp: thread_turn_def pool_inv_def all_done_def dest!: set_thread_exited)
  qed
next
  case (Running t)
  note r = in_progress_set_thread [OF assms(2), of "Awake :: 'a thread"]
  have n: "\<not> set ((threads p)[i := Awake]) \<subseteq> {Sleeping}" using assms(2) by (rule not_all_asleep) simp
  have e: "Exited \<in> set ((threads p)[i := Awake]) \<Longrightarrow> Exited \<in> set (threads p)"
    "Sleeping \<in> set ((threads p)[i := Awake]) \<Longrightarrow> Sleeping \<in> set (threads p)" using set_thread_exited by fastforce+
  let ?p1 = "(set_thread i Awake p)\<lparr>activeTasks := activeTasks p - 1, finished := finished p @ [t]\<rparr>"
  have m: "mset (in_progress p) = add_mset t (mset (in_progress (set_thread i Awake p)))"
    "length (in_progress p) = Suc (length (in_progress (set_thread i Awake p)))" using r Running by simp_all
  have "pool_inv (?p1\<lparr>allWaiter := False\<rparr>)" using assms(1) m n e unfolding pool_inv_def by simp blast
  moreover have "pool_inv ?p1" if "\<not> all_done ?p1"
    using calculation that by (simp add: pool_inv_def all_done_def)
  moreover have "thread_turn i p = (if all_done ?p1 then ?p1\<lparr>allWaiter := False\<rparr> else ?p1)"
    using Running by (simp add: thread_turn_def Let_def all_done_def)
  ultimately show ?thesis by simp
qed (use assms in simp_all)

lemma awake_inv:
  assumes "pool_inv p" and "i < length (threads p)" and "threads p ! i = Sleeping"
  shows "pool_inv ((set_thread i Awake p)\<lparr>notifyOne := n\<rparr>)"
proof -
  note r = in_progress_set_thread [OF assms(2), of "Awake :: 'a thread"]
  have "\<not> set ((threads p)[i := Awake]) \<subseteq> {Sleeping}" using assms(2) by (rule not_all_asleep) simp
  with r assms show ?thesis by (auto simp: pool_inv_def all_done_def dest!: set_thread_exited)
qed

lemma in_progress_wake: "in_progress (p\<lparr>threads := map wake (threads p)\<rparr>) = in_progress p"
proof -
  have "running_task (wake t) = running_task t" for t :: "'a thread" by (cases t) (simp_all add: wake_def)
  then show ?thesis by (simp add: in_progress_def comp_def)
qed

lemma set_wake: "Sleeping \<notin> set (map wake ts)" "Exited \<in> set (map wake ts) \<longleftrightarrow> Exited \<in> set ts"
proof -
  have w: "wake t \<noteq> Sleeping" "wake t = Exited \<longleftrightarrow> t = Exited" for t :: "'a thread" by (cases t; simp add: wake_def)+
  show "Sleeping \<notin> set (map wake ts)" using w(1) by (metis ex_map_conv)
  show "Exited \<in> set (map wake ts) \<longleftrightarrow> Exited \<in> set ts" by (induction ts) (auto simp: w(2) w(2) [THEN eq_commute [THEN trans]])
qed

lemma pool_step_inv:
  assumes "pool_step p p'" and "pool_inv p"
  shows "pool_inv p'"
  using assms(1)
proof (cases rule: pool_step.cases)
  case (turn i)
  with thread_turn_inv assms(2) show ?thesis by blast
next
  case (notified i)
  with awake_inv [OF assms(2)] show ?thesis by (simp add: notify_one_def)
next
  case unnoticed
  with assms(2) show ?thesis by (cases "threads p") (auto simp: notify_one_def pool_inv_def all_done_def)
next
  case stopped
  have "threads p = [] \<or> \<not> wake ` set (threads p) \<subseteq> {Sleeping}"
    using set_wake(1) [of "threads p"] by (cases "threads p") auto
  with stopped assms(2) set_wake [of "threads p"] in_progress_wake [of p] show ?thesis
    by (auto simp: notify_all_def pool_inv_def all_done_def)
qed

lemma client_step_inv:
  assumes "client_step p p'" and "pool_inv p"
  shows "pool_inv p'"
  using assms(1)
proof (cases rule: client_step.cases)
  case (enqueued t)
  with assms(2) show ?thesis by (auto simp: enqueue_def pool_inv_def all_done_def)
next
  case waits
  with assms(2) show ?thesis by (auto simp: waitAll_def pool_inv_def all_done_def)
next
  case destroyed
  with assms(2) show ?thesis by (auto simp: stop_pool_def pool_inv_def all_done_def)
next
  case (spurious i)
  with awake_inv [OF assms(2), of i "notifyOne p"] show ?thesis by simp
qed

lemma pool_reachable_inv: "pool_reachable n p \<Longrightarrow> pool_inv p"
  by (induction rule: pool_reachable.induct) (auto intro: new_ThreadPool_inv pool_step_inv client_step_inv)

section \<open>Progress\<close>

fun thread_weight :: "'a thread \<Rightarrow> nat" where
  "thread_weight Awake = 1"
| "thread_weight (Running t) = 2"
| "thread_weight _ = 0"

definition pool_weight :: "'a ThreadPool \<Rightarrow> nat" where
  "pool_weight p = 2 * length (tasks p) + sum_list (map thread_weight (threads p)) + 2 * notifyOne p
     + (if notifyAll p then 2 * length (threads p) + 1 else 0)"

lemma weight_update:
  "i < length ts \<Longrightarrow> sum_list (map thread_weight (ts[i := t])) + thread_weight (ts ! i) = sum_list (map thread_weight ts) + thread_weight t"
proof (induction ts arbitrary: i)
  case Nil
  then show ?case by simp
next
  case (Cons x xs)
  then show ?case by (cases i) auto
qed

lemma weight_wake: "sum_list (map thread_weight (map wake ts)) \<le> sum_list (map thread_weight ts) + length ts"
proof (induction ts)
  case (Cons t ts)
  then show ?case by (cases t) (simp_all add: wake_def)
qed simp

text \<open>Left alone, the pool comes to rest.\<close>

lemma pool_step_weight: "pool_step p p' \<Longrightarrow> pool_weight p' < pool_weight p"
proof (induction rule: pool_step.induct)
  case (turn i p)
  then show ?case
    using weight_update [OF turn(1), of Awake] weight_update [OF turn(1), of Sleeping] weight_update [OF turn(1), of Exited]
      weight_update [OF turn(1), of "Running (hd (tasks p))"]
    by (cases "threads p ! i"; cases "tasks p") (auto simp: thread_turn_def pool_weight_def Let_def)
next
  case (notified p i)
  then show ?case using weight_update [OF notified(2), of Awake] by (auto simp: notify_one_def pool_weight_def)
next
  case (unnoticed p)
  then show ?case by (auto simp: notify_one_def pool_weight_def)
next
  case (stopped p)
  then show ?case using weight_wake [of "threads p"] by (auto simp: notify_all_def pool_weight_def)
qed

text \<open>At rest, every task that was enqueued has been run, and a stopped pool has no thread left.\<close>

lemma pool_at_rest:
  assumes "pool_inv p" and "threads p \<noteq> []" and "\<nexists>p'. pool_step p p'"
  shows "mset (finished p) = mset (submitted p)" and "all_done p" and "\<not> allWaiter p"
    and "stopFlag p \<Longrightarrow> set (threads p) = {Exited}"
proof -
  have t: "threads p ! i \<in> {Sleeping, Exited}" if "i < length (threads p)" for i
    using assms(3) that pool_step.turn by blast
  then have s: "set (threads p) \<subseteq> {Sleeping, Exited}" by (metis in_set_conv_nth subsetI)
  then have "running_task t = []" if "t \<in> set (threads p)" for t using that by auto
  then have ip: "in_progress p = []" by (auto simp: in_progress_def)
  have n: "notifyOne p = 0"
    using assms(3) pool_step.notified pool_step.unnoticed by (metis in_set_conv_nth neq0_conv)
  have na: "\<not> notifyAll p" using assms(3) pool_step.stopped by blast
  have tasks: "tasks p = []"
  proof (rule ccontr)
    assume e: "tasks p \<noteq> []"
    with assms(1) have "Exited \<notin> set (threads p)" by (auto simp: pool_inv_def)
    with s have "set (threads p) \<subseteq> {Sleeping}" by auto
    with assms(1,2) e n show False by (simp add: pool_inv_def)
  qed
  with assms(1) ip show "mset (finished p) = mset (submitted p)" by (simp add: pool_inv_def)
  show a: "all_done p" using assms(1) ip tasks by (simp add: pool_inv_def all_done_def)
  with assms(1) show "\<not> allWaiter p" by (simp add: pool_inv_def)
  show "set (threads p) = {Exited}" if "stopFlag p"
  proof -
    have "Sleeping \<notin> set (threads p)" using that na assms(1) by (simp add: pool_inv_def)
    with s assms(2) show ?thesis by (cases "threads p") auto
  qed
qed

text \<open>So from every reachable state the pool, left alone, runs everything it was given.\<close>

inductive pool_run :: "'a ThreadPool \<Rightarrow> 'a ThreadPool \<Rightarrow> bool" where
  rest: "pool_run p p"
| more: "pool_step p p' \<Longrightarrow> pool_run p' q \<Longrightarrow> pool_run p q"

lemma pool_run_to_rest: "\<exists>q. pool_run p q \<and> (\<nexists>q'. pool_step q q')"
proof (induction "pool_weight p" arbitrary: p rule: less_induct)
  case less
  show ?case
  proof (cases "\<exists>p'. pool_step p p'")
    case True
    then obtain p' where s: "pool_step p p'" by blast
    from less [OF pool_step_weight [OF s]] s show ?thesis by (blast intro: pool_run.more)
  next
    case False
    then show ?thesis by (blast intro: pool_run.rest)
  qed
qed

lemma pool_step_threads: "pool_step p p' \<Longrightarrow> length (threads p') = length (threads p)"
  by (erule pool_stepE)
    (auto simp: thread_turn_def notify_one_def notify_all_def Let_def split: thread.splits list.splits option.splits)

lemma client_step_threads: "client_step p p' \<Longrightarrow> length (threads p') = length (threads p)"
  by (erule client_stepE) (auto simp: enqueue_def waitAll_def stop_pool_def)

lemma pool_reachable_threads: "pool_reachable n p \<Longrightarrow> length (threads p) = n"
  by (induction rule: pool_reachable.induct)
    (simp_all add: new_ThreadPool_def pool_step_threads client_step_threads)

lemma pool_run_reachable: "pool_run p q \<Longrightarrow> pool_reachable n p \<Longrightarrow> pool_reachable n q"
  by (induction rule: pool_run.induct) (auto intro: pool_reachable.pool)

text \<open>No run of the pool goes on for ever.\<close>

lemma pool_no_infinite_run: "\<not> (\<forall>i. pool_step (f i) (f (Suc i)))"
proof
  assume s: "\<forall>i. pool_step (f i) (f (Suc i))"
  have "pool_weight (f i) + i \<le> pool_weight (f 0)" for i
  proof (induction i)
    case (Suc i)
    from pool_step_weight [OF s [rule_format, of i]] Suc show ?case by simp
  qed simp
  from this [of "Suc (pool_weight (f 0))"] show False by simp
qed

end
