(* ===== verification/Logger.thy ===== *)
theory Logger
  imports Zest_Prelude
begin

text \<open>
  \<open>Logger.hpp\<close> and \<open>Logger.cpp\<close>: the line that \<open>ZestLog\<close> writes for a message. The time stamp comes
  from the clock and is an argument. Control characters of the message are escaped, so that a client
  cannot write lines of its own into the log.
\<close>

datatype LogLevel = LInfo | LDebug | LWarning | LError | LCritical

fun levelToString :: "LogLevel \<Rightarrow> string" where
  "levelToString LInfo = ''INFO''"
| "levelToString LDebug = ''DEBUG''"
| "levelToString LWarning = ''WARNING''"
| "levelToString LError = ''ERROR''"
| "levelToString LCritical = ''CRITICAL''"

definition esc :: char where "esc = CHR 0x1B"

fun levelToColorCode :: "LogLevel \<Rightarrow> string" where
  "levelToColorCode LDebug = esc # ''[36m''"
| "levelToColorCode LWarning = esc # ''[33m''"
| "levelToColorCode LError = esc # ''[31m''"
| "levelToColorCode LCritical = esc # ''[35m''"
| "levelToColorCode LInfo = esc # ''[0m''"

definition hex_digit :: "nat \<Rightarrow> char" where
  "hex_digit d = ''0123456789abcdef'' ! d"

text \<open>\<open>std::format("\\x{:02x}", c)\<close>\<close>

definition escape_char :: "char \<Rightarrow> string" where
  "escape_char c = [CHR 0x5C, CHR ''x'', hex_digit (of_char c div 16), hex_digit (of_char c mod 16)]"

definition is_control :: "char \<Rightarrow> bool" where
  "is_control c \<longleftrightarrow> (of_char c :: nat) < 0x20 \<or> (of_char c :: nat) = 0x7f"

definition safeMessage :: "string \<Rightarrow> string" where
  "safeMessage message = concat (map (\<lambda>c. if is_control c then escape_char c else [c]) message)"

text \<open>What is written to the standard output; \<open>dbg\<close> is the flag set by \<open>setLoggerDebugMode\<close>.\<close>

definition ZestLog :: "bool \<Rightarrow> string \<Rightarrow> LogLevel \<Rightarrow> string \<Rightarrow> string" where
  "ZestLog dbg timestamp level message =
     (if \<not> dbg \<and> level = LDebug then []
      else levelToColorCode level @ ''['' @ timestamp @ ''] '' @ levelToString level @ '': ''
           @ safeMessage message @ (esc # ''[0m'') @ [CHR 0x0A])"

lemma hex_digit_visible: "d < 16 \<Longrightarrow> \<not> is_control (hex_digit d)"
proof -
  assume "d < 16"
  moreover have "list_all (\<lambda>c. \<not> is_control c) ''0123456789abcdef''" by code_simp
  ultimately show ?thesis by (auto simp: hex_digit_def list_all_length)
qed

lemma escape_char_visible: "list_all (\<lambda>x. \<not> is_control x) (escape_char c)"
proof -
  have "(of_char c :: nat) < 256" using of_char_mod_256 [of c] mod_less_divisor [of 256 "of_char c :: nat"] by simp
  then have "(of_char c :: nat) div 16 < 16" by (simp add: less_mult_imp_div_less)
  with hex_digit_visible show ?thesis by (simp add: escape_char_def) (simp add: is_control_def)
qed

lemma safeMessage_visible: "list_all (\<lambda>c. \<not> is_control c) (safeMessage m)"
proof (induction m)
  case Nil
  show ?case by (simp add: safeMessage_def)
next
  case (Cons c m)
  then show ?case using escape_char_visible [of c] by (simp add: safeMessage_def)
qed

lemma safeMessage_plain: "list_all (\<lambda>c. \<not> is_control c) m \<Longrightarrow> safeMessage m = m"
  by (induction m) (simp_all add: safeMessage_def)

lemma fixed_parts_one_line: "CHR 0x0A \<notin> set (levelToColorCode l)" "CHR 0x0A \<notin> set (levelToString l)"
  by (cases l; simp add: esc_def)+

text \<open>Whatever the message, an entry is one line.\<close>

lemma ZestLog_one_line:
  assumes "CHR 0x0A \<notin> set timestamp" and "dbg \<or> level \<noteq> LDebug"
  obtains line where "ZestLog dbg timestamp level message = line @ [CHR 0x0A]" and "CHR 0x0A \<notin> set line"
proof -
  have "CHR 0x0A \<notin> set (safeMessage message)"
    using safeMessage_visible [of message] by (auto simp: list_all_iff is_control_def)
  then show ?thesis
    using assms fixed_parts_one_line [of level]
      that [of "levelToColorCode level @ ''['' @ timestamp @ ''] '' @ levelToString level @ '': '' @ safeMessage message @ (esc # ''[0m'')"]
    by (auto simp: ZestLog_def esc_def)
qed

end
