(* ===== verification/Server_Properties.thy ===== *)
theory Server_Properties
  imports Examples Service ThreadPool Logger
begin

text \<open>
  What the network side guarantees: who gets in, what a batch does, when it is acknowledged, the limits
  on payloads and connections, the thread pool and the log. Each theorem with hypotheses is followed by an
  application to a small concrete state.
\<close>

definition ses0 :: Session where
  "ses0 = new_Session 10 300"

definition ses1 :: Session where
  "ses1 = ses0\<lparr>authenticated := True, ses_username := ''eve''\<rparr>"

lemma ses0_fields [simp]: "\<not> authenticated ses0" "authenticated ses1" "ses_username ses1 = ''eve''"
  by (simp_all add: ses0_def ses1_def new_Session_def)

lemma z0_users [simp]: "users z0 = [(''eve'', \<lparr>tokenHash = ''nekot'', ue_role = Write\<rparr>)]" "sha lib0 = (\<lambda>s. rev s)"
  by (simp_all add: z0_def lib0_def)

section \<open>Who gets in\<close>

text \<open>C18: A session becomes authenticated exactly by the line \<open>Authorization: <name>.<token>\<close> with a token
  that hashes to the stored one, of a user that is not locked out. Anything else is answered with a
  failure, closes the session and touches nothing but the counters of failed attempts.\<close>

theorem login_needs_token:
  assumes "handle_command lib now cmd ses z = (r, cl, ses', z')" and "\<not> authenticated ses"
  shows "(authenticated ses' \<longleftrightarrow> (\<exists>name token. cmd = auth_line name token \<and> CHR ''.'' \<notin> set name
            \<and> authAllowed now name (authFailures z) \<and> authenticate (sha lib) (users z) name token \<noteq> None))
     \<and> (\<not> authenticated ses' \<longrightarrow> cl \<and> r = error_json lib AUTH_FAILED \<and> ses' = ses)
     \<and> z' = z\<lparr>authFailures := authFailures z'\<rparr>"
proof -
  have "authenticated ses'" if "cmd = auth_line name token" "CHR ''.'' \<notin> set name" "authAllowed now name (authFailures z)"
    "authenticate (sha lib) (users z) name token \<noteq> None" for name token
    using handle_command_accepts [OF assms(2) that(2,3)] that assms(1) by auto
  moreover have "\<exists>name token. cmd = auth_line name token \<and> CHR ''.'' \<notin> set name \<and> authAllowed now name (authFailures z)
      \<and> authenticate (sha lib) (users z) name token \<noteq> None" if "authenticated ses'"
    by (rule handle_command_login [OF assms that]) auto
  ultimately show ?thesis using handle_command_refused [OF assms] by blast
qed

theorem login_needs_token_witness:
  "authenticated (fst (snd (snd (handle_command lib0 0 (auth_line ''eve'' ''token'') ses0 z0))))"
proof -
  obtain r cl ses' z' where h: "handle_command lib0 0 (auth_line ''eve'' ''token'') ses0 z0 = (r, cl, ses', z')"
    by (metis prod_cases4)
  have "authAllowed 0 ''eve'' (authFailures z0)" by (simp add: authAllowed_def)
  moreover have "authenticate (sha lib0) (users z0) ''eve'' ''token'' \<noteq> None" by (simp add: authenticate_def)
  moreover have "CHR ''.'' \<notin> set ''eve''" by simp
  ultimately have "authenticated ses'" using login_needs_token [OF h ses0_fields(1)] by blast
  then show ?thesis by (simp only: h fst_conv snd_conv)
qed



section \<open>Batches\<close>

text \<open>C20: A well-formed batch is executed as the sequence of its commands: the loop over the payload returns
  and does what handling the commands one after the other does, up to the first that closes the session,
  with their answers joined.\<close>

theorem batch_runs_its_commands:
  assumes "length (encode_batch cmds) < 2 ^ 32"
  shows "batch_loop lib ts (encode_batch cmds) (of_nat (length (encode_batch cmds))) 0 [] False ses z
     = Some (run_batch lib ts cmds [] False ses z)"
  using batch_loop_frames [of "[]" cmds lib ts "[]" False ses z] assms by simp

theorem batch_runs_its_commands_witness:
  "batch_loop lib0 (\<lambda>i. 0) (frame ''h'') 5 0 [] False ses1 z0 = Some (responseToJson lib0 (res Success help_text 0), False, ses1, z0)"
  using batch_runs_its_commands [of "[''h'']" lib0 "\<lambda>i. 0" ses1 z0] handle_command_help [of ses1 z0 Write lib0 0]
  by (simp add: roleOf_def add_result_def)

text \<open>C21: The loop over a batch returns for every payload up to the size limit in which no position, read as
  a length, sends the 32-bit offset beyond its range.\<close>

theorem batch_loop_terminates:
  assumes "lengths_fit payload n" and "n \<le> MAX_PAYLOAD_SIZE"
  shows "\<exists>y. batch_loop lib ts payload n off acc cl ses z = Some y"
  by (rule batch_loop_ends [OF assms])

theorem batch_loop_terminates_witness: "\<exists>y. batch_loop lib0 (\<lambda>i. 0) ''abc'' 3 0 [] False ses0 z0 = Some y"
  using batch_loop_terminates [of "''abc''" 3] by (simp add: lengths_fit_def MAX_PAYLOAD_SIZE_def)

text \<open>C22: Without that condition it does not return: the check of a command's length is a 32-bit sum that
  wraps, so the five bytes \<open>FF FF FF FC 'h'\<close> of an authenticated session make the loop execute \<open>h\<close> at
  the same place for ever.\<close>

theorem wrapping_batch_never_returns:
  assumes "authenticated ses" and "roleOf (users z) (ses_username ses) = Some role"
  shows "batch_loop lib ts (put_be32 0xFFFFFFFC @ ''h'') 5 0 [] False ses z = None"
  using batch_loop_diverges [OF assms] by (simp add: wrapping_payload_def)

theorem wrapping_batch_never_returns_witness:
  "batch_loop lib0 (\<lambda>i. 0) (put_be32 0xFFFFFFFC @ ''h'') 5 0 [] False ses1 z0 = None"
  using wrapping_batch_never_returns [of ses1 z0 Write lib0 "\<lambda>i. 0"] by (simp add: roleOf_def)

text \<open>C19: No answer before the logs: when the handler of a payload queues anything, it is the one answer to
  the batch, every command of the batch has run, and after that every log was synced with success, so
  that what the batch logged is on disk when syncing is on.\<close>

theorem acknowledged_after_sync:
  assumes "payload_read lib ts now (Some payload) n ses z = Some (ses', z')" and "write_queue ses' \<noteq> write_queue ses"
  shows "\<exists>r cl ses1 z1. batch_loop lib ts payload n 0 [] False (ses\<lparr>reading := Idle\<rparr>) z = Some (r, cl, ses1, z1)
     \<and> write_queue ses' = write_queue ses @ [r @ nl] \<and> logs_synced (shardManager z1) (shardManager z')"
  by (rule payload_read_acknowledges [OF assms]) blast

lemma mgr0_sync: "syncWAL mgr0 = (True, mgr0)"
proof -
  have "sh_sync (blank_shard i) = (True, blank_shard i)" for i
    by (simp add: sh_sync_def wal_sync_def) (simp add: blank_wal_def blank_shard_def)
  then show ?thesis by (simp add: syncWAL_def mgr0_def Let_def)
qed

theorem acknowledged_after_sync_witness:
  "\<exists>ses'. payload_read lib0 (\<lambda>i. 0) 0 (Some []) 0 ses1 z0 = Some (ses', z0) \<and> write_queue ses' = [nl]"
proof -
  have "z_syncWAL z0 = (True, z0)" using mgr0_sync by (simp add: z_syncWAL_def on_mgr_def)
  then have p: "payload_read lib0 (\<lambda>i. 0) 0 (Some []) 0 ses1 z0 =
      Some (do_read_size 0 (queue_write nl False (ses1\<lparr>reading := Idle\<rparr>)), z0)"
    by (simp add: payload_read_def batch_loop.simps)
  have q: "write_queue ses1 = []" by (simp add: ses1_def ses0_def new_Session_def)
  from acknowledged_after_sync [OF p] p q show ?thesis
    by (simp add: do_read_size_def touch_def queue_write_def batch_loop.simps)
qed

section \<open>Sessions and connections\<close>

text \<open>In every reachable state of a session: a closed one reads nothing, one that is about to close reads
  nothing more and still has something to send, and the payload it waits for is at most 1 MiB before
  authentication and at most 64 MiB after.\<close>

theorem session_invariant:
  assumes "ses_reachable lib (ses, z)"
  shows "(\<not> stream_open ses \<longrightarrow> reading ses = Idle)
     \<and> (closing ses \<longrightarrow> reading ses = Idle \<and> (write_queue ses \<noteq> [] \<or> \<not> stream_open ses))
     \<and> (\<forall>n. reading ses = ReadingCommand n \<longrightarrow> unat n \<le> (if authenticated ses then 64 * 1024 * 1024 else 1024 * 1024))"
  using ses_reachable_inv [OF assms]
  by (auto simp: ses_inv_def MAX_PAYLOAD_SIZE_def MAX_UNAUTHENTICATED_PAYLOAD_SIZE_def word_le_nat_alt)

theorem session_invariant_witness: "reading (ses_start lib0 0 None True z0 (new_Session 10 300)) = Idle"
  using session_invariant [OF ses_reachable.started [of lib0 0 None True z0 10 300]]
  by (simp add: ses_start_def close_stream_def)

text \<open>Answers reach the peer in the order of the requests: one event of a session queues at most one
  answer, behind all those that were queued or sent before, and never drops or reorders any.\<close>

theorem answers_in_order:
  assumes "ses_step lib (ses, z) (ses', z')"
  shows "\<exists>new. sent ses' @ write_queue ses' = (sent ses @ write_queue ses) @ new \<and> length new \<le> 1"
  using ses_step_fifo [OF assms] by simp

theorem answers_in_order_witness:
  "\<exists>new. sent (write_done True (queue_write ''a'' False ses0)) @ write_queue (write_done True (queue_write ''a'' False ses0))
     = [''a''] @ new \<and> length new \<le> 1"
  using answers_in_order [OF ses_step.write_event [of "queue_write ''a'' False ses0" True lib0 z0]]
  by (simp add: queue_write_def ses0_def new_Session_def)

text \<open>C34: The number of open sessions never exceeds \<open>MaxConnections\<close>, the counter of the server is that
  number, and connections are only given to IO threads that exist: in every state of the server, however
  accepts, failures, retries, ends of sessions and the stop interleave. Once the acceptor is closed, no
  later event opens a session.\<close>

theorem connection_limit:
  assumes "srv_reachable (new_Server hardware_concurrency st) srv"
  shows "unat (activeSessions srv) = length (live srv) \<and> length (live srv) \<le> unat (maxConnections srv)
     \<and> list_all (\<lambda>w. w < workers srv) (live srv)
     \<and> (\<forall>srv'. srv_reachable (close_acceptor srv) srv' \<longrightarrow> \<not> acceptor_open srv' \<and> length (live srv') \<le> length (live srv))"
  using srv_reachable_inv [OF assms new_Server_inv] srv_closed_reachable [of "close_acceptor srv"]
  by (simp add: srv_inv_def close_acceptor_def)

theorem connection_limit_witness:
  "let srv = accept_done Accepted 0 (new_Server 4 st0) in unat (activeSessions srv) \<le> unat (maxConnections srv)"
proof -
  have "srv_step (new_Server 4 st0) (accept_done Accepted 0 (new_Server 4 st0))"
    by (rule srv_step.accept) (simp_all add: new_Server_def do_accept_def)
  from connection_limit [OF srv_reachable.step [OF srv_reachable.init this]] show ?thesis by (simp add: Let_def)
qed

section \<open>The thread pool\<close>

text \<open>C36: In every reachable state of the thread pool each task that was submitted is exactly once in the
  queue, running or finished, so when the condition of \<open>waitAll\<close> holds, all of them have finished; no
  thread has gone while a task waits.\<close>

theorem pool_loses_no_task:
  assumes "pool_reachable n p"
  shows "mset (submitted p) = mset (tasks p) + mset (in_progress p) + mset (finished p)
     \<and> (fst (waitAll p) \<longrightarrow> mset (finished p) = mset (submitted p))
     \<and> (tasks p \<noteq> [] \<longrightarrow> Exited \<notin> set (threads p))"
  using pool_reachable_inv [OF assms] by (auto simp: pool_inv_def waitAll_def all_done_def split: if_splits)

definition pool1 :: "string ThreadPool" where
  "pool1 = enqueue ''t'' (new_ThreadPool 2)"

lemma pool1_reachable: "pool_reachable 2 pool1"
  unfolding pool1_def
  by (rule pool_reachable.client [OF pool_reachable.init client_step.enqueued]) (simp add: new_ThreadPool_def)

theorem pool_loses_no_task_witness: "mset (submitted pool1) = mset [''t'']"
  using pool_loses_no_task [OF pool1_reachable]
  by (simp add: pool1_def enqueue_def new_ThreadPool_def)

text \<open>C35: The pool finishes its work: it cannot go on for ever without new requests, and whenever it comes to
  rest every submitted task has finished, nobody is left waiting in \<open>waitAll\<close>, and after a stop all threads
  have returned. No wake-up is lost.\<close>

theorem pool_finishes:
  assumes "pool_reachable n p" and "0 < n"
  shows "\<not> (\<exists>f. f 0 = p \<and> (\<forall>i. pool_step (f i) (f (Suc i))))
     \<and> (\<exists>q. pool_run p q \<and> (\<nexists>q'. pool_step q q'))
     \<and> (\<forall>q. pool_run p q \<and> (\<nexists>q'. pool_step q q') \<longrightarrow>
          mset (finished q) = mset (submitted q) \<and> all_done q \<and> \<not> allWaiter q \<and> (stopFlag q \<longrightarrow> set (threads q) = {Exited}))"
proof (intro conjI allI impI)
  show "\<not> (\<exists>f. f 0 = p \<and> (\<forall>i. pool_step (f i) (f (Suc i))))" using pool_no_infinite_run by blast
  show "\<exists>q. pool_run p q \<and> (\<nexists>q'. pool_step q q')" by (rule pool_run_to_rest)
  fix q assume q: "pool_run p q \<and> (\<nexists>q'. pool_step q q')"
  then have r: "pool_reachable n q" using pool_run_reachable assms(1) by blast
  then have "threads q \<noteq> []" using pool_reachable_threads [OF r] assms(2) by auto
  note rest = pool_at_rest [OF pool_reachable_inv [OF r] this conjunct2 [OF q]]
  show "mset (finished q) = mset (submitted q)" "all_done q" "\<not> allWaiter q" by (rule rest)+
  show "set (threads q) = {Exited}" if "stopFlag q" by (rule rest(4) [OF that])
qed

theorem pool_finishes_witness:
  "\<exists>q. pool_run pool1 q \<and> mset (finished q) = mset (submitted q) \<and> all_done q"
  using pool_finishes [OF pool1_reachable] by auto

section \<open>The log\<close>

text \<open>Whatever a message holds - and much of it comes from the network - an entry of the log is exactly
  one line, and the message part has no control character: nobody can forge an entry or send a control
  sequence to the terminal.\<close>

theorem log_entry_is_one_line:
  assumes "CHR 0x0A \<notin> set timestamp" and "dbg \<or> level \<noteq> LDebug"
  shows "(\<exists>line. ZestLog dbg timestamp level message = line @ [CHR 0x0A] \<and> CHR 0x0A \<notin> set line)
     \<and> list_all (\<lambda>c. \<not> is_control c) (safeMessage message)"
  by (rule ZestLog_one_line [OF assms, of message]) (use safeMessage_visible [of message] in blast)

theorem log_entry_is_one_line_witness:
  "\<exists>line. ZestLog False ''now'' LInfo [CHR 0x0A, CHR 0x1B] = line @ [CHR 0x0A] \<and> CHR 0x0A \<notin> set line"
  using log_entry_is_one_line [of "''now''" False LInfo "[CHR 0x0A, CHR 0x1B]"] by simp

end
