(* ===== verification/Concurrent.thy ===== *)
theory Concurrent
  imports Durability
begin

text \<open>
  Commands of several threads. \<open>ZestDB::execCmd\<close> runs on the threads of the sessions, of the console
  and of the flush timer at the same time, under the shared mutex \<open>writeMtx\<close>. Here a call is cut where
  other threads can come between: taking the lock, running the command, appending to the log, and
  syncing the logs one after the other. A thread has a list of requests and a phase; one step of the
  system is one step of one thread, and \<open>None\<close> is a thread that has to wait or has nothing to do.
  The command itself is one step: a single-key command does its work under the mutex of one shard. A
  bulk command and the copying of an archive are taken as one step as well.
\<close>

section \<open>The shared mutex\<close>

datatype lock_kind = SharedLock | UniqueLock

record SharedMutex =
  readers :: nat
  writer :: bool

fun acquire :: "lock_kind \<Rightarrow> SharedMutex \<Rightarrow> SharedMutex option" where
  "acquire SharedLock m = (if writer m then None else Some (m\<lparr>readers := Suc (readers m)\<rparr>))"
| "acquire UniqueLock m = (if writer m \<or> readers m > 0 then None else Some (m\<lparr>writer := True\<rparr>))"

fun release :: "lock_kind \<Rightarrow> SharedMutex \<Rightarrow> SharedMutex" where
  "release SharedLock m = m\<lparr>readers := readers m - 1\<rparr>"
| "release UniqueLock m = m\<lparr>writer := False\<rparr>"

text \<open>
  The lock of a command. \<open>execCmd\<close> takes it for all but \<open>f\<close> and \<open>save\<close>, for which \<open>flush\<close> and
  \<open>createArchive\<close> take the unique lock themselves. Here it is kept until the call returns: after \<open>flush\<close>
  the call has nothing left to do, and for \<open>save\<close> this includes the writing of the archive, which the code
  does without the lock.
\<close>

definition lock_of :: "string \<Rightarrow> lock_kind" where
  "lock_of cmd = (if cmd = ''r'' \<or> cmd = ''scfg'' \<or> cmd = ''f'' \<or> cmd = ''save'' then UniqueLock else SharedLock)"

section \<open>Threads\<close>

text \<open>
  A request is a call of \<open>execCmd\<close> or of \<open>syncWAL\<close>, with which a session ends a batch whose commands
  were not synced one by one.
\<close>

datatype request = Exec string Role bool | SyncLogs

datatype answer = Answered "ResultType option" | Synced bool

text \<open>A command that was parsed and permitted: what \<open>execCmd\<close> has in its local variables.\<close>

record job =
  j_command :: string
  j_cmd :: string
  j_sv :: string
  j_words :: "(nat \<times> string) list"
  j_sync :: bool

text \<open>
  \<open>Syncing\<close> has the answer to give if every sync succeeds, the lock that is held meanwhile, whether
  all succeeded so far, and the shards whose logs are still to be synced.
\<close>

datatype phase =
    Idle
  | Waiting job
  | Holding job
  | Ran job ResultType
  | Syncing "ResultType option" "lock_kind option" bool "nat list"

text \<open>
  \<open>t_unsynced\<close> is a history variable: the keys under which the thread has logged commands since its
  last sync.
\<close>

record Thread =
  t_todo :: "request list"
  t_phase :: phase
  t_answers :: "answer list"
  t_unsynced :: "string list"

text \<open>\<open>c_flushed\<close> is a history variable, too: the map at the time of the last flush.\<close>

record Conc =
  c_db :: ZestDB
  c_mtx :: SharedMutex
  c_flushed :: "string \<Rightarrow> string option"
  c_threads :: "Thread list"

section \<open>The steps of a call\<close>

text \<open>\<open>execCmd\<close> up to the locks.\<close>

definition parse_command :: "string \<Rightarrow> Role \<Rightarrow> bool \<Rightarrow> ResultType + job" where
  "parse_command command role syncWal =
     (case trim_command command of
        None \<Rightarrow> Inl (fail NO_COMMAND_GIVEN)
      | Some sv \<Rightarrow>
          (let ws = words_of sv in
           if ws = [] then Inl (fail NO_COMMAND_GIVEN)
           else let cmd = alias_of (toLowerStr (snd (hd ws))) in
             if \<not> permitted cmd role then Inl (fail PERMISSION_DENIED)
             else Inr \<lparr>j_command = command, j_cmd = cmd, j_sv = sv, j_words = ws, j_sync = syncWal\<rparr>))"

text \<open>Whether the command is to be logged.\<close>

definition to_log :: "job \<Rightarrow> ResultType \<Rightarrow> ZestDB \<Rightarrow> bool" where
  "to_log j r z \<longleftrightarrow> \<not> replaying z \<and> code r = Success \<and> isWrite (j_cmd j) \<and> length (j_words j) \<ge> 2"

definition job_key :: "job \<Rightarrow> string" where
  "job_key j = word_at (j_words j) 1"

text \<open>One round of the loop of \<open>ShardManager::syncWAL\<close>.\<close>

definition sync_shard :: "nat \<Rightarrow> ShardManager \<Rightarrow> bool \<times> ShardManager" where
  "sync_shard i mgr = (case sh_sync (mgr_shards mgr ! i) of (ok, sh) \<Rightarrow> (ok, mgr\<lparr>mgr_shards := (mgr_shards mgr)[i := sh]\<rparr>))"

text \<open>Whether a command flushes and the flush empties the logs.\<close>

definition flushes :: "string \<Rightarrow> ZestDB \<Rightarrow> bool" where
  "flushes cmd z \<longleftrightarrow> (cmd = ''f'' \<or> cmd = ''save'' \<and> \<not> archiving z)
     \<and> list_all (\<lambda>sh. fst (flushData sh)) (mgr_shards (shardManager z))"

text \<open>The return of a call: its lock is released.\<close>

definition answer :: "answer \<Rightarrow> Thread \<Rightarrow> Thread" where
  "answer a t = t\<lparr>t_phase := Idle, t_answers := t_answers t @ [a]\<rparr>"

definition unlock :: "lock_kind option \<Rightarrow> Conc \<Rightarrow> Conc" where
  "unlock l c = (case l of None \<Rightarrow> c | Some k \<Rightarrow> c\<lparr>c_mtx := release k (c_mtx c)\<rparr>)"

abbreviation shards_of :: "Conc \<Rightarrow> nat list" where
  "shards_of c \<equiv> [0..<length (mgr_shards (shardManager (c_db c)))]"

fun start_request :: "request \<Rightarrow> Thread \<Rightarrow> Conc \<Rightarrow> Thread" where
  "start_request (Exec line role sync) t c =
     (case parse_command line role sync of
        Inl r \<Rightarrow> answer (Answered (Some r)) t
      | Inr j \<Rightarrow> t\<lparr>t_phase := Waiting j\<rparr>)"
| "start_request SyncLogs t c = t\<lparr>t_phase := Syncing None None True (shards_of c)\<rparr>"

definition run_job :: "Lib \<Rightarrow> job \<Rightarrow> Thread \<Rightarrow> Conc \<Rightarrow> Thread \<times> Conc" where
  "run_job lib j t c =
     (case run_cmd lib (j_cmd j) (j_sv j) (j_words j) (c_db c) of (ro, z) \<Rightarrow>
        let c1 = c\<lparr>c_db := z, c_flushed := (if flushes (j_cmd j) (c_db c) then z_db lib z else c_flushed c)\<rparr> in
        case ro of
          None \<Rightarrow> (answer (Answered None) t, unlock (Some (lock_of (j_cmd j))) c1)
        | Some r \<Rightarrow> (t\<lparr>t_phase := Ran j r\<rparr>, c1))"

definition log_job :: "Lib \<Rightarrow> job \<Rightarrow> ResultType \<Rightarrow> Thread \<Rightarrow> Conc \<Rightarrow> Thread \<times> Conc" where
  "log_job lib j r t c =
     (let l = Some (lock_of (j_cmd j)) in
      if \<not> to_log j r (c_db c) then (answer (Answered (Some r)) t, unlock l c)
      else case z_appendToWAL lib (job_key j) (j_command j) (c_db c) of (ok, z) \<Rightarrow>
        let c1 = c\<lparr>c_db := z\<rparr>; t1 = t\<lparr>t_unsynced := t_unsynced t @ [job_key j]\<rparr> in
        if \<not> ok then (answer (Answered (Some (res Error WAL_WRITE_FAILED (affectedRows r)))) t1, unlock l c1)
        else if j_sync j then (t1\<lparr>t_phase := Syncing (Some r) l True (shards_of c1)\<rparr>, c1)
        else (answer (Answered (Some r)) t1, unlock l c1))"

definition sync_answer :: "ResultType option \<Rightarrow> bool \<Rightarrow> answer" where
  "sync_answer ro ok =
     (case ro of
        None \<Rightarrow> Synced ok
      | Some r \<Rightarrow> Answered (Some (if ok then r else res Error WAL_WRITE_FAILED (affectedRows r))))"

fun sync_next :: "ResultType option \<Rightarrow> lock_kind option \<Rightarrow> bool \<Rightarrow> nat list \<Rightarrow> Thread \<Rightarrow> Conc \<Rightarrow> Thread \<times> Conc" where
  "sync_next ro l ok [] t c =
     (answer (sync_answer ro ok) (t\<lparr>t_unsynced := (if ok then [] else t_unsynced t)\<rparr>), unlock l c)"
| "sync_next ro l ok (i # is) t c =
     (case sync_shard i (shardManager (c_db c)) of (b, m) \<Rightarrow>
        (t\<lparr>t_phase := Syncing ro l (b \<and> ok) is\<rparr>, c\<lparr>c_db := (c_db c)\<lparr>shardManager := m\<rparr>\<rparr>))"

fun thread_step :: "Lib \<Rightarrow> Thread \<Rightarrow> Conc \<Rightarrow> (Thread \<times> Conc) option" where
  "thread_step lib t c =
     (case t_phase t of
        Idle \<Rightarrow> (case t_todo t of [] \<Rightarrow> None | q # qs \<Rightarrow> Some (start_request q (t\<lparr>t_todo := qs\<rparr>) c, c))
      | Waiting j \<Rightarrow>
          (case acquire (lock_of (j_cmd j)) (c_mtx c) of
             None \<Rightarrow> None
           | Some m \<Rightarrow> Some (t\<lparr>t_phase := Holding j\<rparr>, c\<lparr>c_mtx := m\<rparr>))
      | Holding j \<Rightarrow> Some (run_job lib j t c)
      | Ran j r \<Rightarrow> Some (log_job lib j r t c)
      | Syncing ro l ok is \<Rightarrow> Some (sync_next ro l ok is t c))"

definition conc_step :: "Lib \<Rightarrow> nat \<Rightarrow> Conc \<Rightarrow> Conc option" where
  "conc_step lib i c =
     (if i < length (c_threads c)
      then map_option (\<lambda>(t, c1). c1\<lparr>c_threads := (c_threads c)[i := t]\<rparr>) (thread_step lib (c_threads c ! i) c)
      else None)"

text \<open>A schedule says which thread takes the next step.\<close>

fun run_schedule :: "Lib \<Rightarrow> nat list \<Rightarrow> Conc \<Rightarrow> Conc option" where
  "run_schedule lib [] c = Some c"
| "run_schedule lib (i # is) c = (case conc_step lib i c of None \<Rightarrow> None | Some c1 \<Rightarrow> run_schedule lib is c1)"

definition new_Conc :: "Lib \<Rightarrow> ZestDB \<Rightarrow> request list list \<Rightarrow> Conc" where
  "new_Conc lib z qss = \<lparr>c_db = z, c_mtx = \<lparr>readers = 0, writer = False\<rparr>, c_flushed = z_db lib z,
     c_threads = map (\<lambda>qs. \<lparr>t_todo = qs, t_phase = Idle, t_answers = [], t_unsynced = []\<rparr>) qss\<rparr>"

lemma run_schedule_append:
  "run_schedule lib (is @ js) c = Option.bind (run_schedule lib is c) (run_schedule lib js)"
  by (induction "is" arbitrary: c) (auto split: option.splits)

lemma conc_stepE:
  assumes "conc_step lib i c = Some c'"
  obtains t c1 where "i < length (c_threads c)" "thread_step lib (c_threads c ! i) c = Some (t, c1)"
    "c' = c1\<lparr>c_threads := (c_threads c)[i := t]\<rparr>"
  using assms by (auto simp: conc_step_def split: if_splits)

text \<open>What every step keeps holds after every schedule.\<close>

lemma run_schedule_keeps:
  assumes "\<And>i c c'. P c \<Longrightarrow> conc_step lib i c = Some c' \<Longrightarrow> P c'"
  shows "run_schedule lib is c = Some c' \<Longrightarrow> P c \<Longrightarrow> P c'"
  using assms by (induction "is" arbitrary: c) (auto split: option.splits)

section \<open>Who holds the lock\<close>

fun holds :: "phase \<Rightarrow> lock_kind option" where
  "holds Idle = None"
| "holds (Waiting j) = None"
| "holds (Holding j) = Some (lock_of (j_cmd j))"
| "holds (Ran j r) = Some (lock_of (j_cmd j))"
| "holds (Syncing ro l ok is) = l"

definition holders :: "lock_kind \<Rightarrow> Conc \<Rightarrow> nat" where
  "holders k c = length (filter (\<lambda>t. holds (t_phase t) = Some k) (c_threads c))"

definition lock_inv :: "Conc \<Rightarrow> bool" where
  "lock_inv c \<longleftrightarrow> readers (c_mtx c) = holders SharedLock c
     \<and> holders UniqueLock c = (if writer (c_mtx c) then 1 else 0) \<and> (writer (c_mtx c) \<longrightarrow> readers (c_mtx c) = 0)"

lemma mutex_fields [simp]:
  "c_mtx (unlock l c) = (case l of None \<Rightarrow> c_mtx c | Some k \<Rightarrow> release k (c_mtx c))" "c_db (unlock l c) = c_db c"
  "c_flushed (unlock l c) = c_flushed c" "c_threads (unlock l c) = c_threads c"
  "t_phase (answer a t) = Idle" "t_todo (answer a t) = t_todo t" "t_unsynced (answer a t) = t_unsynced t"
  "t_answers (answer a t) = t_answers t @ [a]"
  by (simp_all add: unlock_def answer_def split: option.splits)

text \<open>How one step treats the lock: it is left alone, taken or released.\<close>

lemma start_request_idle:
  "holds (t_phase (start_request q t c)) = None" "t_todo (start_request q t c) = t_todo t"
  "t_unsynced (start_request q t c) = t_unsynced t"
  by (cases q; simp split: sum.splits)+

lemma thread_step_lock:
  assumes "thread_step lib t c = Some (t', c')"
  obtains (same) "holds (t_phase t') = holds (t_phase t)" "c_mtx c' = c_mtx c"
  | (take) k where "holds (t_phase t) = None" "holds (t_phase t') = Some k" "acquire k (c_mtx c) = Some (c_mtx c')"
  | (give) k where "holds (t_phase t) = Some k" "holds (t_phase t') = None" "c_mtx c' = release k (c_mtx c)"
proof (cases "t_phase t")
  case Idle
  with assms same show thesis by (auto simp: start_request_idle split: list.splits)
next
  case (Waiting j)
  with assms take show thesis by (auto split: option.splits)
next
  case (Holding j)
  with assms same give show thesis by (auto simp: run_job_def Let_def split: prod.splits option.splits)
next
  case (Ran j r)
  with assms same give show thesis by (auto simp: log_job_def Let_def split: prod.splits if_splits)
next
  case (Syncing ro l ok "is")
  with assms same give show thesis by (cases "is"; cases l) (auto split: prod.splits)
qed

lemma thread_step_threads: "thread_step lib t c = Some (t', c') \<Longrightarrow> c_threads c' = c_threads c"
  by (auto simp: run_job_def log_job_def Let_def split: phase.splits list.splits option.splits prod.splits if_splits
      elim!: sync_next.elims)

lemma filter_update_count:
  "i < length xs \<Longrightarrow> length (filter P (xs[i := x])) + (if P (xs ! i) then 1 else 0)
     = length (filter P xs) + (if P x then 1 else 0)"
proof (induction xs arbitrary: i)
  case (Cons a xs)
  then show ?case by (cases i) auto
qed simp

lemma holders_step:
  assumes "i < length (c_threads c)" and "c' = c1\<lparr>c_threads := (c_threads c)[i := t]\<rparr>"
  shows "holders k c' + (if holds (t_phase (c_threads c ! i)) = Some k then 1 else 0)
    = holders k c + (if holds (t_phase t) = Some k then 1 else 0)"
  unfolding holders_def assms(2) using filter_update_count [OF assms(1), of "\<lambda>t. holds (t_phase t) = Some k" t] by simp

lemma lock_step:
  assumes "lock_inv c" and "conc_step lib i c = Some c'"
  shows "lock_inv c'"
  using assms(2)
proof (cases rule: conc_stepE)
  case (1 t c1)
  note h = holders_step [OF 1(1,3)]
  have m: "c_mtx c' = c_mtx c1" using 1(3) by simp
  have got: "readers m' = Suc (readers m) \<and> \<not> writer m \<and> writer m' = writer m" if "acquire SharedLock m = Some m'" for m m'
    using that by (auto split: if_splits)
  have got': "readers m = 0 \<and> \<not> writer m \<and> writer m' \<and> readers m' = readers m" if "acquire UniqueLock m = Some m'" for m m'
    using that by (auto split: if_splits)
  from 1(2) show ?thesis
  proof (cases rule: thread_step_lock)
    case same
    with h [of SharedLock] h [of UniqueLock] assms(1) m show ?thesis by (auto simp: lock_inv_def split: if_splits)
  next
    case (take k)
    with h [of SharedLock] h [of UniqueLock] assms(1) m show ?thesis
      by (cases k) (auto simp: lock_inv_def simp del: acquire.simps split: if_splits dest!: got got')
  next
    case (give k)
    with h [of SharedLock] h [of UniqueLock] assms(1) m show ?thesis
      by (cases k) (auto simp: lock_inv_def split: if_splits)
  qed
qed

lemma new_Conc_locks [simp]: "lock_inv (new_Conc lib z qss)"
  by (simp add: lock_inv_def holders_def new_Conc_def filter_empty_conv)

lemma lock_reach: "run_schedule lib is c = Some c' \<Longrightarrow> lock_inv c \<Longrightarrow> lock_inv c'"
  by (rule run_schedule_keeps [of lock_inv]) (auto intro: lock_step)

text \<open>A thread with the unique lock is alone.\<close>

lemma holders_pos: "i < length (c_threads c) \<Longrightarrow> holds (t_phase (c_threads c ! i)) = Some k \<Longrightarrow> 0 < holders k c"
  by (auto simp: holders_def filter_empty_conv intro!: nth_mem)

lemma unique_is_alone:
  assumes "lock_inv c" and "i < length (c_threads c)" and "holds (t_phase (c_threads c ! i)) = Some UniqueLock"
    and "j < length (c_threads c)" and "j \<noteq> i"
  shows "holds (t_phase (c_threads c ! j)) = None"
proof -
  let ?P = "\<lambda>t. holds (t_phase t) = Some UniqueLock"
  have u: "holders UniqueLock c = 1" "holders SharedLock c = 0"
    using assms(1) holders_pos [OF assms(2,3)] by (auto simp: lock_inv_def split: if_splits)
  have "\<not> ?P (c_threads c ! j)"
  proof
    assume "?P (c_threads c ! j)"
    then have "{i, j} \<subseteq> {n. n < length (c_threads c) \<and> ?P (c_threads c ! n)}" using assms(2,3,4) by auto
    then have "card {i, j} \<le> holders UniqueLock c"
      unfolding holders_def length_filter_conv_card by (intro card_mono) auto
    with u(1) assms(5) show False by simp
  qed
  moreover have "holds (t_phase (c_threads c ! j)) \<noteq> Some SharedLock" using holders_pos [OF assms(4)] u(2) by auto
  ultimately show ?thesis by (metis lock_kind.exhaust option.exhaust)
qed

section \<open>No deadlock, no endless run\<close>

definition finished :: "Thread \<Rightarrow> bool" where
  "finished t \<longleftrightarrow> t_phase t = Idle \<and> t_todo t = []"

lemma thread_blocked:
  "thread_step lib t c = None \<longleftrightarrow>
     finished t \<or> (\<exists>j. t_phase t = Waiting j \<and> acquire (lock_of (j_cmd j)) (c_mtx c) = None)"
  by (auto simp: finished_def split: phase.splits list.splits option.splits)

lemma conc_blocked: "i < length (c_threads c) \<Longrightarrow> conc_step lib i c = None \<longleftrightarrow> thread_step lib (c_threads c ! i) c = None"
  by (simp add: conc_step_def)

lemma no_deadlock:
  assumes "lock_inv c" and "t \<in> set (c_threads c)" and "\<not> finished t"
  shows "\<exists>i c'. conc_step lib i c = Some c'"
proof (rule ccontr)
  assume "\<nexists>i c'. conc_step lib i c = Some c'"
  then have n: "conc_step lib i c = None" for i by (meson option.exhaust)
  have b: "thread_step lib u c = None" if u: "u \<in> set (c_threads c)" for u
  proof -
    obtain i where i: "i < length (c_threads c)" "u = c_threads c ! i" using u by (metis in_set_conv_nth)
    with conc_blocked [OF i(1), of lib] n [of i] show ?thesis by simp
  qed
  obtain j where w: "t_phase t = Waiting j" "acquire (lock_of (j_cmd j)) (c_mtx c) = None"
    using b [OF assms(2)] assms(3) thread_blocked by blast
  have "holds (t_phase u) = None" if "u \<in> set (c_threads c)" for u
    using b [OF that] thread_blocked [of lib u c] by (auto simp: finished_def)
  then have "holders k c = 0" for k by (simp add: holders_def filter_empty_conv)
  with assms(1) have "readers (c_mtx c) = 0" "\<not> writer (c_mtx c)" by (auto simp: lock_inv_def split: if_splits)
  with w(2) show False by (cases "lock_of (j_cmd j)") auto
qed

fun phase_rank :: "phase \<Rightarrow> nat" where
  "phase_rank Idle = 0"
| "phase_rank (Syncing ro l ok is) = 1"
| "phase_rank (Ran j r) = 2"
| "phase_rank (Holding j) = 3"
| "phase_rank (Waiting j) = 4"

fun sync_rank :: "phase \<Rightarrow> nat" where
  "sync_rank (Syncing ro l ok is) = length is"
| "sync_rank _ = 0"

definition rank :: "Thread \<Rightarrow> nat \<times> nat" where
  "rank t = (5 * length (t_todo t) + phase_rank (t_phase t), sync_rank (t_phase t))"

lemma rank_step:
  assumes "thread_step lib t c = Some (t', c')"
  shows "fst (rank t') < fst (rank t) \<or> fst (rank t') = fst (rank t) \<and> snd (rank t') < snd (rank t)"
proof (cases "t_phase t")
  case Idle
  then obtain q qs where q: "t_todo t = q # qs" "t' = start_request q (t\<lparr>t_todo := qs\<rparr>) c"
    using assms by (auto split: list.splits)
  have "phase_rank (t_phase (start_request q u c)) < 5" for u
    by (cases q) (auto split: sum.splits)
  with q Idle show ?thesis by (simp add: rank_def start_request_idle)
next
  case (Waiting j)
  with assms show ?thesis by (auto simp: rank_def split: option.splits)
next
  case (Holding j)
  with assms show ?thesis by (auto simp: rank_def run_job_def Let_def split: prod.splits option.splits)
next
  case (Ran j r)
  with assms show ?thesis by (auto simp: rank_def log_job_def Let_def split: prod.splits if_splits)
next
  case (Syncing ro l ok "is")
  with assms show ?thesis by (cases "is") (auto simp: rank_def split: prod.splits)
qed

definition work :: "Conc \<Rightarrow> nat \<times> nat" where
  "work c = (sum_list (map (fst \<circ> rank) (c_threads c)), sum_list (map (snd \<circ> rank) (c_threads c)))"

lemma sum_list_update_less:
  fixes f :: "'a \<Rightarrow> nat"
  assumes "i < length xs"
  shows "f x < f (xs ! i) \<Longrightarrow> sum_list (map f (xs[i := x])) < sum_list (map f xs)"
    and "f x = f (xs ! i) \<Longrightarrow> sum_list (map f (xs[i := x])) = sum_list (map f xs)"
  using assms by (induction xs arbitrary: i; auto split: nat.splits)+

lemma work_step:
  assumes "conc_step lib i c = Some c'"
  shows "(work c', work c) \<in> less_than <*lex*> less_than"
  using assms
proof (cases rule: conc_stepE)
  case (1 t c1)
  note s = sum_list_update_less [OF 1(1)]
  from rank_step [OF 1(2)] show ?thesis
  proof
    assume "fst (rank t) < fst (rank (c_threads c ! i))"
    with s(1) [of "fst \<circ> rank" t] 1(3) show ?thesis by (simp add: work_def)
  next
    assume "fst (rank t) = fst (rank (c_threads c ! i)) \<and> snd (rank t) < snd (rank (c_threads c ! i))"
    with s(2) [of "fst \<circ> rank" t] s(1) [of "snd \<circ> rank" t] 1(3) show ?thesis by (simp add: work_def)
  qed
qed

lemma no_endless_run: "\<not> (\<forall>n. conc_step lib (sched n) (f n) = Some (f (Suc n)))"
proof
  assume "\<forall>n. conc_step lib (sched n) (f n) = Some (f (Suc n))"
  then have d: "(work (f (Suc n)), work (f n)) \<in> less_than <*lex*> less_than" for n using work_step by blast
  have "wf (less_than <*lex*> less_than)" by blast
  then obtain n where "(work (f (Suc n)), work (f n)) \<notin> less_than <*lex*> less_than"
    by (rule wf_no_infinite_down_chainE [where f = "\<lambda>n. work (f n)"])
  with d show False by blast
qed

text \<open>Every request gets one answer.\<close>

definition requests :: "Thread \<Rightarrow> nat" where
  "requests t = length (t_answers t) + (if t_phase t = Idle then 0 else 1) + length (t_todo t)"

lemma requests_step: "thread_step lib t c = Some (t', c') \<Longrightarrow> requests t' = requests t"
proof (cases "t_phase t")
  case Idle
  moreover assume "thread_step lib t c = Some (t', c')"
  ultimately obtain q qs where "t_todo t = q # qs" "t' = start_request q (t\<lparr>t_todo := qs\<rparr>) c"
    by (auto split: list.splits)
  with Idle show ?thesis by (cases q) (auto simp: requests_def split: sum.splits)
next
  case (Syncing ro l ok "is")
  moreover assume "thread_step lib t c = Some (t', c')"
  ultimately show ?thesis by (cases "is") (auto simp: requests_def split: prod.splits)
qed (auto simp: requests_def run_job_def log_job_def Let_def split: prod.splits option.splits if_splits)

lemma requests_reach:
  assumes "run_schedule lib is c = Some c'"
  shows "map requests (c_threads c') = map requests (c_threads c)"
proof -
  have "map requests (c_threads c'') = map requests (c_threads c)"
    if "conc_step lib i c' = Some c''" "map requests (c_threads c') = map requests (c_threads c)" for i c' c''
    using that(1)
  proof (cases rule: conc_stepE)
    case (1 t c1)
    have "requests t = requests (c_threads c' ! i)" by (rule requests_step [OF 1(2)])
    then have "map requests ((c_threads c')[i := t]) = map requests (c_threads c')"
      using 1(1) by (simp add: map_update list_update_same_conv)
    with that(2) 1(3) show ?thesis by simp
  qed
  then show ?thesis
    using run_schedule_keeps [of "\<lambda>d. map requests (c_threads d) = map requests (c_threads c)" lib "is" c c'] assms by blast
qed

section \<open>A call that is not disturbed\<close>

text \<open>The loop of \<open>syncWAL\<close>, one shard after the other, is \<open>syncWAL\<close>.\<close>

fun sync_shards :: "nat list \<Rightarrow> bool \<Rightarrow> ShardManager \<Rightarrow> bool \<times> ShardManager" where
  "sync_shards [] ok mgr = (ok, mgr)"
| "sync_shards (i # is) ok mgr = (case sync_shard i mgr of (b, m) \<Rightarrow> sync_shards is (b \<and> ok) m)"

lemma sync_shards_from:
  "n \<le> length (mgr_shards mgr) \<Longrightarrow> sync_shards [n..<length (mgr_shards mgr)] ok mgr =
     (ok \<and> list_all (\<lambda>sh. fst (sh_sync sh)) (drop n (mgr_shards mgr)),
      mgr\<lparr>mgr_shards := take n (mgr_shards mgr) @ map (\<lambda>sh. snd (sh_sync sh)) (drop n (mgr_shards mgr))\<rparr>)"
proof (induction "length (mgr_shards mgr) - n" arbitrary: n ok mgr)
  case 0
  then show ?case by simp
next
  case (Suc d)
  let ?shs = "mgr_shards mgr" and ?sh = "mgr_shards mgr ! n"
  let ?m = "mgr\<lparr>mgr_shards := (mgr_shards mgr)[n := snd (sh_sync (mgr_shards mgr ! n))]\<rparr>"
  have n: "n < length ?shs" using Suc.hyps(2) by simp
  then have u: "[n..<length ?shs] = n # [Suc n..<length (mgr_shards ?m)]" by (simp add: upt_conv_Cons)
  have s: "sync_shard n mgr = (fst (sh_sync ?sh), ?m)" by (simp add: sync_shard_def split: prod.splits)
  have d: "drop n ?shs = ?sh # drop (Suc n) ?shs" using n by (simp add: Cons_nth_drop_Suc)
  have "sync_shards [n..<length ?shs] ok mgr = sync_shards [Suc n..<length (mgr_shards ?m)] (fst (sh_sync ?sh) \<and> ok) ?m"
    unfolding u by (simp add: s)
  also have "\<dots> = (fst (sh_sync ?sh) \<and> ok \<and> list_all (\<lambda>sh. fst (sh_sync sh)) (drop (Suc n) ?shs),
      ?m\<lparr>mgr_shards := take (Suc n) (mgr_shards ?m) @ map (\<lambda>sh. snd (sh_sync sh)) (drop (Suc n) ?shs)\<rparr>)"
    using Suc.hyps(1) [of ?m "Suc n" "fst (sh_sync ?sh) \<and> ok"] Suc.hyps(2) n by simp
  finally show ?case using n by (simp add: d take_Suc_conv_app_nth take_update_swap list_update_append) auto
qed

lemma sync_shards_all: "sync_shards [0..<length (mgr_shards mgr)] True mgr = syncWAL mgr"
  using sync_shards_from [of 0 mgr True] by (simp add: syncWAL_def Let_def list_all_iff comp_def)

lemma sync_alone:
  assumes "i < length (c_threads c)" and "t_phase (c_threads c ! i) = Syncing ro l ok is"
  shows "run_schedule lib (replicate (Suc (length is)) i) c =
     (case sync_shards is ok (shardManager (c_db c)) of (ok1, m) \<Rightarrow>
        Some ((unlock l (c\<lparr>c_db := (c_db c)\<lparr>shardManager := m\<rparr>\<rparr>))\<lparr>c_threads := (c_threads c)[i :=
          answer (sync_answer ro ok1) ((c_threads c ! i)\<lparr>t_unsynced := (if ok1 then [] else t_unsynced (c_threads c ! i))\<rparr>)]\<rparr>))"
  using assms
proof (induction "is" arbitrary: ok c)
  case Nil
  then show ?case by (simp add: conc_step_def)
next
  case (Cons k ks)
  obtain b m where s: "sync_shard k (shardManager (c_db c)) = (b, m)" by (cases "sync_shard k (shardManager (c_db c))")
  let ?t = "c_threads c ! i"
  let ?t1 = "?t\<lparr>t_phase := Syncing ro l (b \<and> ok) ks\<rparr>"
  let ?c1 = "c\<lparr>c_db := (c_db c)\<lparr>shardManager := m\<rparr>, c_threads := (c_threads c)[i := ?t1]\<rparr>"
  have 1: "conc_step lib i c = Some ?c1" using Cons.prems s by (simp add: conc_step_def)
  have "run_schedule lib (replicate (Suc (length (k # ks))) i) c = run_schedule lib (replicate (Suc (length ks)) i) ?c1"
    using 1 by simp
  also have "\<dots> = (case sync_shards ks (b \<and> ok) m of (ok1, m1) \<Rightarrow>
      Some ((unlock l (c\<lparr>c_db := (c_db c)\<lparr>shardManager := m1\<rparr>\<rparr>))\<lparr>c_threads := (c_threads c)[i :=
        answer (sync_answer ro ok1) (?t\<lparr>t_unsynced := (if ok1 then [] else t_unsynced ?t)\<rparr>)]\<rparr>))"
    using Cons.IH [of ?c1 "b \<and> ok"] Cons.prems(1)
    by (auto simp: answer_def unlock_def split: prod.splits option.splits)
  finally show ?case using s by simp
qed

text \<open>The thread \<open>i\<close> runs alone from \<open>c\<close> until its call returns with the answer \<open>a\<close>, the database \<open>z\<close> and the
  mutex \<open>m\<close>.\<close>

definition returns :: "Lib \<Rightarrow> nat \<Rightarrow> Conc \<Rightarrow> answer \<Rightarrow> ZestDB \<Rightarrow> SharedMutex \<Rightarrow> bool" where
  "returns lib i c a z m \<longleftrightarrow> (\<exists>n c' t. run_schedule lib (replicate n i) c = Some c' \<and> c_db c' = z \<and> c_mtx c' = m
     \<and> c_threads c' = (c_threads c)[i := t] \<and> t_phase t = Idle \<and> t_todo t = t_todo (c_threads c ! i)
     \<and> t_answers t = t_answers (c_threads c ! i) @ [a])"

lemma returns_now:
  assumes "conc_step lib i c = Some c'" and "c_threads c' = (c_threads c)[i := answer a t]"
    and "t_todo t = t_todo (c_threads c ! i)" and "t_answers t = t_answers (c_threads c ! i)"
  shows "returns lib i c a (c_db c') (c_mtx c')"
  using assms unfolding returns_def by (intro exI [of _ "Suc 0"]) auto

lemma returns_later:
  assumes "conc_step lib i c = Some c1" and "returns lib i c1 a z m" and "c_threads c1 = (c_threads c)[i := t1]"
    and "i < length (c_threads c)" and "t_todo t1 = t_todo (c_threads c ! i)" and "t_answers t1 = t_answers (c_threads c ! i)"
  shows "returns lib i c a z m"
proof -
  obtain n c' t where "run_schedule lib (replicate n i) c1 = Some c'" "c_db c' = z" "c_mtx c' = m"
    "c_threads c' = (c_threads c1)[i := t]" "t_phase t = Idle" "t_todo t = t_todo (c_threads c1 ! i)"
    "t_answers t = t_answers (c_threads c1 ! i) @ [a]" using assms(2) by (auto simp: returns_def)
  then show ?thesis using assms(1,3-6) unfolding returns_def by (intro exI [of _ "Suc n"]) auto
qed

lemma returns_sync:
  assumes "i < length (c_threads c)" and "t_phase (c_threads c ! i) = Syncing ro l True (shards_of c)"
    and "z_syncWAL (c_db c) = (ok, z)"
  shows "returns lib i c (sync_answer ro ok) z (case l of None \<Rightarrow> c_mtx c | Some k \<Rightarrow> release k (c_mtx c))"
proof -
  have s: "sync_shards (shards_of c) True (shardManager (c_db c)) = (ok, shardManager z)" "z = (c_db c)\<lparr>shardManager := shardManager z\<rparr>"
    using assms(3) by (auto simp: sync_shards_all z_syncWAL_def on_mgr_def split: prod.splits)
  let ?t = "answer (sync_answer ro ok) ((c_threads c ! i)\<lparr>t_unsynced := (if ok then [] else t_unsynced (c_threads c ! i))\<rparr>)"
  let ?c' = "(unlock l (c\<lparr>c_db := z\<rparr>))\<lparr>c_threads := (c_threads c)[i := ?t]\<rparr>"
  have "run_schedule lib (replicate (Suc (length (shards_of c))) i) c = Some ?c'"
    unfolding sync_alone [OF assms(1,2), of lib] s(1) using s(2) by simp
  then show ?thesis unfolding returns_def
    by (intro exI [of _ "Suc (length (shards_of c))"] exI [of _ ?c'] exI [of _ ?t]) (cases l; simp)
qed

lemma returns_log:
  assumes "i < length (c_threads c)" and "t_phase (c_threads c ! i) = Ran j r"
    and "log_write lib (isWrite (j_cmd j)) (j_words j) (j_command j) (j_sync j) r (c_db c) = (r', z)"
  shows "returns lib i c (Answered (Some r')) z (release (lock_of (j_cmd j)) (c_mtx c))"
proof (cases "to_log j r (c_db c)")
  case False
  let ?c' = "(unlock (Some (lock_of (j_cmd j))) c)\<lparr>c_threads := (c_threads c)[i := answer (Answered (Some r)) (c_threads c ! i)]\<rparr>"
  have "conc_step lib i c = Some ?c'" using assms(1,2) False by (simp add: conc_step_def log_job_def Let_def)
  from returns_now [OF this, of "Answered (Some r)" "c_threads c ! i"] False assms(3) show ?thesis
    by (auto simp: log_write_def to_log_def)
next
  case True
  obtain ok z1 where a: "z_appendToWAL lib (job_key j) (j_command j) (c_db c) = (ok, z1)"
    by (cases "z_appendToWAL lib (job_key j) (j_command j) (c_db c)")
  let ?t = "(c_threads c ! i)\<lparr>t_unsynced := t_unsynced (c_threads c ! i) @ [job_key j]\<rparr>" and ?l = "Some (lock_of (j_cmd j))"
  show ?thesis
  proof (cases "ok \<and> j_sync j")
    case False
    let ?r = "if ok then r else res Error WAL_WRITE_FAILED (affectedRows r)"
    let ?c' = "(unlock ?l (c\<lparr>c_db := z1\<rparr>))\<lparr>c_threads := (c_threads c)[i := answer (Answered (Some ?r)) ?t]\<rparr>"
    have "conc_step lib i c = Some ?c'" using assms(1,2) True False a by (auto simp: conc_step_def log_job_def Let_def)
    from returns_now [OF this, of "Answered (Some ?r)" ?t] True False assms(3) a show ?thesis
      by (auto simp: log_write_def to_log_def job_key_def split: if_splits)
  next
    case sync: True
    let ?t1 = "?t\<lparr>t_phase := Syncing (Some r) ?l True (shards_of (c\<lparr>c_db := z1\<rparr>))\<rparr>"
    let ?c1 = "c\<lparr>c_db := z1, c_threads := (c_threads c)[i := ?t1]\<rparr>"
    obtain ok2 z2 where s: "z_syncWAL z1 = (ok2, z2)" by (cases "z_syncWAL z1")
    have 1: "conc_step lib i c = Some ?c1" using assms(1,2) True sync a by (simp add: conc_step_def log_job_def Let_def)
    have "r' = (if ok2 then r else res Error WAL_WRITE_FAILED (affectedRows r))" "z = z2"
      using assms(3) True sync a s by (auto simp: log_write_def to_log_def job_key_def)
    with returns_sync [of i ?c1 "Some r" ?l ok2 z2 lib] assms(1) s
    have "returns lib i ?c1 (Answered (Some r')) z (release (lock_of (j_cmd j)) (c_mtx c))"
      by (simp add: sync_answer_def)
    with 1 show ?thesis by (rule returns_later [where ?t1.0 = ?t1]) (use assms(1) in simp_all)
  qed
qed

lemma acquire_release: "readers m = 0 \<Longrightarrow> \<not> writer m \<Longrightarrow> \<exists>m'. acquire k m = Some m' \<and> release k m' = m"
  by (cases k) auto

lemma execCmd_parsed:
  "execCmd lib line role sync z =
     (case parse_command line role sync of
        Inl r \<Rightarrow> (Some r, z)
      | Inr j \<Rightarrow> (case run_cmd lib (j_cmd j) (j_sv j) (j_words j) z of
          (None, z1) \<Rightarrow> (None, z1)
        | (Some r, z1) \<Rightarrow> apfst Some (log_write lib (isWrite (j_cmd j)) (j_words j) line sync r z1)))"
  by (cases "trim_command line") (simp_all add: execCmd_def parse_command_def Let_def split: prod.splits option.splits)

lemma parse_command_job: "parse_command line role sync = Inr j \<Longrightarrow> j_command j = line \<and> j_sync j = sync"
  by (auto simp: parse_command_def Let_def split: option.splits if_splits)

text \<open>Alone, the steps of a thread do what \<open>execCmd\<close> does.\<close>

lemma returns_job:
  assumes "i < length (c_threads c)" and "t_phase (c_threads c ! i) = Waiting j"
    and "readers (c_mtx c) = 0" and "\<not> writer (c_mtx c)"
    and "(case run_cmd lib (j_cmd j) (j_sv j) (j_words j) (c_db c) of
            (None, z1) \<Rightarrow> (None, z1)
          | (Some r, z1) \<Rightarrow> apfst Some (log_write lib (isWrite (j_cmd j)) (j_words j) (j_command j) (j_sync j) r z1)) = (ro, z)"
  shows "returns lib i c (Answered ro) z (c_mtx c)"
proof -
  let ?t = "c_threads c ! i" and ?l = "lock_of (j_cmd j)"
  obtain m where m: "acquire ?l (c_mtx c) = Some m" "release ?l m = c_mtx c" using acquire_release [OF assms(3,4)] by blast
  let ?c1 = "c\<lparr>c_mtx := m, c_threads := (c_threads c)[i := ?t\<lparr>t_phase := Holding j\<rparr>]\<rparr>"
  have 1: "conc_step lib i c = Some ?c1" using assms(1,2) m(1) by (simp add: conc_step_def)
  obtain ro1 z1 where x: "run_cmd lib (j_cmd j) (j_sv j) (j_words j) (c_db c) = (ro1, z1)"
    by (cases "run_cmd lib (j_cmd j) (j_sv j) (j_words j) (c_db c)")
  have "returns lib i ?c1 (Answered ro) z (c_mtx c)"
  proof (cases ro1)
    case None
    let ?c2 = "(unlock (Some ?l) (?c1\<lparr>c_db := z1, c_flushed := (if flushes (j_cmd j) (c_db c) then z_db lib z1 else c_flushed c)\<rparr>))
      \<lparr>c_threads := (c_threads ?c1)[i := answer (Answered None) (?t\<lparr>t_phase := Holding j\<rparr>)]\<rparr>"
    have "conc_step lib i ?c1 = Some ?c2" using assms(1) x None by (simp add: conc_step_def run_job_def Let_def unlock_def)
    from returns_now [OF this, of "Answered None" "?t\<lparr>t_phase := Holding j\<rparr>"] assms(1,5) x None m(2) show ?thesis
      by (simp add: unlock_def)
  next
    case (Some r)
    obtain r' where l: "log_write lib (isWrite (j_cmd j)) (j_words j) (j_command j) (j_sync j) r z1 = (r', z)" "ro = Some r'"
      using assms(5) x Some by (auto simp: apfst_def map_prod_def split: prod.splits)
    let ?t2 = "?t\<lparr>t_phase := Ran j r\<rparr>"
    let ?c2 = "?c1\<lparr>c_db := z1, c_flushed := (if flushes (j_cmd j) (c_db c) then z_db lib z1 else c_flushed c),
      c_threads := (c_threads c)[i := ?t2]\<rparr>"
    have 2: "conc_step lib i ?c1 = Some ?c2" using assms(1) x Some by (simp add: conc_step_def run_job_def Let_def)
    have "returns lib i ?c2 (Answered ro) z (c_mtx c)"
      using returns_log [of i ?c2 j r lib r' z] assms(1) l m(2) by simp
    with 2 show ?thesis by (rule returns_later [where ?t1.0 = ?t2]) (use assms(1) in simp_all)
  qed
  with 1 show ?thesis by (rule returns_later [where ?t1.0 = "?t\<lparr>t_phase := Holding j\<rparr>"]) (use assms(1) in simp_all)
qed

lemma exec_alone:
  assumes "i < length (c_threads c)" and "t_phase (c_threads c ! i) = Idle"
    and "t_todo (c_threads c ! i) = Exec line role sync # qs" and "readers (c_mtx c) = 0" and "\<not> writer (c_mtx c)"
  shows "\<exists>n c' t. run_schedule lib (replicate n i) c = Some c' \<and> c_db c' = snd (execCmd lib line role sync (c_db c))
    \<and> c_mtx c' = c_mtx c \<and> c_threads c' = (c_threads c)[i := t] \<and> t_phase t = Idle \<and> t_todo t = qs
    \<and> t_answers t = t_answers (c_threads c ! i) @ [Answered (fst (execCmd lib line role sync (c_db c)))]"
proof -
  let ?t = "c_threads c ! i"
  obtain ro z where x: "execCmd lib line role sync (c_db c) = (ro, z)" by (cases "execCmd lib line role sync (c_db c)")
  let ?t1 = "start_request (Exec line role sync) (?t\<lparr>t_todo := qs\<rparr>) c"
  let ?c1 = "c\<lparr>c_threads := (c_threads c)[i := ?t1]\<rparr>"
  have 1: "conc_step lib i c = Some ?c1" using assms(1-3) by (simp add: conc_step_def)
  show ?thesis
  proof (cases "parse_command line role sync")
    case (Inl r)
    with 1 assms(1) x show ?thesis
      by (intro exI [of _ "Suc 0"] exI [of _ ?c1] exI [of _ ?t1]) (simp add: execCmd_parsed)
  next
    case (Inr j)
    have line: "line = j_command j" "sync = j_sync j" using parse_command_job [OF Inr] by simp_all
    note y = x [unfolded execCmd_parsed Inr sum.case, unfolded line]
    from Inr have "returns lib i ?c1 (Answered ro) z (c_mtx c)"
      using returns_job [of i ?c1 j lib ro z] assms(1,4,5) y by simp
    then obtain n c' t where "run_schedule lib (replicate n i) ?c1 = Some c'" "c_db c' = z" "c_mtx c' = c_mtx c"
      "c_threads c' = (c_threads ?c1)[i := t]" "t_phase t = Idle" "t_todo t = t_todo (c_threads ?c1 ! i)"
      "t_answers t = t_answers (c_threads ?c1 ! i) @ [Answered ro]" by (auto simp: returns_def)
    with 1 assms(1) x Inr show ?thesis by (intro exI [of _ "Suc n"] exI [of _ c'] exI [of _ t]) simp
  qed
qed

end
