(* ===== verification/Writers.thy ===== *)
theory Writers
  imports Concurrent
begin

text \<open>
  What survives a crash when several threads write at the same time. Clients set, delete and get keys,
  flush and sync; no file call fails. In every state that any schedule reaches, the log of a shard and
  the map of the last flush together give the value of every key that no thread is just writing, and
  so does what of the log is on disk for every key whose writes were synced. So a new process that
  replays the logs finds every acknowledged write, however the threads were interleaved.
\<close>

section \<open>Requests of clients\<close>

datatype client_op = CWrite Role kv_write bool | CGet Role string | CFlush | CSync

fun request_of :: "client_op \<Rightarrow> request" where
  "request_of (CWrite role w sync) = Exec (line_of w) role sync"
| "request_of (CGet role k) = Exec (get_line k) role True"
| "request_of CFlush = Exec ''flush'' Admin True"
| "request_of CSync = SyncLogs"

fun good_op :: "Lib \<Rightarrow> ZestDB \<Rightarrow> nat \<Rightarrow> client_op \<Rightarrow> bool" where
  "good_op lib z mx (CWrite role w sync) \<longleftrightarrow> role \<noteq> Read \<and> accepted lib z w \<and> write_ok w \<and> write_size w \<le> mx \<and> length (line_of w) < 2 ^ 32"
| "good_op lib z mx (CGet role k) \<longleftrightarrow> plain_word k"
| "good_op lib z mx CFlush \<longleftrightarrow> True"
| "good_op lib z mx CSync \<longleftrightarrow> True"

lemma good_op_only: "mgr_only z z' \<Longrightarrow> good_op lib z' mx op = good_op lib z mx op"
  by (cases op) (auto simp: accepted_only)

text \<open>The jobs that the requests become.\<close>

fun write_cmd :: "kv_write \<Rightarrow> string" where
  "write_cmd (WSet k v) = ''s''"
| "write_cmd (WDel k) = ''d''"

definition write_job :: "kv_write \<Rightarrow> bool \<Rightarrow> job" where
  "write_job w sync = \<lparr>j_command = line_of w, j_cmd = write_cmd w, j_sv = line_of w, j_words = words_of (line_of w), j_sync = sync\<rparr>"

definition get_job :: "string \<Rightarrow> job" where
  "get_job k = \<lparr>j_command = get_line k, j_cmd = ''g'', j_sv = get_line k, j_words = [(0, ''get''), (4, k)], j_sync = True\<rparr>"

definition flush_job :: job where
  "flush_job = \<lparr>j_command = ''flush'', j_cmd = ''f'', j_sv = ''flush'', j_words = [(0, ''flush'')], j_sync = True\<rparr>"

lemma write_words:
  assumes "write_ok w"
  shows "trim_command (line_of w) = Some (line_of w)" and "2 \<le> length (words_of (line_of w))"
    and "word_at (words_of (line_of w)) 1 = write_key w"
    and "alias_of (toLowerStr (snd (hd (words_of (line_of w))))) = write_cmd w"
proof -
  have "trim_command (line_of w) = Some (line_of w) \<and> 2 \<le> length (words_of (line_of w))
    \<and> word_at (words_of (line_of w)) 1 = write_key w \<and> alias_of (toLowerStr (snd (hd (words_of (line_of w))))) = write_cmd w"
  proof (cases w)
    case (WSet k v)
    with assms have "plain_word k" "plain_value v" by auto
    then show ?thesis using set_line_words [of k v] command_names(5) by (auto simp: WSet)
  next
    case (WDel k)
    with assms have "plain_word k" by simp
    from one_key_line [OF command_names(3) this] command_names(6) show ?thesis
      by (simp add: WDel del_line_def)
  qed
  then show "trim_command (line_of w) = Some (line_of w)" "2 \<le> length (words_of (line_of w))"
    "word_at (words_of (line_of w)) 1 = write_key w"
    "alias_of (toLowerStr (snd (hd (words_of (line_of w))))) = write_cmd w" by auto
qed

lemma parse_write:
  assumes "write_ok w" and "role \<noteq> Read"
  shows "parse_command (line_of w) role sync = Inr (write_job w sync)"
proof -
  have "permitted (write_cmd w) role" using assms(2) by (cases w) (auto simp: permitted_def isWrite_def isAdmin_def)
  moreover have "words_of (line_of w) \<noteq> []" using write_words(2) [OF assms(1)] by auto
  ultimately show ?thesis using write_words [OF assms(1)] by (simp add: parse_command_def write_job_def)
qed

lemma parse_get: "plain_word k \<Longrightarrow> parse_command (get_line k) role True = Inr (get_job k)"
  using one_key_line [OF command_names(1), of k] command_names(4)
  by (simp add: parse_command_def get_line_def get_job_def permitted_def isWrite_def isAdmin_def)

lemma parse_flush: "parse_command ''flush'' Admin True = Inr flush_job"
  by code_simp

lemma job_fields [simp]:
  "j_cmd (write_job w sync) = write_cmd w" "j_command (write_job w sync) = line_of w" "j_sync (write_job w sync) = sync"
  "j_cmd (get_job k) = ''g''" "j_cmd flush_job = ''f''" "isWrite (write_cmd w)" "lock_of (write_cmd w) = SharedLock"
  "\<not> isWrite ''g''" "\<not> isWrite ''f''" "lock_of ''g'' = SharedLock" "lock_of ''f'' = UniqueLock"
  by (cases w; simp add: write_job_def get_job_def flush_job_def isWrite_def lock_of_def)+

lemma write_job_key [simp]: "write_ok w \<Longrightarrow> job_key (write_job w sync) = write_key w"
  using write_words(3) by (simp add: job_key_def write_job_def)

fun z_write :: "Lib \<Rightarrow> kv_write \<Rightarrow> ZestDB \<Rightarrow> ResultType \<times> ZestDB" where
  "z_write lib (WSet k v) z = z_set lib k v z"
| "z_write lib (WDel k) z = z_del lib k z"

lemma run_write_job:
  assumes "write_ok w"
  shows "run_cmd lib (j_cmd (write_job w s)) (j_sv (write_job w s)) (j_words (write_job w s)) z = apfst Some (z_write lib w z)"
proof (cases w)
  case (WSet k v)
  with assms have p: "plain_word k" "plain_value v" by auto
  obtain x ws where ws: "words_of (set_line k v) = (0, ''set'') # (4, k) # (5 + length k, x) # ws"
    using set_line_words(2) [OF p] by blast
  have "set_line k v = (''set '' @ k @ '' '') @ v" "length (''set '' @ k @ '' '') = 5 + length k" by (simp_all add: set_line_def)
  then have "drop (5 + length k) (set_line k v) = v" by (metis append_eq_conv_conj)
  with ws show ?thesis by (simp add: run_cmd_def exec_set_def write_job_def WSet)
next
  case (WDel k)
  with assms one_key_line(2) [OF command_names(3), of k] show ?thesis
    by (simp add: run_cmd_def exec_del_def write_job_def WDel del_line_def)
qed

lemma run_get_job: "run_cmd lib (j_cmd (get_job k)) (j_sv (get_job k)) (j_words (get_job k)) z = apfst Some (z_get lib k z)"
  by (simp add: run_cmd_def exec_get_def get_job_def)

lemma run_flush_job: "run_cmd lib (j_cmd flush_job) (j_sv flush_job) (j_words flush_job) z = (Some (res Success FLUSH_SUCCESSFUL 0), z_flush z)"
  by (simp add: run_cmd_def flush_job_def)

section \<open>Running a command\<close>

lemma z_write_runs:
  assumes "z_inv lib z" and "\<not> replaying z" and "mgr_ready (Suc n) mx (shardManager z)" and "mx < 2 ^ 64"
    and "good_op lib z mx (CWrite role w sync)" and "z_write lib w z = (r, z1)"
  shows "mgr_only z z1" and "z_inv lib z1" and "mgr_ready n mx (shardManager z1)"
    and "same_logs (shardManager z) (shardManager z1)" and "z_db lib z1 = apply_write w (z_db lib z)"
    and "code r = Error \<Longrightarrow> z_db lib z1 = z_db lib z"
proof -
  have m: "mgr_inv (hash lib) (shardManager z)" using assms(1) by (simp add: z_inv_def)
  have "mgr_only z z1 \<and> z_inv lib z1 \<and> mgr_ready n mx (shardManager z1) \<and> same_logs (shardManager z) (shardManager z1)
    \<and> z_db lib z1 = apply_write w (z_db lib z) \<and> (code r = Error \<longrightarrow> z_db lib z1 = z_db lib z)"
  proof (cases w)
    case (WSet k v)
    with assms(5) have ok: "length k \<le> MAX_KEY_SIZE" "v \<noteq> ''''" "length v \<le> mx" "length v < 2 ^ 32"
      and acc: "key_accepted z k" "value_accepted lib z v" by (auto simp: plain_value_def)
    have s: "z_set lib k v z = (r, z1)" using assms(6) WSet by simp
    have o: "on_mgr (mgr_set (hash lib) k v) z = (r, z1)" using z_set_cases [OF s] acc assms(2) by auto
    note o2 = on_mgr_only [OF o]
    note f = mgr_set_ready [OF m assms(3) ok assms(4) conjunct2 [OF o2]]
    from f z_inv_only [OF conjunct1 [OF o2] assms(1) f(3)] mgr_set_logs [OF conjunct2 [OF o2]] o2 show ?thesis
      by (simp add: WSet z_db_def)
  next
    case (WDel k)
    with assms(5) have acc: "validateKey z k" "\<not> readOnly (settings z)" by auto
    have s: "z_del lib k z = (r, z1)" using assms(6) WDel by simp
    have o: "on_mgr (mgr_del (hash lib) k) z = (r, z1)" using s acc by (simp add: z_del_def Let_def)
    note o2 = on_mgr_only [OF o]
    note d = mgr_del_spec [OF m conjunct2 [OF o2]]
    have "db (hash lib) (shardManager z) k = None" if "code r = Error" using d(3) that by (auto split: if_splits)
    then have "db (hash lib) (shardManager z1) = db (hash lib) (shardManager z)" if "code r = Error"
      using d(2) that by auto
    with d z_inv_only [OF conjunct1 [OF o2] assms(1) d(1)] mgr_del_logs [OF conjunct2 [OF o2]] o2
      mgr_del_ready [OF m assms(3,4) conjunct2 [OF o2]] show ?thesis by (simp add: WDel z_db_def)
  qed
  then show "mgr_only z z1" "z_inv lib z1" "mgr_ready n mx (shardManager z1)"
    "same_logs (shardManager z) (shardManager z1)" "z_db lib z1 = apply_write w (z_db lib z)"
    "code r = Error \<Longrightarrow> z_db lib z1 = z_db lib z" by auto
qed

lemma sh_get_wal: "sh_wal (snd (sh_get k sh)) = sh_wal sh" "sh_settings (snd (sh_get k sh)) = sh_settings sh"
  by (auto simp: sh_get_def sh_read_def sh_put_def record_stats_def Let_def split: prod.splits)

lemma z_get_runs:
  assumes "z_inv lib z" and "mgr_ready (Suc n) mx (shardManager z)" and "mx < 2 ^ 64" and "z_get lib k z = (r, z1)"
  shows "mgr_only z z1" and "z_inv lib z1" and "mgr_ready n mx (shardManager z1)"
    and "same_logs (shardManager z) (shardManager z1)" and "z_db lib z1 = z_db lib z"
proof -
  note g = z_get_spec(1-3) [OF assms(1,4)]
  show "mgr_only z z1" "z_inv lib z1" "z_db lib z1 = z_db lib z" by (rule g)+
  have m: "mgr_inv (hash lib) (shardManager z)" using assms(1) by (simp add: z_inv_def)
  have "mgr_ready n mx (shardManager z1) \<and> same_logs (shardManager z) (shardManager z1)"
  proof (cases "validateKey z k")
    case True
    let ?i = "getShardId (hash lib) (shardManager z) k"
    let ?sh = "mgr_shards (shardManager z) ! ?i"
    have o: "on_shard ?i (sh_get k) (shardManager z) = (r, shardManager z1)"
      using assms(4) True by (auto simp: z_get_def on_mgr_def mgr_get_def split: prod.splits)
    have x: "sh_get k ?sh = (fst (sh_get k ?sh), run_op (OpGet k) ?sh)" by simp
    from mgr_ready_step [OF assms(2) getShardId_less [OF m] x _ assms(3) o] on_shard_logs [OF o sh_get_wal]
    show ?thesis by simp
  next
    case False
    with assms(2,4) mgr_ready_less [of "Suc n" mx _ n] show ?thesis by (auto simp: z_get_def same_logs_def)
  qed
  then show "mgr_ready n mx (shardManager z1)" "same_logs (shardManager z) (shardManager z1)" by auto
qed

text \<open>A flush keeps a shard ready, also when a segment could not be flushed.\<close>

lemma flush_segments_flags:
  "flush_segments s gs = (ok, gs', s') \<Longrightarrow> list_all (seg_flag \<circ> snd) gs \<Longrightarrow> list_all (seg_flag \<circ> snd) gs'"
proof (induction gs arbitrary: s ok gs')
  case (Cons p gs)
  obtain i g where p: "p = (i, g)" by (cases p)
  obtain b g' s1 where f: "seg_flush s g = (b, g', s1)" by (cases "seg_flush s g")
  obtain bs gs1 where r: "flush_segments s1 gs = (bs, gs1, s')" "gs' = (i, g') # gs1"
    using Cons.prems(1) p f by (auto split: prod.splits)
  obtain b1 x s2 where x: "flush_and_fsync s (segment g) = (b1, x, s2)" by (cases "flush_and_fsync s (segment g)")
  have "seg_flag g'"
    using f x Cons.prems(2) flush_and_fsync_frame(1,3) [OF x]
    by (auto simp: p seg_flag_def seg_flush_def on_disk_def split: if_splits)
  with Cons.IH [OF r(1)] Cons.prems(2) r(2) show ?case by simp
qed simp

lemma flushData_ready:
  assumes "ready n sh"
  shows "ready n (snd (flushData sh))" and "sh_settings (snd (flushData sh)) = sh_settings sh"
proof -
  have r: "shard_inv sh" "flags_ok sh" "im_logged (indexManager sh)" "all_ok (sh_ios sh)" "ids_for n (storageManager sh)"
    "dir_clean (storageManager sh)" using assms by (auto simp: ready_def sound_files_def)
  obtain ok sm s where sm: "sm_flush (sh_ios sh) (storageManager sh) = (ok, sm, s)"
    by (cases "sm_flush (sh_ios sh) (storageManager sh)")
  obtain ok2 im s2 where im: "im_flush s (indexManager sh) = (ok2, im, s2)" by (cases "im_flush s (indexManager sh)")
  have sh': "snd (flushData sh) = (if ok then sh\<lparr>storageManager := sm, indexManager := im, sh_ios := s2\<rparr>
      else sh\<lparr>storageManager := sm, sh_ios := s\<rparr>)"
    using sm im by (simp add: flushData_def sh_sm_flush_def sh_im_flush_def)
  have a: "all_ok s" using sm_flush_calm [OF sm r(4)] .
  note il = im_flush_logged [OF r(3) a im]
  have fl: "sm_flags sm" "seg_dir sm = seg_dir (storageManager sh)" "latestSegmentId sm = latestSegmentId (storageManager sh)"
    using sm r(2) flush_segments_flags [of "sh_ios sh" "segments (storageManager sh)"]
    by (fastforce simp: sm_flush_def flags_ok_alt sm_flags_def list_all_iff split: prod.splits)+
  have "im_canFlush im \<or> on_disk (im_index im)"
    using il im r(2) by (auto simp: im_flush_def flags_ok_def on_disk_def split: prod.splits if_splits)
  with fl r(2) have "flags_ok (snd (flushData sh))" by (simp add: sh' flags_ok_alt)
  moreover have "im_logged (indexManager (snd (flushData sh)))" "all_ok (sh_ios (snd (flushData sh)))"
    using il a r(3) by (simp_all add: sh')
  ultimately show "ready n (snd (flushData sh))"
    using flushData_frame [OF r(1)] r(5,6) fl by (simp add: ready_def sound_files_def sh' ids_for_def dir_clean_def)
  show "sh_settings (snd (flushData sh)) = sh_settings sh" by (simp add: sh')
qed

section \<open>The logs\<close>

text \<open>A logged write with its number, and the log that a shard should have for a list of them.\<close>

type_synonym logged = "kv_write \<times> u64"

definition entry :: "logged \<Rightarrow> WalEntry" where
  "entry e = \<lparr>we_cmd = line_of (fst e), we_seq = snd e\<rparr>"

text \<open>The entries of the log of shard \<open>i\<close> are writes to keys of that shard, numbered upwards and below \<open>q\<close>.\<close>

definition entries_ok :: "Lib \<Rightarrow> nat \<Rightarrow> ShardManager \<Rightarrow> nat \<Rightarrow> logged list \<Rightarrow> bool" where
  "entries_ok lib mx mgr i es \<longleftrightarrow> list_all (\<lambda>(w, s). write_ok w \<and> write_size w \<le> mx \<and> length (line_of w) < 2 ^ 32
     \<and> getShardId (hash lib) mgr (write_key w) = i \<and> s < mgr_nextSeq mgr) es \<and> sorted_wrt (<) (map snd es)"

text \<open>The log of a shard: \<open>xs\<close> in the file as the process sees it, \<open>ys\<close> on disk. A log that is not dirty is
  on disk, or was emptied by a flush, which is not synced.\<close>

definition log_is :: "WAL \<Rightarrow> logged list \<Rightarrow> logged list \<Rightarrow> bool" where
  "log_is w xs ys \<longleftrightarrow> wal_logged w (map entry xs) \<and> fs_good (wal w) \<and> fs_disk (wal w) = wal_bytes (map entry ys)
     \<and> (dirty w \<or> ys = xs \<or> xs = [])"

definition logs_are :: "Lib \<Rightarrow> nat \<Rightarrow> ShardManager \<Rightarrow> logged list list \<Rightarrow> logged list list \<Rightarrow> bool" where
  "logs_are lib mx mgr L D \<longleftrightarrow> length L = length (mgr_shards mgr) \<and> length D = length (mgr_shards mgr)
     \<and> (\<forall>i < length (mgr_shards mgr). log_is (sh_wal (mgr_shards mgr ! i)) (L ! i) (D ! i)
          \<and> fsyncOnWrite (sh_settings (mgr_shards mgr ! i)) \<and> entries_ok lib mx mgr i (L ! i) \<and> entries_ok lib mx mgr i (D ! i))"

lemma getShardId_cong: "length (mgr_shards mgr') = length (mgr_shards mgr) \<Longrightarrow> getShardId h mgr' = getShardId h mgr"
  by (simp add: getShardId_def fun_eq_iff)

lemma entries_ok_Nil [simp]: "entries_ok lib mx mgr i []"
  by (simp add: entries_ok_def)

lemma entries_ok_mono:
  assumes "entries_ok lib mx mgr i es" and "length (mgr_shards mgr') = length (mgr_shards mgr)" and "mgr_nextSeq mgr \<le> mgr_nextSeq mgr'"
  shows "entries_ok lib mx mgr' i es"
  using assms(1,3) getShardId_cong [OF assms(2)] unfolding entries_ok_def
  by (fastforce simp: list_all_iff intro: less_le_trans)

lemma logs_are_same:
  assumes "same_logs mgr mgr'" and "logs_are lib mx mgr L D"
  shows "logs_are lib mx mgr' L D"
proof -
  note n = same_logs_length [OF assms(1)]
  have "sh_wal (mgr_shards mgr' ! i) = sh_wal (mgr_shards mgr ! i) \<and> sh_settings (mgr_shards mgr' ! i) = sh_settings (mgr_shards mgr ! i)"
    if "i < length (mgr_shards mgr)" for i
    using assms(1) that n unfolding same_logs_def by (metis nth_map)
  with assms n show ?thesis by (auto simp: logs_are_def same_logs_def intro: entries_ok_mono)
qed

lemma logs_are_append:
  assumes "logs_are lib mx mgr L D" and "mgr_inv (hash lib) mgr" and "mgr_ready n mx mgr" and "write_ok w"
    and "write_size w \<le> mx" and "length (line_of w) < 2 ^ 32" and "unat (mgr_nextSeq mgr) + 1 < 2 ^ 64"
    and "appendToWAL (hash lib) (write_key w) (line_of w) mgr = (ok, mgr')"
  defines "i \<equiv> getShardId (hash lib) mgr (write_key w)"
  shows "ok" and "logs_are lib mx mgr' (L[i := L ! i @ [(w, mgr_nextSeq mgr)]]) D" and "mgr_ready n mx mgr'"
    and "mgr_nextSeq mgr' = mgr_nextSeq mgr + 1" and "length (mgr_shards mgr') = length (mgr_shards mgr)"
proof -
  let ?sh = "mgr_shards mgr ! i" and ?e = "(w, mgr_nextSeq mgr)"
  have i: "i < length (mgr_shards mgr)" unfolding i_def by (rule getShardId_less [OF assms(2)])
  have l: "log_is (sh_wal ?sh) (L ! i) (D ! i)" using assms(1) i by (simp add: logs_are_def)
  have wl: "wal_logged (sh_wal ?sh) (map entry (L ! i))" using l by (simp add: log_is_def)
  have io: "all_ok (sh_ios ?sh)" using mgr_ready_ios [OF assms(3)] i by (simp add: list_all_length)
  obtain q w' s' where a: "wal_append (sh_ios ?sh) (line_of w) (mgr_nextSeq mgr) (sh_wal ?sh) = (ok, q, w', s')"
    and m: "mgr' = mgr\<lparr>mgr_shards := (mgr_shards mgr)[i := ?sh\<lparr>sh_wal := w', sh_ios := s'\<rparr>], mgr_nextSeq := q\<rparr>"
    using assms(8) by (auto simp: appendToWAL_def Let_def i_def split: prod.splits)
  note f = wal_append_logged [OF wl assms(6) io a]
  show ok: "ok" by (rule f(1))
  show q: "mgr_nextSeq mgr' = mgr_nextSeq mgr + 1" "length (mgr_shards mgr') = length (mgr_shards mgr)" using f(2) by (simp_all add: m)
  show "mgr_ready n mx mgr'"
    using assms(3) i wal_ready_frame [OF f(3)] by (auto simp: mgr_ready_def m list_all_length nth_list_update)
  have "fs_disk (wal w') = fs_disk (wal (sh_wal ?sh))" "fs_good (wal w')" "dirty w'"
    using a ok fs_append_all_ok [of "fs_clear (wal (sh_wal ?sh))" "sh_ios ?sh" "wal_parts (line_of w) (mgr_nextSeq mgr)"] io wl
    by (auto simp: wal_append_def wal_logged_def fs_clear_def split: if_splits prod.splits)
  with l f(4) have new: "log_is w' (L ! i @ [?e]) (D ! i)" by (simp add: log_is_def entry_def)
  have le: "mgr_nextSeq mgr < mgr_nextSeq mgr'" using assms(7) q by (simp add: word_less_nat_alt unat_word_ariths)
  have old: "entries_ok lib mx mgr' j es" if "entries_ok lib mx mgr j es" for j es
    by (rule entries_ok_mono [OF that q(2)]) (use le in simp)
  have "entries_ok lib mx mgr i (L ! i)" using assms(1) i by (simp add: logs_are_def)
  with old [OF this] have "entries_ok lib mx mgr' i (L ! i @ [?e])"
    using assms(4-6) le getShardId_cong [OF q(2)]
    by (auto simp: entries_ok_def i_def sorted_wrt_append list_all_iff)
  with new old assms(1) i show "logs_are lib mx mgr' (L[i := L ! i @ [?e]]) D"
    by (auto simp: logs_are_def m nth_list_update)
qed

lemma logs_are_sync:
  assumes "logs_are lib mx mgr L D" and "mgr_ready n mx mgr" and "i < length (mgr_shards mgr)" and "sync_shard i mgr = (ok, mgr')"
  shows "ok" and "mgr_ready n mx mgr'" and "mgr_nextSeq mgr' = mgr_nextSeq mgr"
    and "length (mgr_shards mgr') = length (mgr_shards mgr)"
    and "\<exists>d. logs_are lib mx mgr' L (D[i := d]) \<and> (d = L ! i \<or> d = D ! i \<and> L ! i = [])"
proof -
  let ?sh = "mgr_shards mgr ! i"
  have l: "log_is (sh_wal ?sh) (L ! i) (D ! i)" "fsyncOnWrite (sh_settings ?sh)" "entries_ok lib mx mgr i (L ! i)"
    "length D = length (mgr_shards mgr)" using assms(1,3) by (auto simp: logs_are_def)
  have io: "all_ok (sh_ios ?sh)" using mgr_ready_ios [OF assms(2)] assms(3) by (simp add: list_all_length)
  obtain w s where w: "wal_sync (sh_settings ?sh) (sh_ios ?sh) (sh_wal ?sh) = (ok, w, s)"
    and m: "mgr' = mgr\<lparr>mgr_shards := (mgr_shards mgr)[i := ?sh\<lparr>sh_wal := w, sh_ios := s\<rparr>]\<rparr>"
    using assms(4) by (auto simp: sync_shard_def sh_sync_def split: prod.splits)
  let ?d = "if dirty (sh_wal ?sh) then L ! i else D ! i"
  have f: "ok \<and> all_ok s \<and> log_is w (L ! i) ?d"
  proof (cases "dirty (sh_wal ?sh)")
    case True
    obtain s1 where "flush_and_fsync (sh_ios ?sh) (wal (sh_wal ?sh))
        = (True, (wal (sh_wal ?sh))\<lparr>fs_disk := fs_data (wal (sh_wal ?sh))\<rparr>, s1)" "all_ok s1"
      using flush_and_fsync_ok [of "wal (sh_wal ?sh)" "sh_ios ?sh"] l(1) io by (auto simp: log_is_def wal_logged_def)
    with w l(1,2) True show ?thesis by (auto simp: wal_sync_def log_is_def wal_logged_def)
  next
    case False
    with w l(1) io show ?thesis by (auto simp: wal_sync_def)
  qed
  then show "ok" by simp
  show "mgr_nextSeq mgr' = mgr_nextSeq mgr" and n: "length (mgr_shards mgr') = length (mgr_shards mgr)" by (simp_all add: m)
  show "mgr_ready n mx mgr'"
    using assms(2,3) f wal_ready_frame [of s] by (auto simp: mgr_ready_def m list_all_length nth_list_update)
  have "logs_are lib mx mgr' L (D[i := ?d])"
    using assms(1,3) f l(3) entries_ok_mono [OF _ n] by (auto simp: logs_are_def m nth_list_update)
  moreover have "?d = L ! i \<or> ?d = D ! i \<and> L ! i = []" using l(1) by (auto simp: log_is_def)
  ultimately show "\<exists>d. logs_are lib mx mgr' L (D[i := d]) \<and> (d = L ! i \<or> d = D ! i \<and> L ! i = [])" by blast
qed

lemma sh_clear_wal_ready:
  assumes "ready n sh" and "log_is (sh_wal sh) xs ys"
  shows "ready n (sh_clear_wal sh)" and "log_is (sh_wal (sh_clear_wal sh)) [] ys" and "sh_settings (sh_clear_wal sh) = sh_settings sh"
proof -
  obtain w s where c: "wal_clear (sh_ios sh) (sh_wal sh) = (w, s)" by (cases "wal_clear (sh_ios sh) (sh_wal sh)")
  have io: "all_ok (sh_ios sh)" using assms(1) by (simp add: ready_def sound_files_def)
  have wl: "wal_logged (sh_wal sh) (map entry xs)" using assms(2) by (simp add: log_is_def)
  note f = wal_clear_logged [OF wl io c]
  have sh': "sh_clear_wal sh = sh\<lparr>sh_wal := w, sh_ios := s\<rparr>" by (simp add: sh_clear_wal_def c)
  have "fs_disk (wal w) = fs_disk (wal (sh_wal sh)) \<and> fs_good (wal w)"
    using c assms(2) f(1) by (auto simp: wal_clear_def wal_logged_def log_is_def fs_fresh_def split: if_splits prod.splits)
  then show "log_is (sh_wal (sh_clear_wal sh)) [] ys" using f(1) assms(2) by (simp add: log_is_def sh')
  show "ready n (sh_clear_wal sh)" "sh_settings (sh_clear_wal sh) = sh_settings sh"
    using wal_ready_frame [OF f(2) assms(1)] by (simp_all add: sh')
qed

lemma logs_are_flush:
  assumes "logs_are lib mx mgr L D" and "mgr_ready n mx mgr"
  defines "L' \<equiv> (if list_all (\<lambda>sh. fst (flushData sh)) (mgr_shards mgr) then map (\<lambda>_. []) L else L)"
  shows "logs_are lib mx (mgr_flush mgr) L' D" and "mgr_ready n mx (mgr_flush mgr)" and "mgr_nextSeq (mgr_flush mgr) = mgr_nextSeq mgr"
    and "length (mgr_shards (mgr_flush mgr)) = length (mgr_shards mgr)"
proof -
  let ?ok = "list_all (\<lambda>sh. fst (flushData sh)) (mgr_shards mgr)"
  let ?f = "\<lambda>sh. if ?ok then sh_clear_wal (snd (flushData sh)) else snd (flushData sh)"
  have m: "mgr_flush mgr = mgr\<lparr>mgr_shards := map ?f (mgr_shards mgr)\<rparr>"
    by (cases ?ok) (simp_all add: mgr_flush_def Let_def clearAllWAL_def comp_def list.pred_map)
  show s: "mgr_nextSeq (mgr_flush mgr) = mgr_nextSeq mgr" "length (mgr_shards (mgr_flush mgr)) = length (mgr_shards mgr)"
    by (simp_all add: m)
  have f: "ready n (?f sh) \<and> sh_settings (?f sh) = sh_settings sh \<and> log_is (sh_wal (?f sh)) (L' ! i) (D ! i)"
    if i: "i < length (mgr_shards mgr)" "sh = mgr_shards mgr ! i" for i sh
  proof -
    have "ready n sh" "log_is (sh_wal sh) (L ! i) (D ! i)" "i < length L"
      using assms(1,2) i by (auto simp: mgr_ready_def logs_are_def list_all_length)
    with flushData_ready [of n sh] flushData_wal [of sh] sh_clear_wal_ready [of n "snd (flushData sh)"]
    show ?thesis by (simp add: L'_def)
  qed
  have n: "list_all (\<lambda>sh. mx \<le> unat (SegSize (sh_settings sh))) (mgr_shards mgr)" using assms(2) by (simp add: mgr_ready_def list_all_iff)
  with f show "mgr_ready n mx (mgr_flush mgr)" by (simp add: mgr_ready_def m list_all_length)
  have e: "entries_ok lib mx (mgr_flush mgr) i es" if "entries_ok lib mx mgr i es" for i es
    by (rule entries_ok_mono [OF that s(2)]) (simp add: s(1))
  have "entries_ok lib mx (mgr_flush mgr) i (L' ! i) \<and> entries_ok lib mx (mgr_flush mgr) i (D ! i)
      \<and> fsyncOnWrite (sh_settings (mgr_shards mgr ! i))" if "i < length (mgr_shards mgr)" for i
    using assms(1) that e by (auto simp: logs_are_def L'_def)
  with f assms(1) show "logs_are lib mx (mgr_flush mgr) L' D" by (auto simp: logs_are_def m L'_def)
qed

section \<open>The invariant\<close>

text \<open>The keys that a thread has written and not yet logged, and those it has logged and not yet synced.\<close>

definition inflight :: "Thread \<Rightarrow> string set" where
  "inflight t = (case t_phase t of Ran j r \<Rightarrow> if code r = Success \<and> isWrite (j_cmd j) then {job_key j} else {} | _ \<Rightarrow> {})"

definition pending :: "Lib \<Rightarrow> ShardManager \<Rightarrow> Thread \<Rightarrow> string set" where
  "pending lib mgr t = (case t_phase t of
       Syncing ro l ok is \<Rightarrow> {k \<in> set (t_unsynced t). getShardId (hash lib) mgr k \<in> set is}
     | _ \<Rightarrow> set (t_unsynced t))"

definition writing :: "Conc \<Rightarrow> string set" where
  "writing c = (\<Union>t \<in> set (c_threads c). inflight t)"

text \<open>The keys with a write that is not yet acknowledged.\<close>

definition unacked :: "Lib \<Rightarrow> Conc \<Rightarrow> string set" where
  "unacked lib c = (\<Union>t \<in> set (c_threads c). inflight t \<union> pending lib (shardManager (c_db c)) t)"

text \<open>The keys with a write that is logged and not synced by its thread.\<close>

definition queued :: "Conc \<Rightarrow> string set" where
  "queued c = (\<Union>t \<in> set (c_threads c). set (t_unsynced t))"

text \<open>No two threads are between the map and the log with the same key.\<close>

definition race_free :: "Conc \<Rightarrow> bool" where
  "race_free c \<longleftrightarrow> (\<forall>i < length (c_threads c). \<forall>j < length (c_threads c). i \<noteq> j \<longrightarrow>
     inflight (c_threads c ! i) \<inter> inflight (c_threads c ! j) = {})"

text \<open>A flush finds no log that a thread still has to sync.\<close>

fun flushing :: "phase \<Rightarrow> bool" where
  "flushing (Holding j) \<longleftrightarrow> j_cmd j = ''f''"
| "flushing _ \<longleftrightarrow> False"

definition flush_safe :: "Conc \<Rightarrow> bool" where
  "flush_safe c \<longleftrightarrow> list_ex (\<lambda>t. flushing (t_phase t)) (c_threads c) \<longrightarrow> list_all (\<lambda>t. t_unsynced t = []) (c_threads c)"

fun phase_runs :: "phase \<Rightarrow> nat" where
  "phase_runs (Waiting j) = 1" | "phase_runs (Holding j) = 1" | "phase_runs _ = 0"

fun phase_logs :: "phase \<Rightarrow> nat" where
  "phase_logs (Waiting j) = 1" | "phase_logs (Holding j) = 1" | "phase_logs (Ran j r) = 1" | "phase_logs _ = 0"

definition runs_left :: "Conc \<Rightarrow> nat" where
  "runs_left c = sum_list (map (\<lambda>t. length (t_todo t) + phase_runs (t_phase t)) (c_threads c))"

definition logs_left :: "Conc \<Rightarrow> nat" where
  "logs_left c = sum_list (map (\<lambda>t. length (t_todo t) + phase_logs (t_phase t)) (c_threads c))"

definition good_job :: "Lib \<Rightarrow> ZestDB \<Rightarrow> nat \<Rightarrow> job \<Rightarrow> bool" where
  "good_job lib z mx j \<longleftrightarrow> (\<exists>role w sync. j = write_job w sync \<and> good_op lib z mx (CWrite role w sync))
     \<or> (\<exists>k. j = get_job k) \<or> j = flush_job"

text \<open>What a thread relies on: when it has run a write, the map has its effect.\<close>

definition thread_ok :: "Lib \<Rightarrow> nat \<Rightarrow> ZestDB \<Rightarrow> Thread \<Rightarrow> bool" where
  "thread_ok lib mx z t \<longleftrightarrow> (\<exists>ops. t_todo t = map request_of ops \<and> list_all (good_op lib z mx) ops)
     \<and> (case t_phase t of
          Idle \<Rightarrow> True
        | Waiting j \<Rightarrow> good_job lib z mx j
        | Holding j \<Rightarrow> good_job lib z mx j
        | Ran j r \<Rightarrow> good_job lib z mx j \<and> (\<forall>w sync m. j = write_job w sync \<and> write_ok w \<and> code r = Success \<longrightarrow>
             z_db lib z (write_key w) = apply_write w m (write_key w))
        | Syncing ro l ok is \<Rightarrow> ok \<and> set is \<subseteq> {..<length (mgr_shards (shardManager z))})"

text \<open>
  What the logs say: \<open>L\<close> gives every key that is not being written, \<open>D\<close> every key whose writes are
  acknowledged. The log of a key that is still to be synced is not empty.
\<close>

definition logs_tell :: "Lib \<Rightarrow> Conc \<Rightarrow> logged list list \<Rightarrow> logged list list \<Rightarrow> bool" where
  "logs_tell lib c L D \<longleftrightarrow>
     (\<forall>k. k \<notin> writing c \<longrightarrow>
        fold apply_write (map fst (L ! getShardId (hash lib) (shardManager (c_db c)) k)) (c_flushed c) k = z_db lib (c_db c) k)
     \<and> (\<forall>k. k \<notin> unacked lib c \<longrightarrow>
        fold apply_write (map fst (D ! getShardId (hash lib) (shardManager (c_db c)) k)) (c_flushed c) k = z_db lib (c_db c) k)
     \<and> (\<forall>k \<in> queued c. L ! getShardId (hash lib) (shardManager (c_db c)) k \<noteq> [])"

definition base_inv :: "Lib \<Rightarrow> nat \<Rightarrow> Conc \<Rightarrow> bool" where
  "base_inv lib mx c \<longleftrightarrow> z_inv lib (c_db c) \<and> \<not> replaying (c_db c) \<and> mgr_ready (runs_left c) mx (shardManager (c_db c))
     \<and> mx < 2 ^ 64 \<and> unat (mgr_nextSeq (shardManager (c_db c))) + logs_left c < 2 ^ 64
     \<and> list_all (thread_ok lib mx (c_db c)) (c_threads c)"

definition write_inv :: "Lib \<Rightarrow> nat \<Rightarrow> Conc \<Rightarrow> bool" where
  "write_inv lib mx c \<longleftrightarrow> base_inv lib mx c \<and> (\<exists>L D. logs_are lib mx (shardManager (c_db c)) L D \<and> logs_tell lib c L D)"

section \<open>The steps keep it\<close>

lemma in_update:
  assumes "i < length xs"
  shows "x \<in> (\<Union>t \<in> set (xs[i := y]). f t) \<longleftrightarrow> x \<in> f y \<or> (\<exists>j < length xs. j \<noteq> i \<and> x \<in> f (xs ! j))"
  using assms by (auto simp: in_set_conv_nth nth_list_update Bex_def)

lemma in_update_old:
  assumes "i < length xs"
  shows "x \<in> (\<Union>t \<in> set xs. f t) \<longleftrightarrow> x \<in> f (xs ! i) \<or> (\<exists>j < length xs. j \<noteq> i \<and> x \<in> f (xs ! j))"
  using in_update [OF assms, of x f "xs ! i"] by simp

text \<open>What the other threads contribute.\<close>

definition others :: "(Thread \<Rightarrow> string set) \<Rightarrow> nat \<Rightarrow> Conc \<Rightarrow> string set" where
  "others f i c = {k. \<exists>j < length (c_threads c). j \<noteq> i \<and> k \<in> f (c_threads c ! j)}"

lemma writing_old: "i < length (c_threads c) \<Longrightarrow> writing c = inflight (c_threads c ! i) \<union> others inflight i c"
  unfolding writing_def others_def set_eq_iff by (simp only: in_update_old Un_iff mem_Collect_eq simp_thms)

lemma unacked_old:
  "i < length (c_threads c) \<Longrightarrow> unacked lib c = inflight (c_threads c ! i) \<union> pending lib (shardManager (c_db c)) (c_threads c ! i)
     \<union> others (\<lambda>t. inflight t \<union> pending lib (shardManager (c_db c)) t) i c"
  unfolding unacked_def others_def set_eq_iff by (simp only: in_update_old Un_iff mem_Collect_eq simp_thms)

lemma writing_new:
  assumes "i < length (c_threads c)" and "c' = c1\<lparr>c_threads := (c_threads c)[i := t']\<rparr>"
  shows "writing c' = inflight t' \<union> others inflight i c"
  using in_update [OF assms(1), of _ inflight t'] unfolding writing_def others_def set_eq_iff assms(2) by simp

lemma queued_old:
  "i < length (c_threads c) \<Longrightarrow> queued c = set (t_unsynced (c_threads c ! i)) \<union> others (\<lambda>t. set (t_unsynced t)) i c"
  unfolding queued_def others_def set_eq_iff by (simp only: in_update_old Un_iff mem_Collect_eq simp_thms)

lemma queued_new:
  assumes "i < length (c_threads c)" and "c' = c1\<lparr>c_threads := (c_threads c)[i := t']\<rparr>"
  shows "queued c' = set (t_unsynced t') \<union> others (\<lambda>t. set (t_unsynced t)) i c"
  using in_update [OF assms(1), of _ "\<lambda>t. set (t_unsynced t)" t'] unfolding queued_def others_def set_eq_iff assms(2) by simp

lemma pending_cong: "length (mgr_shards mgr') = length (mgr_shards mgr) \<Longrightarrow> pending lib mgr' t = pending lib mgr t"
  using getShardId_cong [of mgr' mgr] by (cases "t_phase t") (simp_all add: pending_def)

lemma unacked_new:
  assumes "i < length (c_threads c)" and "c' = c1\<lparr>c_threads := (c_threads c)[i := t']\<rparr>"
    and "length (mgr_shards (shardManager (c_db c1))) = length (mgr_shards (shardManager (c_db c)))"
  shows "unacked lib c' = inflight t' \<union> pending lib (shardManager (c_db c)) t'
    \<union> others (\<lambda>t. inflight t \<union> pending lib (shardManager (c_db c)) t) i c"
  using in_update [OF assms(1), of _ "\<lambda>t. inflight t \<union> pending lib (shardManager (c_db c)) t" t'] pending_cong [OF assms(3)]
  unfolding unacked_def others_def set_eq_iff assms(2) by simp

lemma sum_update:
  fixes f :: "'a \<Rightarrow> nat"
  shows "i < length xs \<Longrightarrow> sum_list (map f (xs[i := x])) + f (xs ! i) = sum_list (map f xs) + f x"
proof (induction xs arbitrary: i)
  case (Cons a xs)
  then show ?case by (cases i) auto
qed simp

lemma thread_ok_frame:
  assumes "thread_ok lib mx z t" and "mgr_only z z'" and "length (mgr_shards (shardManager z')) = length (mgr_shards (shardManager z))"
    and "\<And>k. k \<in> inflight t \<Longrightarrow> z_db lib z' k = z_db lib z k"
  shows "thread_ok lib mx z' t"
proof -
  have g: "good_op lib z' mx = good_op lib z mx" using good_op_only [OF assms(2)] by (simp add: fun_eq_iff)
  then have "good_job lib z' mx = good_job lib z mx" by (simp add: good_job_def fun_eq_iff del: good_op.simps)
  with g assms(1,3,4) show ?thesis
    by (cases "t_phase t") (auto simp: thread_ok_def inflight_def)
qed

lemma base_inv_step:
  assumes "base_inv lib mx c" and "i < length (c_threads c)" and "c' = c1\<lparr>c_threads := (c_threads c)[i := t']\<rparr>"
    and "mgr_only (c_db c) (c_db c1)" and "length (mgr_shards (shardManager (c_db c1))) = length (mgr_shards (shardManager (c_db c)))"
    and "z_inv lib (c_db c1)" and "mgr_ready m mx (shardManager (c_db c1))" and "runs_left c' \<le> m"
    and "unat (mgr_nextSeq (shardManager (c_db c1))) + logs_left c' < 2 ^ 64" and "thread_ok lib mx (c_db c1) t'"
    and "\<And>j k. j < length (c_threads c) \<Longrightarrow> j \<noteq> i \<Longrightarrow> k \<in> inflight (c_threads c ! j) \<Longrightarrow> z_db lib (c_db c1) k = z_db lib (c_db c) k"
  shows "base_inv lib mx c'"
proof -
  have "thread_ok lib mx (c_db c1) (c_threads c ! j)" if "j < length (c_threads c)" "j \<noteq> i" for j
    using assms(1) that thread_ok_frame [OF _ assms(4,5) assms(11)] by (auto simp: base_inv_def list_all_length)
  then have "list_all (thread_ok lib mx (c_db c1)) ((c_threads c)[i := t'])"
    using assms(2,10) by (auto simp: list_all_length nth_list_update)
  moreover have "mgr_ready (runs_left c') mx (shardManager (c_db c1))" by (rule mgr_ready_less [OF assms(7,8)])
  ultimately show ?thesis
    using assms(1,3,6,9) mgr_only_fields(4) [OF assms(4)] by (simp add: base_inv_def)
qed

lemma left_update:
  assumes "i < length (c_threads c)" and "c' = c1\<lparr>c_threads := (c_threads c)[i := t']\<rparr>"
  shows "runs_left c' + length (t_todo (c_threads c ! i)) + phase_runs (t_phase (c_threads c ! i))
      = runs_left c + length (t_todo t') + phase_runs (t_phase t')"
    and "logs_left c' + length (t_todo (c_threads c ! i)) + phase_logs (t_phase (c_threads c ! i))
      = logs_left c + length (t_todo t') + phase_logs (t_phase t')"
  using sum_update [OF assms(1), of "\<lambda>t. length (t_todo t) + phase_runs (t_phase t)" t']
    sum_update [OF assms(1), of "\<lambda>t. length (t_todo t) + phase_logs (t_phase t)" t']
  by (simp_all add: runs_left_def logs_left_def assms(2))

text \<open>A step that changes neither the database nor the last flush.\<close>

lemma quiet_step:
  assumes "write_inv lib mx c" and "i < length (c_threads c)" and "c' = c1\<lparr>c_threads := (c_threads c)[i := t']\<rparr>"
    and "c_db c1 = c_db c" and "c_flushed c1 = c_flushed c" and "thread_ok lib mx (c_db c) t'"
    and "length (t_todo t') + phase_runs (t_phase t') \<le> length (t_todo (c_threads c ! i)) + phase_runs (t_phase (c_threads c ! i))"
    and "length (t_todo t') + phase_logs (t_phase t') \<le> length (t_todo (c_threads c ! i)) + phase_logs (t_phase (c_threads c ! i))"
    and "inflight (c_threads c ! i) \<subseteq> inflight t'"
    and "pending lib (shardManager (c_db c)) (c_threads c ! i) \<subseteq> pending lib (shardManager (c_db c)) t'"
    and "set (t_unsynced t') \<subseteq> set (t_unsynced (c_threads c ! i))"
  shows "write_inv lib mx c'"
proof -
  note l = left_update [OF assms(2,3)]
  obtain L D where ld: "logs_are lib mx (shardManager (c_db c)) L D" "logs_tell lib c L D" and b: "base_inv lib mx c"
    using assms(1) by (auto simp: write_inv_def)
  have "base_inv lib mx c'"
    using b l assms(7,8) by (intro base_inv_step [OF b assms(2,3), of "runs_left c"]) (auto simp: assms(4,6) base_inv_def mgr_only_def)
  moreover have w: "writing c \<subseteq> writing c'"
    using assms(9) unfolding writing_old [OF assms(2)] writing_new [OF assms(2,3)] by blast
  have "unacked lib c \<subseteq> unacked lib c'"
    using assms(9,10) unfolding unacked_old [OF assms(2)] unacked_new [OF assms(2,3) arg_cong [OF assms(4)]] by blast
  moreover have "queued c' \<subseteq> queued c"
    using assms(11) unfolding queued_old [OF assms(2)] queued_new [OF assms(2,3)] by blast
  ultimately have "logs_tell lib c' L D" using w ld(2) unfolding logs_tell_def by (auto simp: assms(3-5))
  with \<open>base_inv lib mx c'\<close> show ?thesis using ld(1) by (auto simp: write_inv_def assms(3,4))
qed

lemma write_invI: "base_inv lib mx c \<Longrightarrow> logs_are lib mx (shardManager (c_db c)) L D \<Longrightarrow> logs_tell lib c L D \<Longrightarrow> write_inv lib mx c"
  by (auto simp: write_inv_def)

lemma thread_at:
  assumes "write_inv lib mx c" and "i < length (c_threads c)"
  shows "thread_ok lib mx (c_db c) (c_threads c ! i)"
  using assms by (auto simp: write_inv_def base_inv_def list_all_length)

lemma good_start:
  assumes "good_op lib z mx op"
  shows "(\<exists>j. t_phase (start_request (request_of op) t c) = Waiting j \<and> good_job lib z mx j)
    \<or> t_phase (start_request (request_of op) t c) = Syncing None None True (shards_of c)"
proof (cases op)
  case (CWrite role w sync)
  then have "parse_command (line_of w) role sync = Inr (write_job w sync)" using assms by (intro parse_write) simp_all
  moreover have "good_job lib z mx (write_job w sync)" using assms unfolding CWrite good_job_def by blast
  ultimately show ?thesis by (simp add: CWrite)
qed (use assms parse_get parse_flush in \<open>auto simp: good_job_def\<close>)

lemma start_step:
  assumes "write_inv lib mx c" and "i < length (c_threads c)" and "t_phase (c_threads c ! i) = Idle"
    and "t_todo (c_threads c ! i) = q # qs"
    and "c' = c\<lparr>c_threads := (c_threads c)[i := start_request q ((c_threads c ! i)\<lparr>t_todo := qs\<rparr>) c]\<rparr>"
  shows "write_inv lib mx c'"
proof -
  let ?t = "c_threads c ! i"
  let ?t' = "start_request q (?t\<lparr>t_todo := qs\<rparr>) c"
  have n: "0 < length (mgr_shards (shardManager (c_db c)))" and m: "mgr_inv (hash lib) (shardManager (c_db c))"
    using assms(1) by (auto simp: write_inv_def base_inv_def z_inv_def mgr_inv_def)
  obtain op ops where o: "q = request_of op" "qs = map request_of ops" "good_op lib (c_db c) mx op" "list_all (good_op lib (c_db c) mx) ops"
    using thread_at [OF assms(1,2)] assms(4) by (auto simp: thread_ok_def Cons_eq_map_conv)
  have ph: "(\<exists>j. t_phase ?t' = Waiting j \<and> good_job lib (c_db c) mx j) \<or> t_phase ?t' = Syncing None None True (shards_of c)"
    unfolding o(1) by (rule good_start [OF o(3)])
  have t': "t_todo ?t' = qs" "t_unsynced ?t' = t_unsynced ?t" by (simp_all add: start_request_idle)
  have i0: "inflight ?t = {}" "pending lib (shardManager (c_db c)) ?t = set (t_unsynced ?t)"
    using assms(3) by (simp_all add: inflight_def pending_def)
  have p: "set (t_unsynced ?t) \<subseteq> pending lib (shardManager (c_db c)) ?t'"
    using ph t' getShardId_less [OF m] by (auto simp: pending_def)
  have "thread_ok lib mx (c_db c) ?t'" using ph o(2,4) t' by (auto simp: thread_ok_def)
  then show ?thesis
    by (intro quiet_step [OF assms(1,2,5)]) (use ph t' i0 p assms(3,4) in auto)
qed

lemma lock_quiet_step:
  assumes "write_inv lib mx c" and "i < length (c_threads c)" and "t_phase (c_threads c ! i) = Waiting j"
    and "c' = c\<lparr>c_mtx := m, c_threads := (c_threads c)[i := (c_threads c ! i)\<lparr>t_phase := Holding j\<rparr>]\<rparr>"
  shows "write_inv lib mx c'"
proof -
  have c': "c' = (c\<lparr>c_mtx := m\<rparr>)\<lparr>c_threads := (c_threads c)[i := (c_threads c ! i)\<lparr>t_phase := Holding j\<rparr>]\<rparr>" using assms(4) by simp
  have "thread_ok lib mx (c_db c) ((c_threads c ! i)\<lparr>t_phase := Holding j\<rparr>)"
    using thread_at [OF assms(1,2)] assms(3) by (simp add: thread_ok_def)
  then show ?thesis
    by (intro quiet_step [OF assms(1,2) c']) (use assms(3) in \<open>auto simp: inflight_def pending_def\<close>)
qed

lemma answer_step:
  assumes "write_inv lib mx c" and "i < length (c_threads c)" and "inflight (c_threads c ! i) = {}"
    and "pending lib (shardManager (c_db c)) (c_threads c ! i) \<subseteq> set u" and "set u \<subseteq> set (t_unsynced (c_threads c ! i))"
    and "c' = (unlock l c)\<lparr>c_threads := (c_threads c)[i := answer a ((c_threads c ! i)\<lparr>t_unsynced := u\<rparr>)]\<rparr>"
  shows "write_inv lib mx c'"
proof -
  have "thread_ok lib mx (c_db c) (answer a ((c_threads c ! i)\<lparr>t_unsynced := u\<rparr>))"
    using thread_at [OF assms(1,2)] by (simp add: thread_ok_def)
  then show ?thesis
    by (intro quiet_step [OF assms(1,2,6)]) (use assms(3-5) in \<open>auto simp: pending_def\<close>)
qed

lemma apply_write_at:
  "k \<noteq> write_key w \<Longrightarrow> apply_write w m k = m k" "apply_write w m (write_key w) = apply_write w m' (write_key w)"
  by (cases w; simp)+

lemma write_job_inj:
  assumes "write_job w s = write_job w' s'" and "write_ok w" and "write_ok w'"
  shows "w = w'"
proof -
  have "line_of w = line_of w'" "write_cmd w = write_cmd w'" using assms(1) by (simp_all add: write_job_def)
  moreover have "write_key w = write_key w'" using arg_cong [OF assms(1), of job_key] assms(2,3) by simp
  ultimately show ?thesis by (cases w; cases w') (auto simp: set_line_def)
qed

text \<open>A command that has run: what the logs tell is still so for the keys it left alone.\<close>

lemma ran_step:
  assumes "write_inv lib mx c" and "i < length (c_threads c)" and "t_phase (c_threads c ! i) = Holding j"
    and "c' = c1\<lparr>c_threads := (c_threads c)[i := t']\<rparr>" and "t' = (c_threads c ! i)\<lparr>t_phase := Ran j r\<rparr>"
    and "c_flushed c1 = c_flushed c" and "mgr_only (c_db c) (c_db c1)" and "z_inv lib (c_db c1)"
    and "mgr_ready (runs_left c') mx (shardManager (c_db c1))" and "same_logs (shardManager (c_db c)) (shardManager (c_db c1))"
    and "\<And>k. k \<notin> inflight t' \<Longrightarrow> z_db lib (c_db c1) k = z_db lib (c_db c) k"
    and "thread_ok lib mx (c_db c1) t'" and "race_free c'"
  shows "write_inv lib mx c'"
proof -
  obtain L D where ld: "logs_are lib mx (shardManager (c_db c)) L D" "logs_tell lib c L D" and b: "base_inv lib mx c"
    using assms(1) by (auto simp: write_inv_def)
  note l = left_update [OF assms(2,4)]
  note n = same_logs_length [OF assms(10)]
  have t: "inflight (c_threads c ! i) = {}" "pending lib (shardManager (c_db c)) (c_threads c ! i) = set (t_unsynced (c_threads c ! i))"
    "pending lib (shardManager (c_db c)) t' = set (t_unsynced (c_threads c ! i))"
    using assms(3,5) by (simp_all add: inflight_def pending_def)
  have other: "z_db lib (c_db c1) k = z_db lib (c_db c) k"
    if "q < length (c_threads c)" "q \<noteq> i" "k \<in> inflight (c_threads c ! q)" for q k
  proof (rule assms(11))
    have "inflight (c_threads c' ! i) \<inter> inflight (c_threads c' ! q) = {}"
      using assms(13) [unfolded race_free_def, rule_format, of i q] assms(2) that(1,2) by (simp add: assms(4))
    with that assms(2) show "k \<notin> inflight t'" by (auto simp: assms(4))
  qed
  have "logs_left c' = logs_left c" using l(2) assms(3,5) by simp
  then have "base_inv lib mx c'"
    using b assms(10) by (intro base_inv_step [OF b assms(2,4,7) n assms(8,9) _ _ assms(12) other]) (auto simp: base_inv_def same_logs_def)
  moreover have "logs_are lib mx (shardManager (c_db c1)) L D" by (rule logs_are_same [OF assms(10) ld(1)])
  moreover have "logs_tell lib c' L D"
    using ld(2) assms(11) t getShardId_cong [OF n]
    unfolding logs_tell_def writing_old [OF assms(2)] writing_new [OF assms(2,4)] unacked_old [OF assms(2)] unacked_new [OF assms(2,4) n]
      queued_old [OF assms(2)] queued_new [OF assms(2,4)]
    by (simp add: assms(4-6))
  ultimately show ?thesis by (auto simp: write_inv_def assms(4))
qed

lemma runs_left_holding:
  assumes "i < length (c_threads c)" and "t_phase (c_threads c ! i) = Holding j"
    and "c' = c1\<lparr>c_threads := (c_threads c)[i := (c_threads c ! i)\<lparr>t_phase := Ran j r\<rparr>]\<rparr>"
  shows "runs_left c = Suc (runs_left c')"
  using left_update(1) [OF assms(1,3)] assms(2) by simp

lemma run_step_write:
  assumes "write_inv lib mx c" and "i < length (c_threads c)" and "t_phase (c_threads c ! i) = Holding (write_job w s)"
    and "good_op lib (c_db c) mx (CWrite role w s)" and "run_job lib (write_job w s) (c_threads c ! i) c = (t', c1)"
    and "c' = c1\<lparr>c_threads := (c_threads c)[i := t']\<rparr>" and "race_free c'"
  shows "write_inv lib mx c'"
proof -
  let ?j = "write_job w s"
  have ok: "write_ok w" using assms(4) by simp
  have b: "z_inv lib (c_db c)" "\<not> replaying (c_db c)" "mgr_ready (runs_left c) mx (shardManager (c_db c))" "mx < 2 ^ 64"
    using assms(1) by (auto simp: write_inv_def base_inv_def)
  obtain r z where z: "z_write lib w (c_db c) = (r, z)" by (cases "z_write lib w (c_db c)")
  have "\<not> flushes (write_cmd w) (c_db c)" by (cases w) (simp_all add: flushes_def)
  then have t': "t' = (c_threads c ! i)\<lparr>t_phase := Ran ?j r\<rparr>" and c1: "c1 = c\<lparr>c_db := z\<rparr>"
    using assms(5) z run_write_job [OF ok, of lib s "c_db c"] by (simp_all add: run_job_def Let_def)
  have rl: "runs_left c = Suc (runs_left c')" using runs_left_holding [OF assms(2,3)] assms(6) t' by blast
  note f = z_write_runs [OF b(1,2) b(3) [unfolded rl] b(4) assms(4) z]
  have fl: "inflight t' = (if code r = Success then {write_key w} else {})" using ok by (simp add: inflight_def t')
  show ?thesis
  proof (rule ran_step [OF assms(1-3,6) t' _ _ _ _ _ _ _ assms(7)])
    show "z_db lib (c_db c1) k = z_db lib (c_db c) k" if "k \<notin> inflight t'" for k
      using that fl f(5,6) apply_write_at(1) [of k w] by (cases "code r") (auto simp: c1)
    have "good_op lib z mx = good_op lib (c_db c) mx" using good_op_only [OF f(1)] by (simp add: fun_eq_iff)
    with assms(4) have "good_job lib z mx ?j" unfolding good_job_def by metis
    moreover have "w' = w" if "?j = write_job w' s'" "write_ok w'" for w' s' using write_job_inj [OF that(1) ok that(2)] by simp
    moreover have "\<exists>ops. t_todo t' = map request_of ops \<and> list_all (good_op lib z mx) ops"
      using thread_at [OF assms(1,2)] good_op_only [OF f(1)] by (auto simp: thread_ok_def t' list_all_iff)
    ultimately show "thread_ok lib mx (c_db c1) t'"
      using f(5) apply_write_at(2) [of w] by (auto simp: thread_ok_def c1 t')
  qed (use f in \<open>simp_all add: c1\<close>)
qed

lemma run_step_get:
  assumes "write_inv lib mx c" and "i < length (c_threads c)" and "t_phase (c_threads c ! i) = Holding (get_job k)"
    and "run_job lib (get_job k) (c_threads c ! i) c = (t', c1)"
    and "c' = c1\<lparr>c_threads := (c_threads c)[i := t']\<rparr>" and "race_free c'"
  shows "write_inv lib mx c'"
proof -
  have b: "z_inv lib (c_db c)" "mgr_ready (runs_left c) mx (shardManager (c_db c))" "mx < 2 ^ 64"
    using assms(1) by (auto simp: write_inv_def base_inv_def)
  obtain r z where z: "z_get lib k (c_db c) = (r, z)" by (cases "z_get lib k (c_db c)")
  have t': "t' = (c_threads c ! i)\<lparr>t_phase := Ran (get_job k) r\<rparr>" and c1: "c1 = c\<lparr>c_db := z\<rparr>"
    using assms(4) z run_get_job [of lib k "c_db c"] by (simp_all add: run_job_def Let_def flushes_def)
  have rl: "runs_left c = Suc (runs_left c')" using runs_left_holding [OF assms(2,3)] assms(5) t' by blast
  note f = z_get_runs [OF b(1) b(2) [unfolded rl] b(3) z]
  have "get_job k \<noteq> write_job w s" for w s by (metis job_fields(1,4,6,8))
  moreover have "\<exists>ops. t_todo t' = map request_of ops \<and> list_all (good_op lib z mx) ops"
    using thread_at [OF assms(1,2)] good_op_only [OF f(1)] by (auto simp: thread_ok_def t' list_all_iff)
  ultimately have "thread_ok lib mx (c_db c1) t'" by (auto simp: thread_ok_def c1 t' good_job_def)
  then show ?thesis
    by (intro ran_step [OF assms(1-3,5) t' _ _ _ _ _ _ _ assms(6)]) (use f in \<open>simp_all add: c1\<close>)
qed

text \<open>A flush: every key gets its value from the new flushed map, or still from the old log on disk.\<close>

lemma fold_rebase: "fold apply_write ws m k = v \<Longrightarrow> m' k = v \<Longrightarrow> fold apply_write ws m' k = v"
  using fold_apply_other fold_apply_written by (cases "k \<in> write_key ` set ws") metis+

lemma run_step_flush:
  assumes "write_inv lib mx c" and "i < length (c_threads c)" and "t_phase (c_threads c ! i) = Holding flush_job"
    and "run_job lib flush_job (c_threads c ! i) c = (t', c1)" and "c' = c1\<lparr>c_threads := (c_threads c)[i := t']\<rparr>"
    and "unacked lib c = {}" and "queued c = {}"
  shows "write_inv lib mx c'"
proof -
  let ?z = "z_flush (c_db c)" and ?m = "shardManager (c_db c)" and ?r = "res Success FLUSH_SUCCESSFUL 0"
  let ?ok = "list_all (\<lambda>sh. fst (flushData sh)) (mgr_shards ?m)"
  have b: "base_inv lib mx c" "z_inv lib (c_db c)" "mgr_ready (runs_left c) mx ?m"
    using assms(1) by (auto simp: write_inv_def base_inv_def)
  obtain L D where ld: "logs_are lib mx ?m L D" "logs_tell lib c L D" using assms(1) by (auto simp: write_inv_def)
  have t': "t' = (c_threads c ! i)\<lparr>t_phase := Ran flush_job ?r\<rparr>"
    and c1: "c1 = c\<lparr>c_db := ?z, c_flushed := (if ?ok then z_db lib ?z else c_flushed c)\<rparr>"
    using assms(4) run_flush_job [of lib "c_db c"] by (simp_all add: run_job_def Let_def flushes_def)
  have rl: "runs_left c = Suc (runs_left c')" using runs_left_holding [OF assms(2,3)] assms(5) t' by blast
  have ll: "logs_left c' = logs_left c" using left_update(2) [OF assms(2,5)] assms(3) t' by simp
  note e = z_flush_effect [OF b(2), unfolded read_effect_def]
  have m: "shardManager ?z = mgr_flush ?m" by (simp add: z_flush_def flushLocked_def)
  note f = logs_are_flush [OF ld(1) b(3), folded m]
  have "flush_job \<noteq> write_job w s" for w s by (metis job_fields(1,5,6,9))
  moreover have "\<exists>ops. t_todo t' = map request_of ops \<and> list_all (good_op lib ?z mx) ops"
    using thread_at [OF assms(1,2)] good_op_only [OF conjunct1 [OF e]] by (auto simp: thread_ok_def t' list_all_iff)
  ultimately have "thread_ok lib mx (c_db c1) t'" by (auto simp: thread_ok_def c1 t' good_job_def)
  with b e f rl ll have "base_inv lib mx c'"
    by (intro base_inv_step [OF b(1) assms(2,5), of "runs_left c"]) (auto simp: c1 base_inv_def)
  moreover have "writing c' = {}" "writing c = {}"
    using assms(6) unfolding unacked_old [OF assms(2)] writing_new [OF assms(2,5)] writing_old [OF assms(2)]
    by (auto simp: t' inflight_def others_def)
  moreover have q0: "queued c' = {}"
    using assms(7) unfolding queued_old [OF assms(2)] queued_new [OF assms(2,5)] by (simp add: t')
  then have "logs_tell lib c' (if ?ok then map (\<lambda>_. []) L else L) D"
  proof (cases ?ok)
    case True
    have "getShardId (hash lib) ?m k < length L" for k
      using ld(1) getShardId_less [of "hash lib" ?m k] b(2) by (simp add: logs_are_def z_inv_def)
    then show ?thesis using ld(2) assms(6) \<open>writing c = {}\<close> e True getShardId_cong [OF f(4)]
      q0 by (auto simp: logs_tell_def assms(5) c1 intro: fold_rebase)
  next
    case False
    then show ?thesis using ld(2) assms(6) q0 \<open>writing c = {}\<close> e getShardId_cong [OF f(4)]
      by (auto simp: logs_tell_def assms(5) c1)
  qed
  ultimately show ?thesis using f(1) by (intro write_invI) (simp_all add: assms(5) c1)
qed

lemma append_ok:
  assumes "write_inv lib mx c" and "i < length (c_threads c)" and "t_phase (c_threads c ! i) = Ran (write_job w s) r"
    and "good_op lib (c_db c) mx (CWrite role w s)"
  shows "fst (z_appendToWAL lib (write_key w) (line_of w) (c_db c))"
proof -
  let ?m = "shardManager (c_db c)"
  have b: "z_inv lib (c_db c)" "\<not> replaying (c_db c)" "mgr_ready (runs_left c) mx ?m" "unat (mgr_nextSeq ?m) + logs_left c < 2 ^ 64"
    using assms(1) by (auto simp: write_inv_def base_inv_def)
  obtain L D where ld: "logs_are lib mx ?m L D" using assms(1) by (auto simp: write_inv_def)
  have "length (t_todo (c_threads c ! i)) + phase_logs (t_phase (c_threads c ! i)) \<le> logs_left c"
    unfolding logs_left_def by (rule member_le_sum_list) (use nth_mem [OF assms(2)] in auto)
  then have "0 < logs_left c" using assms(3) by simp
  with b(4) have "unat (mgr_nextSeq ?m) + 1 < 2 ^ 64" by simp
  moreover obtain ok m where "appendToWAL (hash lib) (write_key w) (line_of w) ?m = (ok, m)"
    by (cases "appendToWAL (hash lib) (write_key w) (line_of w) ?m")
  ultimately show ?thesis
    using logs_are_append(1) [OF ld _ b(3), of w ok m] b(1,2) assms(4) by (simp add: z_appendToWAL_def on_mgr_def z_inv_def)
qed

lemma append_tells:
  assumes "logs_tell lib c L D" and "mgr_inv (hash lib) (shardManager (c_db c))" and "length L = length (mgr_shards (shardManager (c_db c)))"
    and "i < length (c_threads c)" and "inflight (c_threads c ! i) = {write_key w}" and "race_free c"
    and "\<And>x. z_db lib (c_db c) (write_key w) = apply_write w x (write_key w)"
    and "c' = c1\<lparr>c_threads := (c_threads c)[i := t']\<rparr>" and "c_flushed c1 = c_flushed c" and "z_db lib (c_db c1) = z_db lib (c_db c)"
    and "length (mgr_shards (shardManager (c_db c1))) = length (mgr_shards (shardManager (c_db c)))"
    and "inflight t' = {}" and "t_unsynced t' = t_unsynced (c_threads c ! i) @ [write_key w]"
    and "insert (write_key w) (pending lib (shardManager (c_db c)) (c_threads c ! i)) \<subseteq> pending lib (shardManager (c_db c)) t'"
  defines "n \<equiv> getShardId (hash lib) (shardManager (c_db c)) (write_key w)"
  shows "logs_tell lib c' (L[n := L ! n @ [(w, q)]]) D"
proof -
  let ?k = "write_key w" and ?h = "getShardId (hash lib) (shardManager (c_db c))"
  have alone: "?k \<notin> others inflight i c"
  proof
    assume "?k \<in> others inflight i c"
    then obtain j where "j < length (c_threads c)" "j \<noteq> i" "?k \<in> inflight (c_threads c ! j)" by (auto simp: others_def)
    with assms(4-6) show False unfolding race_free_def by (metis disjoint_insert(1) insert_absorb)
  qed
  have len: "?h k < length L" for k using assms(3) getShardId_less [OF assms(2), of k] by simp
  have step: "fold apply_write (map fst (L[n := L ! n @ [(w, q)]] ! ?h k)) m k
      = (if k = ?k then apply_write w (fold apply_write (map fst (L ! ?h k)) m) k else fold apply_write (map fst (L ! ?h k)) m k)" for k m
    using len [of k] apply_write_at(1) [of k w] by (cases "?h k = n") (auto simp: n_def)
  have "L[n := L ! n @ [(w, q)]] ! ?h k \<noteq> []" if "k \<in> queued c'" for k
    using that assms(1) len [of k] unfolding queued_old [OF assms(4)] queued_new [OF assms(4,8)] logs_tell_def
    by (cases "?h k = n") (auto simp: n_def assms(13))
  moreover have "unacked lib c \<subseteq> unacked lib c'"
    using assms(5,14) unfolding unacked_old [OF assms(4)] unacked_new [OF assms(4,8,11)] by auto
  moreover have "writing c \<subseteq> insert ?k (writing c')"
    using assms(5) unfolding writing_old [OF assms(4)] writing_new [OF assms(4,8)] by auto
  ultimately show ?thesis
    using assms(1,7,10) getShardId_cong [OF assms(11)] unfolding logs_tell_def
    by (auto simp: assms(8,9) step)
qed

lemma append_step:
  assumes "write_inv lib mx c" and "i < length (c_threads c)" and "t_phase (c_threads c ! i) = Ran (write_job w s) r"
    and "good_op lib (c_db c) mx (CWrite role w s)" and "code r = Success"
    and "z_appendToWAL lib (write_key w) (line_of w) (c_db c) = (ok, z)" and "race_free c"
    and "c' = c1\<lparr>c_threads := (c_threads c)[i := t']\<rparr>" and "c_db c1 = z" and "c_flushed c1 = c_flushed c"
    and "t_todo t' = t_todo (c_threads c ! i)" and "t_unsynced t' = t_unsynced (c_threads c ! i) @ [write_key w]"
    and "t_phase t' = Idle \<or> t_phase t' = Syncing ro l True (shards_of (c\<lparr>c_db := z\<rparr>))"
  shows "write_inv lib mx c'"
proof -
  let ?m = "shardManager (c_db c)" and ?k = "write_key w" and ?t = "c_threads c ! i"
  let ?h = "getShardId (hash lib) ?m"
  have w: "write_ok w" "write_size w \<le> mx" "length (line_of w) < 2 ^ 32" using assms(4) by auto
  have b: "base_inv lib mx c" "z_inv lib (c_db c)" "\<not> replaying (c_db c)" "mgr_ready (runs_left c) mx ?m"
    and q0: "unat (mgr_nextSeq ?m) + logs_left c < 2 ^ 64"
    using assms(1) by (auto simp: write_inv_def base_inv_def)
  have mi: "mgr_inv (hash lib) ?m" using b(2) by (simp add: z_inv_def)
  obtain L D where ld: "logs_are lib mx ?m L D" "logs_tell lib c L D" using assms(1) by (auto simp: write_inv_def)
  have ph: "phase_runs (t_phase t') = 0" "phase_logs (t_phase t') = 0" "inflight t' = {}" using assms(13) by (auto simp: inflight_def)
  note lf = left_update [OF assms(2,8)]
  have lefts: "runs_left c' = runs_left c" "logs_left c = Suc (logs_left c')" using lf assms(3,11) ph by simp_all
  have o: "on_mgr (appendToWAL (hash lib) ?k (line_of w)) (c_db c) = (ok, z)" using assms(6) b(3) by (simp add: z_appendToWAL_def)
  have q: "unat (mgr_nextSeq ?m) + 1 < 2 ^ 64" using q0 lefts(2) by simp
  note a = logs_are_append [OF ld(1) mi b(4) w q conjunct2 [OF on_mgr_only [OF o]]]
  note e = z_appendToWAL_effect [OF b(2) assms(6), unfolded read_effect_def]
  have seq: "unat (mgr_nextSeq (shardManager z)) = unat (mgr_nextSeq ?m) + 1" using a(4) q by (simp add: unat_word_ariths)
  have "thread_ok lib mx z t'"
    using thread_at [OF assms(1,2)] good_op_only [OF conjunct1 [OF e], of lib mx] assms(11,13)
    by (auto simp: thread_ok_def list_all_iff)
  then have "base_inv lib mx c'"
    using e a b(1) q0 seq lefts
    by (intro base_inv_step [OF b(1) assms(2,8), of "runs_left c"]) (auto simp: assms(9) base_inv_def)
  moreover have "logs_tell lib c' (L[?h ?k := L ! ?h ?k @ [(w, mgr_nextSeq ?m)]]) D"
  proof (rule append_tells [OF ld(2) mi _ assms(2) _ assms(7) _ assms(8,10)])
    show "length L = length (mgr_shards ?m)" using ld(1) by (simp add: logs_are_def)
    show "inflight ?t = {?k}" using assms(3,5) w(1) by (simp add: inflight_def)
    show "z_db lib (c_db c) ?k = apply_write w x ?k" for x
      using thread_at [OF assms(1,2)] assms(3,5) w(1) by (simp add: thread_ok_def) blast
    show "insert ?k (pending lib ?m ?t) \<subseteq> pending lib ?m t'"
      using assms(3,12,13) getShardId_less [OF mi] a(5) by (auto simp: pending_def)
  qed (use e a(5) ph assms(9,12) in simp_all)
  ultimately show "write_inv lib mx c'" using a(2) by (intro write_invI) (simp_all add: assms(8,9))
qed

lemma sync_shard_frame:
  assumes "z_inv lib z" and "n < length (mgr_shards (shardManager z))" and "sync_shard n (shardManager z) = (b, m)"
  shows "z_inv lib (z\<lparr>shardManager := m\<rparr>)" and "z_db lib (z\<lparr>shardManager := m\<rparr>) = z_db lib z"
proof -
  let ?m = "shardManager z" and ?sh = "mgr_shards (shardManager z) ! n"
  have mi: "mgr_inv (hash lib) ?m" using assms(1) by (simp add: z_inv_def)
  have "shard_inv (snd (sh_sync sh)) \<and> contents (snd (sh_sync sh)) = contents sh" if "shard_inv sh" for sh
    using wal_frame that by (simp add: sh_sync_def split: prod.splits)
  note fr = this [OF mgr_inv_shard [OF mi assms(2)]]
  have mm: "m = ?m\<lparr>mgr_shards := (mgr_shards ?m)[n := snd (sh_sync ?sh)]\<rparr>"
    using assms(3) by (auto simp: sync_shard_def split: prod.splits)
  have u: "mgr_inv (hash lib) m"
    "db (hash lib) m k = contents ((mgr_shards ?m)[n := snd (sh_sync ?sh)] ! getShardId (hash lib) ?m k) k" for k
    by (rule mgr_update_all [OF mi _ _ _ mm]; use fr assms(2) mgr_inv_shard [OF mi] in \<open>auto simp: nth_list_update split: if_splits\<close>)+
  show "z_db lib (z\<lparr>shardManager := m\<rparr>) = z_db lib z"
    using u(2) fr assms(2) getShardId_less [OF mi] by (auto simp: z_db_def db_def nth_list_update fun_eq_iff)
  show "z_inv lib (z\<lparr>shardManager := m\<rparr>)" using u(1) assms(1) by (simp add: z_inv_def)
qed

lemma sync_tells:
  assumes "logs_tell lib c L D" and "i < length (c_threads c)" and "t_phase (c_threads c ! i) = Syncing ro l ok (n # ns)"
    and "t' = (c_threads c ! i)\<lparr>t_phase := Syncing ro l ok' ns\<rparr>" and "n < length D" and "d = L ! n \<or> d = D ! n \<and> L ! n = []"
    and "c' = c1\<lparr>c_threads := (c_threads c)[i := t']\<rparr>" and "c_flushed c1 = c_flushed c" and "z_db lib (c_db c1) = z_db lib (c_db c)"
    and "length (mgr_shards (shardManager (c_db c1))) = length (mgr_shards (shardManager (c_db c)))"
  shows "logs_tell lib c' L (D[n := d])"
proof -
  let ?m = "shardManager (c_db c)" and ?t = "c_threads c ! i" and ?h = "getShardId (hash lib) (shardManager (c_db c))"
  note un_new = unacked_new [OF assms(2,7,10), of lib]
  have fl: "inflight ?t = {}" "inflight t' = {}" using assms(3,4) by (simp_all add: inflight_def)
  have pend: "pending lib ?m ?t \<subseteq> pending lib ?m t' \<union> {k. ?h k = n}" using assms(3,4) by (auto simp: pending_def)
  have "fold apply_write (map fst (D[n := d] ! ?h k)) (c_flushed c) k = z_db lib (c_db c) k" if k: "k \<notin> unacked lib c'" for k
  proof -
    have nk: "k \<notin> writing c" "?h k \<noteq> n \<longrightarrow> k \<notin> unacked lib c"
      using k pend fl unfolding writing_old [OF assms(2)] unacked_old [OF assms(2)] un_new by (auto simp: others_def)
    have "k \<notin> unacked lib c" if "L ! n = []" "?h k = n"
    proof
      assume "k \<in> unacked lib c"
      then have "k \<in> pending lib ?m ?t" using k fl unfolding unacked_old [OF assms(2)] un_new by auto
      then have "k \<in> queued c" using assms(3) unfolding queued_old [OF assms(2)] by (simp add: pending_def)
      then show False using assms(1) that unfolding logs_tell_def by metis
    qed
    with nk assms(1,5,6) show ?thesis by (cases "?h k = n") (auto simp: logs_tell_def)
  qed
  then show ?thesis
    using assms(1,9) fl getShardId_cong [OF assms(10)]
    unfolding logs_tell_def writing_old [OF assms(2)] writing_new [OF assms(2,7)] queued_old [OF assms(2)] queued_new [OF assms(2,7)]
    by (simp add: assms(4,7,8))
qed

lemma sync_step:
  assumes "write_inv lib mx c" and "i < length (c_threads c)" and "t_phase (c_threads c ! i) = Syncing ro l ok (n # ns)"
    and "sync_shard n (shardManager (c_db c)) = (b, m)" and "t' = (c_threads c ! i)\<lparr>t_phase := Syncing ro l (b \<and> ok) ns\<rparr>"
    and "c' = (c\<lparr>c_db := (c_db c)\<lparr>shardManager := m\<rparr>\<rparr>)\<lparr>c_threads := (c_threads c)[i := t']\<rparr>"
  shows "write_inv lib mx c'"
proof -
  let ?m = "shardManager (c_db c)" and ?z = "(c_db c)\<lparr>shardManager := m\<rparr>" and ?t = "c_threads c ! i"
  have bi: "base_inv lib mx c" "z_inv lib (c_db c)" "mgr_ready (runs_left c) mx ?m"
    using assms(1) by (auto simp: write_inv_def base_inv_def)
  obtain L D where ld: "logs_are lib mx ?m L D" "logs_tell lib c L D" using assms(1) by (auto simp: write_inv_def)
  have t: "ok" "n < length (mgr_shards ?m)" "set ns \<subseteq> {..<length (mgr_shards ?m)}" "\<exists>ops. t_todo ?t = map request_of ops \<and> list_all (good_op lib (c_db c) mx) ops"
    using thread_at [OF assms(1,2)] assms(3) by (auto simp: thread_ok_def)
  note f = logs_are_sync [OF ld(1) bi(3) t(2) assms(4)]
  obtain d where d: "logs_are lib mx m L (D[n := d])" "d = L ! n \<or> d = D ! n \<and> L ! n = []" using f(5) by blast
  have only: "mgr_only (c_db c) ?z" by (simp add: mgr_only_def)
  note zi = sync_shard_frame(1) [OF bi(2) t(2) assms(4)] and same = sync_shard_frame(2) [OF bi(2) t(2) assms(4)]
  have "list_all (good_op lib ?z mx) ops = list_all (good_op lib (c_db c) mx) ops" for ops
    using good_op_only [OF only] by (simp add: list_all_iff)
  then have "thread_ok lib mx ?z t'" using t f(1,4) by (simp add: thread_ok_def assms(5))
  moreover note lf = left_update [OF assms(2,6)]
  ultimately have base: "base_inv lib mx c'"
    using bi(1) f zi only same assms(3,5)
    by (intro base_inv_step [OF bi(1) assms(2,6), of "runs_left c"]) (auto simp: base_inv_def)
  have nD: "n < length D" using t(2) ld(1) by (simp add: logs_are_def)
  have "logs_tell lib c' L (D[n := d])"
    by (rule sync_tells [OF ld(2) assms(2,3,5) nD d(2) assms(6)]) (use same f(4) in simp_all)
  with base d(1) show ?thesis by (intro write_invI) (simp_all add: assms(6))
qed

lemma flush_alone:
  assumes "lock_inv c" and "flush_safe c" and "i < length (c_threads c)" and "t_phase (c_threads c ! i) = Holding flush_job"
  shows "unacked lib c = {}" and "queued c = {}"
proof -
  have "flushing (t_phase (c_threads c ! i))" using assms(4) by simp
  then have "list_ex (\<lambda>t. flushing (t_phase t)) (c_threads c)" using assms(3) by (auto simp: list_ex_iff)
  with assms(2) have u: "t_unsynced t = []" if "t \<in> set (c_threads c)" for t
    using that by (simp add: flush_safe_def list_all_iff)
  then show "queued c = {}" by (simp add: queued_def)
  have h: "holds (t_phase (c_threads c ! i)) = Some UniqueLock" using assms(4) by simp
  have "inflight t = {}" if t: "t \<in> set (c_threads c)" for t
  proof -
    obtain j where j: "j < length (c_threads c)" "t = c_threads c ! j" using t by (metis in_set_conv_nth)
    show ?thesis
    proof (cases "j = i")
      case True
      with j assms(4) show ?thesis by (simp add: inflight_def)
    next
      case False
      from unique_is_alone [OF assms(1,3) h j(1) this] j(2) show ?thesis by (cases "t_phase t") (auto simp: inflight_def)
    qed
  qed
  moreover have "pending lib m t = {}" if "t \<in> set (c_threads c)" for m t
    using u [OF that] by (cases "t_phase t") (simp_all add: pending_def)
  ultimately show "unacked lib c = {}" by (auto simp: unacked_def)
qed

lemma log_step:
  assumes "write_inv lib mx c" and "i < length (c_threads c)" and "t_phase (c_threads c ! i) = Ran j r"
    and "log_job lib j r (c_threads c ! i) c = (t', c1)" and "c' = c1\<lparr>c_threads := (c_threads c)[i := t']\<rparr>" and "race_free c"
  shows "write_inv lib mx c'"
proof (cases "to_log j r (c_db c)")
  case False
  have rp: "\<not> replaying (c_db c)" using assms(1) by (simp add: write_inv_def base_inv_def)
  have g: "good_job lib (c_db c) mx j" using thread_at [OF assms(1,2)] assms(3) by (simp add: thread_ok_def)
  have "2 \<le> length (j_words j)" if "isWrite (j_cmd j)"
    using g that write_words(2) by (auto simp: good_job_def write_job_def)
  with False rp have "inflight (c_threads c ! i) = {}" by (auto simp: to_log_def inflight_def assms(3))
  then show ?thesis
    by (rule answer_step [OF assms(1,2), where u = "t_unsynced (c_threads c ! i)" and l = "Some (lock_of (j_cmd j))" and a = "Answered (Some r)"])
      (use False assms(3,4,5) in \<open>auto simp: log_job_def pending_def answer_def\<close>)
next
  case True
  obtain w s role where w: "j = write_job w s" "good_op lib (c_db c) mx (CWrite role w s)"
    using True thread_at [OF assms(1,2)] assms(3) by (auto simp: thread_ok_def good_job_def to_log_def)
  have k: "job_key j = write_key w" "code r = Success" "write_ok w" using w True by (auto simp: to_log_def)
  obtain ok z where a: "z_appendToWAL lib (write_key w) (line_of w) (c_db c) = (ok, z)"
    by (cases "z_appendToWAL lib (write_key w) (line_of w) (c_db c)")

  have ok: "ok" using append_ok [OF assms(1,2) assms(3) [unfolded w(1)] w(2)] a by simp
  show ?thesis
    by (rule append_step [OF assms(1,2) _ w(2) k(2) a assms(6,5), where ro = "Some r" and l = "Some (lock_of (j_cmd j))"])
      (use assms(3,4) w(1) k ok a True in \<open>auto simp: log_job_def Let_def split: if_splits\<close>)
qed

lemma idle_step:
  "t_phase t = Idle \<Longrightarrow> thread_step lib t c = Some (t', c1) \<Longrightarrow>
     \<exists>q qs. t_todo t = q # qs \<and> t' = start_request q (t\<lparr>t_todo := qs\<rparr>) c \<and> c1 = c"
  by (cases "t_todo t") auto

lemma waiting_step:
  "t_phase t = Waiting j \<Longrightarrow> thread_step lib t c = Some (t', c1) \<Longrightarrow>
     \<exists>m. t' = t\<lparr>t_phase := Holding j\<rparr> \<and> c1 = c\<lparr>c_mtx := m\<rparr>"
  by (cases "acquire (lock_of (j_cmd j)) (c_mtx c)") auto

text \<open>Every step of every thread, without a race and with no unsynced log at a flush.\<close>

lemma run_step:
  assumes "write_inv lib mx c" and "lock_inv c" and "flush_safe c" and "i < length (c_threads c)"
    and "t_phase (c_threads c ! i) = Holding j" and "run_job lib j (c_threads c ! i) c = (t', c1)"
    and "c' = c1\<lparr>c_threads := (c_threads c)[i := t']\<rparr>" and "race_free c'"
  shows "write_inv lib mx c'"
proof -
  have "good_job lib (c_db c) mx j" using thread_at [OF assms(1,4)] assms(5) by (simp add: thread_ok_def)
  then consider (w) role w s where "j = write_job w s" "good_op lib (c_db c) mx (CWrite role w s)" | (g) k where "j = get_job k" | (f) "j = flush_job"
    unfolding good_job_def by blast
  then show ?thesis
  proof cases
    case w
    from run_step_write [OF assms(1,4) assms(5) [unfolded w(1)] w(2) assms(6) [unfolded w(1)] assms(7,8)] show ?thesis .
  next
    case g
    from run_step_get [OF assms(1,4) assms(5) [unfolded g] assms(6) [unfolded g] assms(7,8)] show ?thesis .
  next
    case f
    note h = assms(5) [unfolded f]
    from run_step_flush [OF assms(1,4) h assms(6) [unfolded f] assms(7) flush_alone [OF assms(2-4) h]] show ?thesis .
  qed
qed

lemma write_inv_step:
  assumes "write_inv lib mx c" and "lock_inv c" and "race_free c" and "flush_safe c" and "conc_step lib i c = Some c'" and "race_free c'"
  shows "write_inv lib mx c'"
  using assms(5)
proof (cases rule: conc_stepE)
  case (1 t' c1)
  let ?t = "c_threads c ! i"
  note t_ok = thread_at [OF assms(1) 1(1)]
  show ?thesis
  proof (cases "t_phase ?t")
    case Idle
    from idle_step [OF this 1(2)] obtain q qs where
      q: "t_todo ?t = q # qs" "t' = start_request q (?t\<lparr>t_todo := qs\<rparr>) c" "c1 = c" by blast
    from start_step [OF assms(1) 1(1) Idle q(1) 1(3) [unfolded q(2,3)]] show ?thesis .
  next
    case (Waiting j)
    from waiting_step [OF this 1(2)] obtain m where "t' = ?t\<lparr>t_phase := Holding j\<rparr>" "c1 = c\<lparr>c_mtx := m\<rparr>" by blast
    then show ?thesis using 1(3) by (intro lock_quiet_step [OF assms(1) 1(1) Waiting, of c' m]) simp
  next
    case (Holding j)
    then have "run_job lib j ?t c = (t', c1)" using 1(2) by simp
    from run_step [OF assms(1,2,4) 1(1) Holding this 1(3) assms(6)] show ?thesis .
  next
    case (Ran j r)
    then have "log_job lib j r ?t c = (t', c1)" using 1(2) by simp
    from log_step [OF assms(1) 1(1) Ran this 1(3) assms(3)] show ?thesis .
  next
    case (Syncing ro l ok ns)
    show ?thesis
    proof (cases ns)
      case Nil
      have "ok" using t_ok Syncing by (simp add: thread_ok_def)
      with 1(2) Syncing Nil have s: "t' = answer (sync_answer ro ok) (?t\<lparr>t_unsynced := []\<rparr>)" "c1 = unlock l c" by simp_all
      show ?thesis
        by (rule answer_step [OF assms(1) 1(1), where u = "[]" and l = l and a = "sync_answer ro ok"])
          (use Syncing Nil 1(3) s in \<open>auto simp: inflight_def pending_def\<close>)
    next
      case (Cons n ms)
      obtain b m where b: "sync_shard n (shardManager (c_db c)) = (b, m)" by (cases "sync_shard n (shardManager (c_db c))")
      with 1(2) Syncing Cons have s: "t' = ?t\<lparr>t_phase := Syncing ro l (b \<and> ok) ms\<rparr>" "c1 = c\<lparr>c_db := (c_db c)\<lparr>shardManager := m\<rparr>\<rparr>" by simp_all
      from sync_step [OF assms(1) 1(1) Syncing [unfolded Cons] b s(1) 1(3) [unfolded s(2)]] show ?thesis .
    qed
  qed
qed

section \<open>Runs\<close>

text \<open>A property that holds in every state that a schedule visits.\<close>

fun always :: "(Conc \<Rightarrow> bool) \<Rightarrow> Lib \<Rightarrow> nat list \<Rightarrow> Conc \<Rightarrow> bool" where
  "always P lib [] c \<longleftrightarrow> P c"
| "always P lib (i # is) c \<longleftrightarrow> P c \<and> (case conc_step lib i c of None \<Rightarrow> True | Some c1 \<Rightarrow> always P lib is c1)"

lemma always_now: "always P lib is c \<Longrightarrow> P c"
  by (cases "is") simp_all

lemma write_inv_run:
  "run_schedule lib is c = Some c' \<Longrightarrow> always (\<lambda>c. race_free c \<and> flush_safe c) lib is c \<Longrightarrow> write_inv lib mx c \<Longrightarrow> lock_inv c \<Longrightarrow>
     write_inv lib mx c' \<and> lock_inv c'"
proof (induction "is" arbitrary: c)
  case (Cons i "is")
  obtain c1 where s: "conc_step lib i c = Some c1" "run_schedule lib is c1 = Some c'"
    using Cons.prems(1) by (auto split: option.splits)
  have a: "always (\<lambda>c. race_free c \<and> flush_safe c) lib is c1" "race_free c" "flush_safe c" using Cons.prems(2) s(1) by auto
  have "race_free c1" using always_now [OF a(1)] by simp
  from Cons.IH [OF s(2) a(1) write_inv_step [OF Cons.prems(3,4) a(2,3) s(1) this] lock_step [OF Cons.prems(4) s(1)]] show ?case .
qed simp

section \<open>After a crash\<close>

text \<open>The records that the logs have on disk, and the keys they write.\<close>

definition disk_log :: "ShardManager \<Rightarrow> WalEntry list list" where
  "disk_log mgr = map (\<lambda>sh. read_records (fs_disk (wal (sh_wal sh)))) (mgr_shards mgr)"

definition logged_keys :: "ShardManager \<Rightarrow> string set" where
  "logged_keys mgr = (\<lambda>e. word_at (words_of (we_cmd e)) 1) ` set (concat (disk_log mgr))"

lemma read_wal_bytes: "list_all cmd_ok es \<Longrightarrow> read_records (wal_bytes es) = es"
  using read_records_log [of es "[]"] by simp

lemma disk_log_is:
  assumes "logs_are lib mx mgr L D"
  shows "disk_log mgr = map (map entry) D"
proof (rule nth_equalityI)
  show "length (disk_log mgr) = length (map (map entry) D)" using assms by (simp add: disk_log_def logs_are_def)
  fix i assume "i < length (disk_log mgr)"
  then have i: "i < length (mgr_shards mgr)" by (simp add: disk_log_def)
  then have "entries_ok lib mx mgr i (D ! i)" and "fs_disk (wal (sh_wal (mgr_shards mgr ! i))) = wal_bytes (map entry (D ! i))"
    using assms by (auto simp: logs_are_def log_is_def)
  moreover from this(1) have "list_all cmd_ok (map entry (D ! i))"
    by (fastforce simp: entries_ok_def list_all_iff cmd_ok_def entry_def)
  ultimately
  show "disk_log mgr ! i = map (map entry) D ! i"
    using read_wal_bytes i assms by (simp add: disk_log_def logs_are_def)
qed

lemma sort_entries: "sort_key we_seq (map entry es) = map entry (sort_key snd es)"
proof (induction es)
  case (Cons e es)
  have "insort_key we_seq (entry e) (map entry xs) = map entry (insort_key snd e xs)" for xs
    by (induction xs) (auto simp: entry_def)
  with Cons show ?case by simp
qed simp

lemma fold_apply_filter: "fold apply_write ws m k = fold apply_write (filter (\<lambda>w. write_key w = k) ws) m k"
proof (induction ws arbitrary: m)
  case (Cons w ws)
  have "fold apply_write (filter (\<lambda>w. write_key w = k) ws) (apply_write w m) k = fold apply_write (filter (\<lambda>w. write_key w = k) ws) m k"
    if "write_key w \<noteq> k"
  proof (cases "k \<in> write_key ` set (filter (\<lambda>w. write_key w = k) ws)")
    case True
    then show ?thesis by (rule fold_apply_written)
  next
    case False
    then show ?thesis using that apply_write_at(1) [of k w m] by (simp add: fold_apply_other)
  qed
  with Cons show ?case by simp
qed simp

lemma concat_only: "n < length xss \<Longrightarrow> (\<And>i. i < length xss \<Longrightarrow> i \<noteq> n \<Longrightarrow> xss ! i = []) \<Longrightarrow> concat xss = xss ! n"
proof (induction xss arbitrary: n)
  case (Cons xs xss)
  show ?case
  proof (cases n)
    case 0
    have "ys = []" if "ys \<in> set xss" for ys
      using that Cons.prems(2) [of "Suc _"] unfolding 0 in_set_conv_nth by auto
    with 0 show ?thesis by simp
  next
    case (Suc m)
    have "concat xss = xss ! m" using Cons.prems(1) Cons.prems(2) [of "Suc _"] Suc by (intro Cons.IH) auto
    moreover have "xs = []" using Cons.prems(2) [of 0] Suc by simp
    ultimately show ?thesis by (simp add: Suc)
  qed
qed simp

text \<open>For one key, all logs in the order of their numbers say what the log of its shard says.\<close>

lemma merged_logs:
  assumes "logs_are lib mx mgr L D" and "mgr_inv (hash lib) mgr"
  shows "fold apply_write (map fst (sort_key snd (concat D))) m k = fold apply_write (map fst (D ! getShardId (hash lib) mgr k)) m k"
proof -
  let ?P = "\<lambda>e :: logged. write_key (fst e) = k" and ?n = "getShardId (hash lib) mgr k"
  have n: "?n < length D" using assms getShardId_less [OF assms(2)] by (simp add: logs_are_def)
  have e: "entries_ok lib mx mgr i (D ! i)" if "i < length D" for i using assms(1) that by (simp add: logs_are_def)
  have "filter ?P (concat D) = concat (map (filter ?P) D)" by (simp add: filter_concat)
  also have "\<dots> = filter ?P (D ! ?n)"
  proof -
    have "map (filter ?P) D ! i = []" if "i < length (map (filter ?P) D)" "i \<noteq> ?n" for i
      using that e by (fastforce simp: filter_empty_conv entries_ok_def list_all_iff)
    from concat_only [OF _ this] n show ?thesis by simp
  qed
  finally have f: "filter ?P (concat D) = filter ?P (D ! ?n)" .
  have "sorted_wrt (<) (map snd (D ! ?n))" using e [OF n] by (simp add: entries_ok_def)
  then have "sorted (map snd (filter ?P (D ! ?n)))"
    by (auto simp: sorted_wrt_map intro: sorted_wrt_filter sorted_wrt_mono_rel [of _ "\<lambda>x y. snd x < snd y"])
  then have "sort_key snd (filter ?P (concat D)) = filter ?P (D ! ?n)" unfolding f by (rule sort_key_id_if_sorted)
  then have "filter ?P (sort_key snd (concat D)) = filter ?P (D ! ?n)" by (simp add: filter_sort)
  then have "filter (\<lambda>w. write_key w = k) (map fst (sort_key snd (concat D))) = filter (\<lambda>w. write_key w = k) (map fst (D ! ?n))"
    by (simp add: filter_map comp_def)
  then show ?thesis using fold_apply_filter by metis
qed

lemma found_logs_hold:
  assumes "logs_are lib mx mgr L D" and "logs_found mgr mgr1"
  shows "logs_hold mgr1 (map (map entry) D)"
proof -
  have n: "length (mgr_shards mgr1) = length (mgr_shards mgr)" "length D = length (mgr_shards mgr)"
    using assms by (auto simp: logs_found_def logs_are_def list_all2_lengthD)
  have "wal_logged (sh_wal (mgr_shards mgr1 ! i)) (map entry (D ! i))" if i: "i < length (mgr_shards mgr)" for i
  proof -
    have "entries_ok lib mx mgr i (D ! i)" "fs_disk (wal (sh_wal (mgr_shards mgr ! i))) = wal_bytes (map entry (D ! i))"
      using assms(1) i by (auto simp: logs_are_def log_is_def)
    moreover from this(1) have "list_all cmd_ok (map entry (D ! i))"
      by (fastforce simp: entries_ok_def list_all_iff cmd_ok_def entry_def)
    ultimately show ?thesis using assms(2) i by (simp add: logs_found_def list_all2_conv_all_nth wal_logged_def)
  qed
  with n show ?thesis by (simp add: logs_hold_def list_all2_conv_all_nth)
qed

lemma logged_ok:
  assumes "logs_are lib mx mgr L D" and "e \<in> set (concat D)"
  shows "write_ok (fst e) \<and> write_size (fst e) \<le> mx"
proof -
  from assms(2) obtain es where "es \<in> set D" "e \<in> set es" by auto
  then obtain i where i: "i < length D" "e \<in> set (D ! i)" by (metis in_set_conv_nth)
  then have "entries_ok lib mx mgr i (D ! i)" using assms(1) by (simp add: logs_are_def)
  with i(2) show ?thesis by (auto simp: entries_ok_def list_all_iff)
qed

lemma logged_keys_are:
  assumes "logs_are lib mx mgr L D"
  shows "logged_keys mgr = (write_key \<circ> fst) ` set (concat D)"
proof -
  have "word_at (words_of (we_cmd (entry e))) 1 = write_key (fst e)" if "e \<in> set (concat D)" for e
    using write_words(3) [of "fst e"] logged_ok [OF assms that] by (simp add: entry_def)
  then have "(\<lambda>e. word_at (words_of (we_cmd e)) 1) ` entry ` set (concat D) = (write_key \<circ> fst) ` set (concat D)"
    unfolding image_image comp_def by (rule image_cong [OF refl])
  then show ?thesis unfolding logged_keys_def disk_log_is [OF assms] by (simp add: image_UN image_image)
qed

lemma crash_replay:
  assumes "write_inv lib mx c" and "z_inv lib z1"
    and "mgr_ready (length (concat (disk_log (shardManager (c_db c))))) mx (shardManager z1)"
    and "logs_found (shardManager (c_db c)) (shardManager z1)"
    and "\<And>k. k \<notin> logged_keys (shardManager (c_db c)) \<Longrightarrow> z_db lib z1 k = c_flushed c k"
  shows "\<exists>z2. replayWAL lib z1 = Some z2 \<and> z_inv lib z2 \<and> (\<forall>k. k \<notin> unacked lib c \<longrightarrow> z_db lib z2 k = z_db lib (c_db c) k)"
proof -
  let ?m = "shardManager (c_db c)"
  have b: "z_inv lib (c_db c)" "mx < 2 ^ 64" using assms(1) by (auto simp: write_inv_def base_inv_def)
  then have mi: "mgr_inv (hash lib) ?m" by (simp add: z_inv_def)
  obtain L D where ld: "logs_are lib mx ?m L D" "logs_tell lib c L D" using assms(1) by (auto simp: write_inv_def)
  let ?es = "sort_key snd (concat D)"
  note logged_ok [OF ld(1)]
  then have ok: "list_all write_ok (map fst ?es)" "list_all (\<lambda>w. write_size w \<le> mx) (map fst ?es)" by (auto simp: list_all_iff)
  have s: "map we_cmd (sort_key we_seq (concat (map (map entry) D))) = map line_of (map fst ?es)"
    by (simp add: map_concat [symmetric] sort_entries) (simp add: entry_def comp_def)
  have "length (concat (disk_log ?m)) = length (map fst ?es)" by (simp add: disk_log_is [OF ld(1)] map_concat [symmetric])
  with assms(3) have "mgr_ready (length (map fst ?es)) mx (shardManager z1)" by simp
  from replayWAL_lines [OF assms(2) this b(2) ok found_logs_hold [OF ld(1) assms(4)] s]
  obtain z2 where z2: "replayWAL lib z1 = Some z2" "z_inv lib z2" "z_db lib z2 = fold apply_write (map fst ?es) (z_db lib z1)" by blast
  have "fold apply_write (map fst ?es) (z_db lib z1) = fold apply_write (map fst ?es) (c_flushed c)"
    using assms(5) unfolding logged_keys_are [OF ld(1)] by (intro fold_apply_idem) (auto simp: image_image)
  with z2(3) have "z_db lib z2 k = z_db lib (c_db c) k" if "k \<notin> unacked lib c" for k
    using that ld(2) merged_logs [OF ld(1) mi] by (simp add: logs_tell_def)
  with z2(1,2) show ?thesis by blast
qed

section \<open>The start\<close>

text \<open>The threads start on a database whose logs are empty and on disk, with room for all their commands.\<close>

lemma empty_logs_are:
  assumes "log_state mgr []" and "logs_sound mgr" and "logs_on_disk mgr"
  shows "logs_are lib mx mgr (map (\<lambda>_. []) (mgr_shards mgr)) (map (\<lambda>_. []) (mgr_shards mgr))"
proof -
  obtain logs where l: "list_all2 (\<lambda>sh es. wal_logged (sh_wal sh) es) (mgr_shards mgr) logs" "concat logs = []"
    using assms(1) by (auto simp: log_state_def logs_hold_def)
  have "log_is (sh_wal (mgr_shards mgr ! i)) [] []" if i: "i < length (mgr_shards mgr)" for i
  proof -
    have "logs ! i = []" using l i by (auto simp: list_all2_lengthD)
    then have "wal_logged (sh_wal (mgr_shards mgr ! i)) []" using l(1) i by (metis list_all2_nthD)
    with assms(2,3) i show ?thesis
      by (auto simp: log_is_def logs_sound_def logs_on_disk_def on_disk_def wal_logged_def list_all_length)
  qed
  with assms(2) show ?thesis by (simp add: logs_are_def logs_sound_def list_all_length)
qed

definition clients :: "client_op list list \<Rightarrow> request list list" where
  "clients opss = map (map request_of) opss"

lemma new_write_inv:
  assumes "live_state lib (sum_list (map length opss)) mx [] z" and "list_all (list_all (good_op lib z mx)) opss"
  shows "write_inv lib mx (new_Conc lib z (clients opss))"
proof -
  let ?c = "new_Conc lib z (clients opss)"
  note l = assms(1) [unfolded live_state_def]
  have left: "runs_left ?c = sum_list (map length opss)" "logs_left ?c = sum_list (map length opss)"
    by (simp_all add: runs_left_def logs_left_def new_Conc_def clients_def comp_def)
  have th: "list_all (thread_ok lib mx z) (c_threads ?c)"
    using assms(2) by (auto simp: new_Conc_def clients_def thread_ok_def list_all_iff)
  have "inflight t = {}" "t_unsynced t = []" if "t \<in> set (c_threads ?c)" for t
    using that by (auto simp: new_Conc_def clients_def inflight_def)
  then have "writing ?c = {}" "queued ?c = {}" by (simp_all add: writing_def queued_def)
  moreover have mi: "mgr_inv (hash lib) (shardManager z)" using l by (simp add: z_inv_def)
  ultimately have "logs_tell lib ?c (map (\<lambda>_. []) (mgr_shards (shardManager z))) (map (\<lambda>_. []) (mgr_shards (shardManager z)))"
    using getShardId_less [OF mi] by (simp add: logs_tell_def new_Conc_def)
  moreover have "base_inv lib mx ?c" using l left th by (simp add: base_inv_def) (simp add: new_Conc_def)
  ultimately show ?thesis
    using empty_logs_are l by (intro write_invI) (auto simp: new_Conc_def)
qed

section \<open>Clients that sync every write\<close>

text \<open>
  When every write is synced by its own call, the lock is held until the log is on disk, and a flush
  never meets a log that is still to be synced.
\<close>

fun synced :: "request \<Rightarrow> bool" where
  "synced (Exec line role sync) = sync"
| "synced SyncLogs = True"

definition sync_ok :: "Thread \<Rightarrow> bool" where
  "sync_ok t \<longleftrightarrow> list_all synced (t_todo t)
     \<and> (case t_phase t of
          Idle \<Rightarrow> t_unsynced t = []
        | Waiting j \<Rightarrow> j_sync j \<and> t_unsynced t = []
        | Holding j \<Rightarrow> j_sync j \<and> t_unsynced t = []
        | Ran j r \<Rightarrow> j_sync j \<and> t_unsynced t = []
        | Syncing ro l ok is \<Rightarrow> t_unsynced t \<noteq> [] \<longrightarrow> l = Some SharedLock)"

lemma write_lock: "isWrite cmd \<Longrightarrow> lock_of cmd = SharedLock"
  by (auto simp: isWrite_def lock_of_def)

lemma sync_flush_safe:
  assumes "lock_inv c" and "list_all sync_ok (c_threads c)"
  shows "flush_safe c"
proof -
  have "t_unsynced u = []"
    if t: "t \<in> set (c_threads c)" "t_phase t = Holding j" "j_cmd j = ''f''" and u: "u \<in> set (c_threads c)" for t j u
  proof -
    obtain i where i: "i < length (c_threads c)" "t = c_threads c ! i" using t(1) by (metis in_set_conv_nth)
    obtain q where q: "q < length (c_threads c)" "u = c_threads c ! q" using u by (metis in_set_conv_nth)
    have s: "sync_ok u" using assms(2) u by (simp add: list_all_iff)
    show ?thesis
    proof (cases "q = i")
      case True
      with s q(2) i(2) t(2) show ?thesis by (simp add: sync_ok_def)
    next
      case False
      from unique_is_alone [OF assms(1) i(1) _ q(1) this] t(2,3) i(2) q(2) have "holds (t_phase u) = None" by simp
      with s show ?thesis by (cases "t_phase u") (auto simp: sync_ok_def)
    qed
  qed
  then show ?thesis by (auto simp: flush_safe_def list_all_iff list_ex_iff elim!: flushing.elims)
qed

lemma sync_start: "synced q \<Longrightarrow> t_unsynced t = [] \<Longrightarrow> list_all synced (t_todo t) \<Longrightarrow> sync_ok (start_request q t c)"
  by (cases q) (auto simp: sync_ok_def split: sum.splits dest: parse_command_job)

lemma sync_ok_step:
  assumes "write_inv lib mx c" and "race_free c" and "list_all sync_ok (c_threads c)" and "conc_step lib i c = Some c'"
  shows "list_all sync_ok (c_threads c')"
  using assms(4)
proof (cases rule: conc_stepE)
  case (1 t' c1)
  let ?t = "c_threads c ! i"
  have s: "sync_ok ?t" using assms(3) 1(1) by (simp add: list_all_length)
  note t_ok = thread_at [OF assms(1) 1(1)]
  have "sync_ok t'"
  proof (cases "t_phase ?t")
    case Idle
    from idle_step [OF this 1(2)] obtain q qs where "t_todo ?t = q # qs" "t' = start_request q (?t\<lparr>t_todo := qs\<rparr>) c" by blast
    moreover from s Idle have "list_all synced (t_todo ?t)" "t_unsynced ?t = []" by (simp_all add: sync_ok_def)
    ultimately show ?thesis by (simp add: sync_start)
  next
    case (Waiting j)
    from waiting_step [OF this 1(2)] s Waiting show ?thesis by (auto simp: sync_ok_def)
  next
    case (Holding j)
    with s 1(2) show ?thesis by (auto simp: sync_ok_def run_job_def Let_def split: prod.splits option.splits)
  next
    case (Ran j r)
    have g: "\<exists>role w s. j = write_job w s \<and> good_op lib (c_db c) mx (CWrite role w s)" if "isWrite (j_cmd j)"
      using that t_ok Ran by (auto simp: thread_ok_def good_job_def)
    have a: "fst (z_appendToWAL lib (job_key j) (j_command j) (c_db c))" if l: "to_log j r (c_db c)"
    proof -
      obtain role w s where w: "j = write_job w s" "good_op lib (c_db c) mx (CWrite role w s)" using g l by (auto simp: to_log_def)
      with append_ok [OF assms(1) 1(1) Ran [unfolded w(1)] w(2)] show ?thesis by simp
    qed
    with s 1(2) Ran show ?thesis
      by (auto simp: sync_ok_def log_job_def Let_def to_log_def write_lock split: prod.splits if_splits)
  next
    case (Syncing ro l ok ns)
    moreover from this have "ok" using t_ok by (simp add: thread_ok_def)
    ultimately show ?thesis using s 1(2) by (cases ns) (auto simp: sync_ok_def split: prod.splits)
  qed
  with assms(3) 1(1) show ?thesis by (auto simp: 1(3) list_all_length nth_list_update)
qed

lemma synced_run:
  "run_schedule lib is c = Some c' \<Longrightarrow> always race_free lib is c \<Longrightarrow> write_inv lib mx c \<Longrightarrow> lock_inv c \<Longrightarrow> list_all sync_ok (c_threads c) \<Longrightarrow>
     write_inv lib mx c' \<and> always flush_safe lib is c"
proof (induction "is" arbitrary: c)
  case Nil
  then show ?case using sync_flush_safe by simp
next
  case (Cons i "is")
  obtain c1 where s: "conc_step lib i c = Some c1" "run_schedule lib is c1 = Some c'"
    using Cons.prems(1) by (auto split: option.splits)
  have a: "always race_free lib is c1" "race_free c" "race_free c1" using Cons.prems(2) s(1) always_now by auto
  have f: "flush_safe c" by (rule sync_flush_safe [OF Cons.prems(4,5)])
  from Cons.IH [OF s(2) a(1) write_inv_step [OF Cons.prems(3,4) a(2) f s(1) a(3)] lock_step [OF Cons.prems(4) s(1)]
      sync_ok_step [OF Cons.prems(3) a(2) Cons.prems(5) s(1)]] f s(1) show ?case by simp
qed

section \<open>Clients with keys of their own\<close>

text \<open>
  The jobs that a thread has or will have become only fewer. So what the requests of the clients tell of
  their jobs, such as that no key is written by two of them, holds of every state.
\<close>

fun request_jobs :: "request \<Rightarrow> job list" where
  "request_jobs (Exec line role sync) = (case parse_command line role sync of Inl r \<Rightarrow> [] | Inr j \<Rightarrow> [j])"
| "request_jobs SyncLogs = []"

fun phase_jobs :: "phase \<Rightarrow> job list" where
  "phase_jobs (Waiting j) = [j]"
| "phase_jobs (Holding j) = [j]"
| "phase_jobs (Ran j r) = [j]"
| "phase_jobs _ = []"

definition thread_jobs :: "Thread \<Rightarrow> job list" where
  "thread_jobs t = phase_jobs (t_phase t) @ concat (map request_jobs (t_todo t))"

lemma thread_jobs_step:
  assumes "thread_step lib t c = Some (t', c')"
  shows "set (thread_jobs t') \<subseteq> set (thread_jobs t)"
proof (cases "t_phase t")
  case Idle
  from idle_step [OF this assms] obtain q qs where q: "t_todo t = q # qs" "t' = start_request q (t\<lparr>t_todo := qs\<rparr>) c" by blast
  with Idle show ?thesis by (cases q) (auto simp: thread_jobs_def split: sum.splits)
next
  case (Syncing ro l ok "is")
  with assms show ?thesis by (cases "is") (auto simp: thread_jobs_def split: prod.splits)
qed (use assms in \<open>auto simp: thread_jobs_def run_job_def log_job_def Let_def split: prod.splits option.splits if_splits\<close>)

definition fewer_jobs :: "Conc \<Rightarrow> Conc \<Rightarrow> bool" where
  "fewer_jobs c d \<longleftrightarrow> list_all2 (\<lambda>t u. set (thread_jobs u) \<subseteq> set (thread_jobs t)) (c_threads c) (c_threads d)"

lemma fewer_jobs_step:
  assumes "fewer_jobs c d" and "conc_step lib i d = Some d'"
  shows "fewer_jobs c d'"
  using assms(2)
proof (cases rule: conc_stepE)
  case (1 t d1)
  with assms(1) thread_jobs_step [OF 1(2)] show ?thesis
    by (fastforce simp: fewer_jobs_def list_all2_conv_all_nth nth_list_update)
qed

lemma always_fewer:
  assumes "fewer_jobs c d" and "\<And>d. fewer_jobs c d \<Longrightarrow> P d"
  shows "always P lib is d"
  using assms by (induction "is" arbitrary: d) (auto split: option.splits intro: fewer_jobs_step)

definition written_keys :: "Thread \<Rightarrow> string list" where
  "written_keys t = map job_key (filter (\<lambda>j. isWrite (j_cmd j)) (thread_jobs t))"

lemma own_keys_race_free:
  assumes "\<And>i j. i < length (c_threads c) \<Longrightarrow> j < length (c_threads c) \<Longrightarrow> i \<noteq> j \<Longrightarrow>
    set (written_keys (c_threads c ! i)) \<inter> set (written_keys (c_threads c ! j)) = {}"
  shows "always race_free lib is c"
proof (rule always_fewer [of c])
  fix d
  assume f: "fewer_jobs c d"
  have s: "inflight (c_threads d ! i) \<subseteq> set (written_keys (c_threads c ! i))" if i: "i < length (c_threads d)" for i
  proof -
    have "inflight t \<subseteq> set (written_keys t)" for t
      by (cases "t_phase t") (auto simp: inflight_def written_keys_def thread_jobs_def)
    moreover have "set (written_keys (c_threads d ! i)) \<subseteq> set (written_keys (c_threads c ! i))"
      using f i by (fastforce simp: fewer_jobs_def list_all2_conv_all_nth written_keys_def)
    ultimately show ?thesis by blast
  qed
  have n: "length (c_threads d) = length (c_threads c)" using f by (simp add: fewer_jobs_def list_all2_lengthD)
  have "inflight (c_threads d ! i) \<inter> inflight (c_threads d ! j) = {}"
    if ij: "i < length (c_threads d)" "j < length (c_threads d)" "i \<noteq> j" for i j
    using s [OF ij(1)] s [OF ij(2)] assms [of i j] ij n by auto
  then show "race_free d" by (simp add: race_free_def)
qed (simp add: fewer_jobs_def list_all2_refl)

text \<open>Without a command that takes the unique lock, nothing is flushed.\<close>

lemma shared_only:
  assumes "list_all (\<lambda>t. list_all (\<lambda>j. lock_of (j_cmd j) = SharedLock) (thread_jobs t)) (c_threads c)"
  shows "always flush_safe lib is c" and "run_schedule lib is c = Some c' \<Longrightarrow> c_flushed c' = c_flushed c"
proof -
  have s: "lock_of (j_cmd j) = SharedLock" if d: "fewer_jobs c d" "t \<in> set (c_threads d)" "t_phase t = Holding j" for d t j
  proof -
    obtain i where "i < length (c_threads d)" "t = c_threads d ! i" using d(2) by (metis in_set_conv_nth)
    with d(1,3) have "j \<in> set (thread_jobs (c_threads c ! i))" "i < length (c_threads c)"
      by (fastforce simp: fewer_jobs_def list_all2_conv_all_nth thread_jobs_def)+
    with assms nth_mem show ?thesis unfolding list_all_iff by blast
  qed
  show "always flush_safe lib is c"
  proof (rule always_fewer [of c])
    fix d
    assume f: "fewer_jobs c d"
    then have "\<not> flushing (t_phase t)" if "t \<in> set (c_threads d)" for t
      using s [OF f that] by (auto elim!: flushing.elims(2) simp: lock_of_def)
    then show "flush_safe d" by (auto simp: flush_safe_def list_ex_iff)
  qed (simp add: fewer_jobs_def list_all2_refl)
  have step: "fewer_jobs c d' \<and> c_flushed d' = c_flushed c"
    if f: "fewer_jobs c d \<and> c_flushed d = c_flushed c" and st: "conc_step lib i d = Some d'" for i d d'
    using st
  proof (cases rule: conc_stepE)
    case (1 t d1)
    have "\<not> flushes (j_cmd j) (c_db d)" if "t_phase (c_threads d ! i) = Holding j" for j
      using s [OF conjunct1 [OF f] nth_mem [OF 1(1)] that] by (auto simp: flushes_def lock_of_def split: if_splits)
    with 1(2) have "c_flushed d1 = c_flushed d"
      by (auto simp: run_job_def log_job_def Let_def split: phase.splits list.splits option.splits prod.splits if_splits
          elim!: sync_next.elims)
    with f 1(3) fewer_jobs_step [OF conjunct1 [OF f] st] show ?thesis by simp
  qed
  show "c_flushed c' = c_flushed c" if "run_schedule lib is c = Some c'"
    using run_schedule_keeps [of "\<lambda>d. fewer_jobs c d \<and> c_flushed d = c_flushed c" lib, OF step that]
    by (simp add: fewer_jobs_def list_all2_refl)
qed

end
