(* ===== verification/Concurrent_Properties.thy ===== *)
theory Concurrent_Properties
  imports Command_Properties Writers
begin

text \<open>
  What threads that call \<open>execCmd\<close> at the same time are guaranteed, for every schedule: acknowledged
  writes survive a crash unless two writers of one key overtake each other or a flush comes between a
  write and its sync, every call is answered, and a command that runs alone does what \<open>execCmd\<close> does.
  The two exceptions are shown to be real on the small database of \<open>Examples\<close>.
\<close>

section \<open>Writers and crashes\<close>

text \<open>C2: Threads that write at the same time. Clients set, delete and get keys, flush and sync on
  several threads, every write is synced by its own call, no file call fails and the process dies at any
  moment of any schedule in which no two threads are at once between the map and the log with the same
  key. Whatever a new process finds for the logged keys, replaying the logs that were on disk succeeds
  and gives every key without an unacknowledged write the value it had.\<close>

theorem concurrent_writes_survive:
  assumes "live_state lib (sum_list (map length opss)) mx [] z" and "list_all (list_all (good_op lib z mx)) opss"
    and "list_all (list_all synced) (clients opss)"
    and "run_schedule lib is (new_Conc lib z (clients opss)) = Some c" and "always race_free lib is (new_Conc lib z (clients opss))"
    and "z_inv lib z1" and "mgr_ready (length (concat (disk_log (shardManager (c_db c))))) mx (shardManager z1)"
    and "logs_found (shardManager (c_db c)) (shardManager z1)"
    and "\<forall>k. k \<notin> logged_keys (shardManager (c_db c)) \<longrightarrow> z_db lib z1 k = c_flushed c k"
  shows "\<exists>z2. replayWAL lib z1 = Some z2 \<and> z_inv lib z2 \<and> (\<forall>k. k \<notin> unacked lib c \<longrightarrow> z_db lib z2 k = z_db lib (c_db c) k)"
proof -
  have "list_all sync_ok (c_threads (new_Conc lib z (clients opss)))"
    using assms(3) by (auto simp: new_Conc_def clients_def sync_ok_def list_all_iff)
  with synced_run [OF assms(4,5) new_write_inv [OF assms(1,2)] new_Conc_locks] have "write_inv lib mx c" by simp
  then show ?thesis by (rule crash_replay [OF _ assms(6-8)]) (use assms(9) in blast)
qed

text \<open>C3: The same for clients that leave the syncing to the end of a batch: it is enough that a flush
  never finds a log that some thread still has to sync.\<close>

theorem batched_writes_survive:
  assumes "live_state lib (sum_list (map length opss)) mx [] z" and "list_all (list_all (good_op lib z mx)) opss"
    and "run_schedule lib is (new_Conc lib z (clients opss)) = Some c"
    and "always (\<lambda>c. race_free c \<and> flush_safe c) lib is (new_Conc lib z (clients opss))"
    and "z_inv lib z1" and "mgr_ready (length (concat (disk_log (shardManager (c_db c))))) mx (shardManager z1)"
    and "logs_found (shardManager (c_db c)) (shardManager z1)"
    and "\<forall>k. k \<notin> logged_keys (shardManager (c_db c)) \<longrightarrow> z_db lib z1 k = c_flushed c k"
  shows "\<exists>z2. replayWAL lib z1 = Some z2 \<and> z_inv lib z2 \<and> (\<forall>k. k \<notin> unacked lib c \<longrightarrow> z_db lib z2 k = z_db lib (c_db c) k)"
proof -
  have "write_inv lib mx c" using write_inv_run [OF assms(3,4) new_write_inv [OF assms(1,2)] new_Conc_locks] by simp
  then show ?thesis by (rule crash_replay [OF _ assms(5-7)]) (use assms(8) in blast)
qed

section \<open>Locks and answers\<close>

text \<open>C14: No deadlock and no endless run. In every state that the threads reach, there is no endless
  continuation, and when no thread can take a step all have finished, with one answer for each request.\<close>

theorem calls_are_answered:
  assumes "run_schedule lib is (new_Conc lib z qss) = Some c"
  shows "(\<nexists>f sched. f 0 = c \<and> (\<forall>n. conc_step lib (sched n) (f n) = Some (f (Suc n))))
    \<and> ((\<forall>i. conc_step lib i c = None) \<longrightarrow>
         list_all finished (c_threads c) \<and> map (\<lambda>t. length (t_answers t)) (c_threads c) = map length qss)"
proof (intro conjI impI)
  have l: "lock_inv c" by (rule lock_reach [OF assms new_Conc_locks])
  show "\<nexists>f sched. f 0 = c \<and> (\<forall>n. conc_step lib (sched n) (f n) = Some (f (Suc n)))" using no_endless_run by blast
  have r: "map requests (c_threads c) = map length qss"
    using requests_reach [OF assms] by (simp add: new_Conc_def requests_def comp_def)
  assume "\<forall>i. conc_step lib i c = None"
  with no_deadlock [OF l, of _ lib] show f: "list_all finished (c_threads c)" by (fastforce simp: list_all_iff)
  then have "map requests (c_threads c) = map (\<lambda>t. length (t_answers t)) (c_threads c)"
    by (auto simp: list_all_iff requests_def finished_def)
  with r show "map (\<lambda>t. length (t_answers t)) (c_threads c) = map length qss" by simp
qed

text \<open>C15: The steps of a thread are \<open>execCmd\<close> cut into pieces: when nobody holds the lock and no other
  thread steps, a call returns with the answer of \<open>execCmd\<close>, the database it leaves, and the lock free.\<close>

theorem alone_is_execCmd:
  assumes "i < length (c_threads c)" and "t_phase (c_threads c ! i) = Idle"
    and "t_todo (c_threads c ! i) = Exec line role sync # qs" and "readers (c_mtx c) = 0" and "\<not> writer (c_mtx c)"
  shows "\<exists>n c' t. run_schedule lib (replicate n i) c = Some c' \<and> c_db c' = snd (execCmd lib line role sync (c_db c))
    \<and> c_mtx c' = c_mtx c \<and> c_threads c' = (c_threads c)[i := t] \<and> t_phase t = Idle \<and> t_todo t = qs
    \<and> t_answers t = t_answers (c_threads c ! i) @ [Answered (fst (execCmd lib line role sync (c_db c)))]"
  by (rule exec_alone [OF assms])

theorem alone_is_execCmd_witness:
  "\<exists>n c' t. run_schedule lib0 (replicate n 0) (new_Conc lib0 z0 [[Exec (set_line ''a'' ''x'') Write True]]) = Some c'
    \<and> c_db c' = snd (execCmd lib0 (set_line ''a'' ''x'') Write True z0) \<and> c_threads c' = [t]
    \<and> t_answers t = [Answered (fst (execCmd lib0 (set_line ''a'' ''x'') Write True z0))]"
  using alone_is_execCmd [of 0 "new_Conc lib0 z0 [[Exec (set_line ''a'' ''x'') Write True]]" "set_line ''a'' ''x''" Write True "[]" lib0]
  by (simp add: new_Conc_def) blast

section \<open>Examples\<close>

text \<open>Two clients that write different keys, with interleaved steps: \<open>ops1\<close> syncs every write, and \<open>ops2\<close> has a
  client that syncs at its end, and another that is cut off between the map and the log.\<close>

definition ops1 :: "client_op list list" where
  "ops1 = [[CWrite Write (WSet ''a'' ''x'') True], [CWrite Write (WSet ''bb'' ''y'') True]]"

definition sched1 :: "nat list" where
  "sched1 = [0, 1, 0, 1, 0, 1, 0, 1, 0, 1, 0, 1, 0, 1]"

definition ops2 :: "client_op list list" where
  "ops2 = [[CWrite Write (WSet ''a'' ''x'') False, CSync], [CWrite Write (WSet ''bb'' ''y'') True]]"

definition sched2 :: "nat list" where
  "sched2 = [0, 1, 0, 1, 0, 1, 0, 0, 0, 0, 0]"

lemma ops_good: "list_all (list_all (good_op lib0 z0 64)) ops1" "list_all (list_all (good_op lib0 z0 64)) ops2"
  by (simp_all add: ops1_def ops2_def key_accepted_def value_accepted_def validateKey_def validateValue_def
      plain_word_def plain_value_def is_ws_def is_eol_def MAX_KEY_SIZE_def set_line_def)

definition ends_with :: "nat \<Rightarrow> string list \<Rightarrow> Conc option \<Rightarrow> bool" where
  "ends_with n ks r = (case r of None \<Rightarrow> False | Some c \<Rightarrow> shard_count (c_db c) = 2
     \<and> length (concat (disk_log (shardManager (c_db c)))) = n \<and> unacked lib0 c = set ks \<and> z_db lib0 (c_db c) ''a'' = Some ''x''
     \<and> (ks = [] \<longrightarrow> list_all finished (c_threads c)))"

lemma run1: "ends_with 2 [] (run_schedule lib0 sched1 (new_Conc lib0 z0 (clients ops1)))"
  by code_simp

lemma run2: "ends_with 1 [''bb''] (run_schedule lib0 sched2 (new_Conc lib0 z0 (clients ops2)))"
  by code_simp

definition sharers :: "request list list \<Rightarrow> bool" where
  "sharers qss \<longleftrightarrow> list_all (list_all (\<lambda>q. list_all (\<lambda>j. lock_of (j_cmd j) = SharedLock) (request_jobs q))) qss
     \<and> map (\<lambda>qs. map job_key (filter (\<lambda>j. isWrite (j_cmd j)) (concat (map request_jobs qs)))) qss = [[''a''], [''bb'']]"

lemma sharers_ops: "sharers (clients ops1)" "sharers (clients ops2)"
  by code_simp+

lemma sharers_safe:
  assumes "sharers qss"
  shows "always race_free lib is (new_Conc lib z qss)" and "always flush_safe lib is (new_Conc lib z qss)"
    and "run_schedule lib is (new_Conc lib z qss) = Some c \<Longrightarrow> c_flushed c = z_db lib z"
proof -
  let ?c = "new_Conc lib z qss"
  have w: "map written_keys (c_threads ?c) = [[''a''], [''bb'']]"
    using assms by (simp add: sharers_def written_keys_def thread_jobs_def new_Conc_def comp_def)
  then obtain t u where "c_threads ?c = [t, u]" "written_keys t = [''a'']" "written_keys u = [''bb'']" by auto
  then show "always race_free lib is ?c" by (intro own_keys_race_free) (auto simp: less_Suc_eq)
  have "list_all (\<lambda>t. list_all (\<lambda>j. lock_of (j_cmd j) = SharedLock) (thread_jobs t)) (c_threads ?c)"
    using assms by (auto simp: sharers_def thread_jobs_def new_Conc_def list_all_iff)
  note s = shared_only [OF this]
  show "always flush_safe lib is ?c" by (rule s(1))
  show "c_flushed c = z_db lib z" if "run_schedule lib is ?c = Some c" using s(2) [OF that] by (simp add: new_Conc_def)
qed

lemma always_conj: "always (\<lambda>c. P c \<and> Q c) lib is c \<longleftrightarrow> always P lib is c \<and> always Q lib is c"
  by (induction "is" arbitrary: c) (auto split: option.splits)

text \<open>The new process finds nothing but the logs.\<close>

lemma after_run:
  assumes "ends_with n ks (run_schedule lib0 is (new_Conc lib0 z0 qss))"
    and "sharers qss" and "2 * n + 2 < 2 ^ 32"
  obtains c where "run_schedule lib0 is (new_Conc lib0 z0 qss) = Some c" "c_flushed c = z_db lib0 z0" "unacked lib0 c = set ks"
    "z_db lib0 (c_db c) ''a'' = Some ''x''" "z_inv lib0 (lose_all_but_logs z0 (c_db c))"
    "mgr_ready (length (concat (disk_log (shardManager (c_db c))))) 64 (shardManager (lose_all_but_logs z0 (c_db c)))"
    "logs_found (shardManager (c_db c)) (shardManager (lose_all_but_logs z0 (c_db c)))"
    "z_db lib0 (lose_all_but_logs z0 (c_db c)) = z_db lib0 z0"
proof -
  obtain c where c: "run_schedule lib0 is (new_Conc lib0 z0 qss) = Some c" "shard_count (c_db c) = 2"
    "length (concat (disk_log (shardManager (c_db c)))) = n" "unacked lib0 c = set ks" "z_db lib0 (c_db c) ''a'' = Some ''x''"
    using assms(1) by (auto simp: ends_with_def split: option.splits)
  have "c_flushed c = z_db lib0 z0" by (rule sharers_safe(3) [OF assms(2) c(1)])
  moreover have "mgr_ready n 64 (shardManager z0)" using mgr0_ready [OF assms(3)] by simp
  moreover have "shard_count (c_db c) = shard_count z0" using c(2) by (simp add: mgr0_def)
  ultimately show thesis using that [OF c(1) _ c(4,5)] lose_all_but_logs_state [OF z0_inv, of n 64 "c_db c"] c(3) by simp
qed

theorem concurrent_writes_survive_witness:
  "\<exists>c z2. run_schedule lib0 sched1 (new_Conc lib0 z0 (clients ops1)) = Some c
     \<and> replayWAL lib0 (lose_all_but_logs z0 (c_db c)) = Some z2 \<and> z_db lib0 z2 = z_db lib0 (c_db c)"
proof -
  note a = sharers_safe [OF sharers_ops(1)]
  have s: "list_all (list_all synced) (clients ops1)" by (simp add: ops1_def clients_def)
  have l: "live_state lib0 (sum_list (map length ops1)) 64 [] z0" by (rule z0_live) (simp add: ops1_def)
  have n: "2 * 2 + 2 < (2 :: nat) ^ 32" by simp
  from run1 sharers_ops(1) n show ?thesis
  proof (rule after_run)
    fix c
    assume c: "run_schedule lib0 sched1 (new_Conc lib0 z0 (clients ops1)) = Some c" "c_flushed c = z_db lib0 z0" "unacked lib0 c = set []"
      "z_inv lib0 (lose_all_but_logs z0 (c_db c))"
      "mgr_ready (length (concat (disk_log (shardManager (c_db c))))) 64 (shardManager (lose_all_but_logs z0 (c_db c)))"
      "logs_found (shardManager (c_db c)) (shardManager (lose_all_but_logs z0 (c_db c)))"
      "z_db lib0 (lose_all_but_logs z0 (c_db c)) = z_db lib0 z0"
    obtain z2 where "replayWAL lib0 (lose_all_but_logs z0 (c_db c)) = Some z2"
      "\<forall>k. k \<notin> unacked lib0 c \<longrightarrow> z_db lib0 z2 k = z_db lib0 (c_db c) k"
      using concurrent_writes_survive [OF l ops_good(1) s c(1) a(1) c(4-6)] unfolding c(2,7) by blast
    moreover from this(2) have "z_db lib0 z2 = z_db lib0 (c_db c)" unfolding c(3) by auto
    ultimately show ?thesis using c(1) by blast
  qed
qed

theorem batched_writes_survive_witness:
  "\<exists>c z2. run_schedule lib0 sched2 (new_Conc lib0 z0 (clients ops2)) = Some c
     \<and> replayWAL lib0 (lose_all_but_logs z0 (c_db c)) = Some z2 \<and> z_db lib0 z2 ''a'' = Some ''x''"
proof -
  have a: "always (\<lambda>c. race_free c \<and> flush_safe c) lib0 sched2 (new_Conc lib0 z0 (clients ops2))"
    unfolding always_conj using sharers_safe [OF sharers_ops(2)] by blast
  have l: "live_state lib0 (sum_list (map length ops2)) 64 [] z0" by (rule z0_live) (simp add: ops2_def)
  have n: "2 * 1 + 2 < (2 :: nat) ^ 32" by simp
  from run2 sharers_ops(2) n show ?thesis
  proof (rule after_run)
    fix c
    assume c: "run_schedule lib0 sched2 (new_Conc lib0 z0 (clients ops2)) = Some c" "c_flushed c = z_db lib0 z0"
      "unacked lib0 c = set [''bb'']" "z_db lib0 (c_db c) ''a'' = Some ''x''" "z_inv lib0 (lose_all_but_logs z0 (c_db c))"
      "mgr_ready (length (concat (disk_log (shardManager (c_db c))))) 64 (shardManager (lose_all_but_logs z0 (c_db c)))"
      "logs_found (shardManager (c_db c)) (shardManager (lose_all_but_logs z0 (c_db c)))"
      "z_db lib0 (lose_all_but_logs z0 (c_db c)) = z_db lib0 z0"
    obtain z2 where "replayWAL lib0 (lose_all_but_logs z0 (c_db c)) = Some z2"
      "\<forall>k. k \<notin> unacked lib0 c \<longrightarrow> z_db lib0 z2 k = z_db lib0 (c_db c) k"
      using batched_writes_survive [OF l ops_good(2) c(1) a c(5-7)] unfolding c(2,8) by blast
    moreover from this(2) have "z_db lib0 z2 ''a'' = z_db lib0 (c_db c) ''a''" unfolding c(3) by simp
    ultimately show ?thesis using c(1,4) by metis
  qed
qed

theorem calls_are_answered_witness:
  "\<exists>c. run_schedule lib0 sched1 (new_Conc lib0 z0 (clients ops1)) = Some c \<and> (\<forall>i. conc_step lib0 i c = None)
     \<and> map (\<lambda>t. length (t_answers t)) (c_threads c) = [1, 1]"
proof -
  obtain c where c: "run_schedule lib0 sched1 (new_Conc lib0 z0 (clients ops1)) = Some c" "list_all finished (c_threads c)"
    using run1 by (auto simp: ends_with_def split: option.splits)
  have "conc_step lib0 i c = None" for i
    using c(2) thread_blocked [of lib0 "c_threads c ! i" c] by (auto simp: conc_step_def list_all_length)
  moreover have "map length (clients ops1) = [1, 1]" by (simp add: clients_def ops1_def)
  ultimately show ?thesis using calls_are_answered [OF c(1)] c(1) by auto
qed

section \<open>Two ways to lose an acknowledged write\<close>

text \<open>All calls have returned with success.\<close>

fun succeeds :: "answer \<Rightarrow> bool" where
  "succeeds (Answered ro) = succeeded ro"
| "succeeds (Synced ok) = ok"

definition all_succeed :: "Conc \<Rightarrow> bool" where
  "all_succeed c \<longleftrightarrow> list_all (\<lambda>t. finished t \<and> list_all succeeds (t_answers t)) (c_threads c)"

definition tells_other :: "(Conc \<Rightarrow> ZestDB) \<Rightarrow> Conc option \<Rightarrow> bool" where
  "tells_other start r = (case r of None \<Rightarrow> False | Some c \<Rightarrow> all_succeed c \<and> z_db lib0 (c_db c) ''a'' = Some ''y''
     \<and> (case replayWAL lib0 (lose_all_but_logs (start c) (c_db c)) of None \<Rightarrow> False | Some z2 \<Rightarrow> z_db lib0 z2 ''a'' = Some ''x''))"

lemma tells_otherD:
  "tells_other start r \<Longrightarrow> \<exists>c z2. r = Some c \<and> all_succeed c \<and> z_db lib0 (c_db c) ''a'' = Some ''y''
     \<and> replayWAL lib0 (lose_all_but_logs (start c) (c_db c)) = Some z2 \<and> z_db lib0 z2 ''a'' = Some ''x''"
  by (auto simp: tells_other_def split: option.splits)

lemma race_run:
  "tells_other (\<lambda>c. z0) (run_schedule lib0 [0, 0, 0, 1, 1, 1, 1, 0, 1, 1, 1, 0, 0, 0]
     (new_Conc lib0 z0 [[Exec (set_line ''a'' ''x'') Admin True], [Exec (set_line ''a'' ''y'') Admin True]]))"
  by code_simp

lemma stale_run:
  "tells_other c_db (run_schedule lib0 (replicate 11 0 @ replicate 4 1 @ replicate 4 0)
     (new_Conc lib0 z0 [[Exec (set_line ''a'' ''x'') Admin True, Exec (set_line ''a'' ''y'') Admin False, SyncLogs],
       [Exec ''flush'' Admin True]]))"
  by code_simp

text \<open>C25: Writers of one key that overtake each other. Writers share the lock and number the log entry
  after the map was changed, so there is a schedule of two synced \<open>set\<close> commands on one key in which both
  are answered with success, the map has the value of the second and the replayed logs give that of the
  first.\<close>

theorem racing_writes_diverge:
  "\<exists>is c z2. run_schedule lib0 is
       (new_Conc lib0 z0 [[Exec (set_line ''a'' ''x'') Admin True], [Exec (set_line ''a'' ''y'') Admin True]]) = Some c
     \<and> all_succeed c \<and> z_db lib0 (c_db c) ''a'' = Some ''y''
     \<and> replayWAL lib0 (lose_all_but_logs z0 (c_db c)) = Some z2 \<and> z_db lib0 z2 ''a'' = Some ''x''"
  using tells_otherD [OF race_run] by blast

text \<open>C26: A flush between a write and its sync. The flush empties the logs without syncing them and marks
  them as clean, so a sync that follows does nothing: there is a schedule in which all calls, the sync
  included, succeed and the map has the newer value, which is also in the flushed files, and an older
  entry that is still in the log on disk brings the older value back.\<close>

theorem stale_log_returns:
  "\<exists>is c z2. run_schedule lib0 is
       (new_Conc lib0 z0 [[Exec (set_line ''a'' ''x'') Admin True, Exec (set_line ''a'' ''y'') Admin False, SyncLogs],
         [Exec ''flush'' Admin True]]) = Some c
     \<and> all_succeed c \<and> z_db lib0 (c_db c) ''a'' = Some ''y''
     \<and> replayWAL lib0 (lose_all_but_logs (c_db c) (c_db c)) = Some z2 \<and> z_db lib0 z2 ''a'' = Some ''x''"
  using tells_otherD [OF stale_run] by blast

end
