(* ===== verification/Console.thy ===== *)
theory Console
  imports Service
begin

text \<open>
  \<open>main.cpp\<close>: the command prompt and the option \<open>pop\<close> that fills the database. The lines of the
  standard input are a list; its end is the end of the input. What the prompt shows is a list of
  \<open>shown\<close>. The loop is the one of a single thread: it looks at \<open>running\<close> before every line.
\<close>

datatype shown = Prompt | Goodbye | Answer string | CommandFailed

text \<open>\<open>iss >> cmd\<close>: the first word, empty when there is none.\<close>

definition is_space :: "char \<Rightarrow> bool" where
  "is_space c \<longleftrightarrow> c = CHR '' '' \<or> (9 \<le> (of_char c :: nat) \<and> (of_char c :: nat) \<le> 13)"

definition first_word :: "string \<Rightarrow> string" where
  "first_word line = takeWhile (\<lambda>c. \<not> is_space c) (dropWhile is_space line)"

text \<open>The output, whether the work guard was reset, and the database.\<close>

fun cmd_loop :: "Lib \<Rightarrow> string list \<Rightarrow> ZestDB \<Rightarrow> shown list \<times> bool \<times> ZestDB" where
  "cmd_loop lib [] z = (if \<not> running z then ([], False, z) else ([Prompt], False, z))"
| "cmd_loop lib (line # input) z =
     (if \<not> running z then ([], False, z)
      else if line = [] then (case cmd_loop lib input z of (out, reset, z') \<Rightarrow> (Prompt # out, reset, z'))
      else if first_word line = ''q'' \<or> first_word line = ''quit'' then ([Prompt, Goodbye], True, z_stop z)
      else case execCmd lib line Admin True z of (ro, z1) \<Rightarrow>
        let s = (case ro of None \<Rightarrow> CommandFailed | Some r \<Rightarrow> Answer (responseToJson lib r)) in
        (case cmd_loop lib input z1 of (out, reset, z') \<Rightarrow> (Prompt # s # out, reset, z')))"

text \<open>\<open>populate\<close> with \<open>n\<close> keys left, from number \<open>i\<close> on.\<close>

definition pop_line :: "nat \<Rightarrow> string" where
  "pop_line i = ''s key_'' @ show_nat i @ '' val_'' @ show_nat i"

fun populate :: "Lib \<Rightarrow> nat \<Rightarrow> nat \<Rightarrow> ZestDB \<Rightarrow> ZestDB" where
  "populate lib 0 i z = z"
| "populate lib (Suc n) i z =
     (if running z then populate lib n (Suc i) (snd (execCmd lib (pop_line i) Admin True z)) else z)"

section \<open>The prompt\<close>

text \<open>The commands that a console session executes, as events of the database.\<close>

fun typed :: "string list \<Rightarrow> db_event list" where
  "typed [] = []"
| "typed (line # input) =
     (if line = [] then typed input
      else if first_word line = ''q'' \<or> first_word line = ''quit'' then []
      else Command line Admin True # typed input)"

text \<open>
  A console session is a run of the database: it executes typed commands in their order, up to the end
  of the input, a quit or a stop from elsewhere; after a quit the database was stopped and flushed.
\<close>

lemma cmd_loop_runs_typed:
  "cmd_loop lib input z = (out, reset, z') \<Longrightarrow>
     \<exists>n. z' = (let y = fold (db_step lib) (take n (typed input)) z in if reset then z_stop y else y)"
proof (induction input arbitrary: z out)
  case Nil
  then show ?case by (auto simp: Let_def split: if_splits)
next
  case (Cons line input)
  consider (stopped) "\<not> running z" | (empty) "running z" "line = []"
    | (quit) "running z" "line \<noteq> []" "first_word line = ''q'' \<or> first_word line = ''quit''"
    | (command) "running z" "line \<noteq> []" "\<not> (first_word line = ''q'' \<or> first_word line = ''quit'')" by blast
  then show ?case
  proof cases
    case stopped
    with Cons.prems show ?thesis by (auto simp: Let_def intro: exI [of _ 0])
  next
    case empty
    with Cons show ?thesis by (auto split: prod.splits)
  next
    case quit
    with Cons.prems show ?thesis by (auto simp: Let_def)
  next
    case command
    obtain ro z1 where x: "execCmd lib line Admin True z = (ro, z1)" by (cases "execCmd lib line Admin True z")
    with command Cons.prems obtain out1 where "cmd_loop lib input z1 = (out1, reset, z')"
      by (auto simp: Let_def split: prod.splits)
    from Cons.IH [OF this] obtain n where "z' = (let y = fold (db_step lib) (take n (typed input)) z1 in if reset then z_stop y else y)" ..
    with command x show ?thesis by (intro exI [of _ "Suc n"]) simp
  qed
qed

text \<open>A line that starts with a blank character is still a command line; only the first word decides.\<close>

lemma first_word_quit: "list_all is_space b \<Longrightarrow> first_word (b @ ''quit'') = ''quit''"
  by (induction b) (simp_all add: first_word_def is_space_def)

end
