(* ===== verification/Spec2Isabelle.thy ===== *)
theory Spec2Isabelle
  imports Storage_Properties Command_Properties Server_Properties Concurrent_Properties Console
begin

text \<open>
  A verification of ZestDB, a sharded key-value store with a write-ahead log, a line protocol over TCP
  and a statistics page over HTTP. The sources are under \<open>src/src\<close>; file and function names below
  refer to them.

  \<^bold>\<open>The program.\<close> A \<open>ZestDB\<close> holds 32 shards behind a \<open>ShardManager\<close>; a key belongs to the shard
  that its hash selects. A shard keeps the values in append-only segment files (\<open>StorageManager\<close>,
  \<open>DataSegment\<close>), the place of each value in an index that is a map in memory and a log of records on
  disk (\<open>IndexManager\<close>), recently used values in a cache (\<open>LRUCache\<close>) and the commands since the last
  flush in a write-ahead log (\<open>WAL\<close>). \<open>ZestDB::execCmd\<close> parses a line, checks the role of its user,
  runs it, logs it and syncs the logs. Sessions (\<open>Server\<close>) authenticate users and execute batches of
  commands. Threads flush, compact and archive in the background. At start the shards are read from
  disk and the logs of all shards are replayed in the order of their sequence numbers.

  \<^bold>\<open>The theories\<close>, from the bottom up, with the sources they model:

  \<^item> \<open>Zest_Prelude\<close>: machine integers, byte encodings, association lists, decimal numbers; the
    collections \<open>codec_simps\<close>, \<open>calm\<close> and \<open>io_simps\<close>.
  \<^item> \<open>Settings\<close> (\<open>Settings.hpp\<close>) and \<open>FileIO\<close> (\<open>File.hpp\<close>, \<open>std::fstream\<close>): a stream is its contents,
    what of it is on disk, and its flags; every call draws its outcome from a script (\<open>ios\<close>), and a
    write that fails may leave any prefix of its bytes. Theorems that do not assume \<open>all_ok\<close> hold under
    every outcome.
  \<^item> \<open>DataSegment\<close>, \<open>StorageManager\<close>, \<open>IndexManager\<close>, \<open>LRUCache\<close>, \<open>WAL\<close>, \<open>PerfMonitoring\<close>, \<open>Json\<close>:
    the files of the same names. The contracts that a shard relies on are the locales \<open>blob_store\<close>,
    \<open>key_index\<close>, \<open>value_cache\<close> and \<open>command_log\<close>, each interpreted on the definitions of its component.
  \<^item> \<open>KeyValue\<close>: the contract of a key-value store, the locales \<open>key_map\<close> and \<open>kv_store\<close>, and that stores
    which keep it keep it together when keys are spread over them by a hash. It is interpreted on the
    shard (\<open>shard_kv\<close>) and, from there, on the shard manager (\<open>mgr_kv\<close>).
  \<^item> \<open>Shard\<close> (\<open>Shard.cpp\<close>) with the invariant \<open>shard_inv\<close> and the abstraction \<open>contents\<close>, the map of the
    shard; \<open>Recovery\<close> has its start (\<open>Shard::boot\<close>), flush and restart.
  \<^item> \<open>ShardManager\<close> (\<open>ShardManager.cpp\<close>) with the abstraction \<open>db\<close>, and the counter that the shards of one
    \<open>getby\<close> share as a step relation (\<open>counter_step\<close>).
  \<^item> \<open>CommandLine\<close>, \<open>Patterns\<close>, \<open>Config\<close>, \<open>Auth\<close>, \<open>Archive\<close>, \<open>ZestDB\<close> (\<open>ZestDB.cpp\<close>): words and numbers of a
    line, the modes and the complexity guard of patterns, the configuration, users and lockout,
    archives, and the commands. \<open>Commands\<close> has the effects of every command, \<open>Replay\<close> the replay of the
    logs, \<open>Durability\<close> what survives a crash.
  \<^item> \<open>Concurrent\<close> (\<open>ZestDB::execCmd\<close>, \<open>syncWAL\<close> and \<open>writeMtx\<close>): calls of several threads, each cut where
    others can come between - taking the lock, running the command, appending to the log, syncing one log
    after the other - and run in the order of a schedule (\<open>run_schedule\<close>). \<open>Writers\<close> has the invariant of
    concurrent writers: what the logs say in memory and on disk.
  \<^item> \<open>Session\<close> and \<open>Server\<close> (\<open>Server.cpp\<close>): handlers as events with what asio delivers as their
    arguments; \<open>ses_step\<close> and \<open>srv_step\<close> are the step relations. \<open>ThreadPool\<close> (\<open>ThreadPool.cpp\<close>): one
    step is what a thread does under the mutex, or a notification. \<open>Logger\<close> (\<open>Logger.cpp\<close>). \<open>Service\<close>:
    the background threads and the HTTP handlers, and all of them with commands as one step function
    \<open>db_step\<close>. \<open>Console\<close> (\<open>main.cpp\<close>): the prompt.
  \<^item> \<open>Examples\<close>: a database of two shards for the witnesses. \<open>Storage_Properties\<close>,
    \<open>Command_Properties\<close>, \<open>Server_Properties\<close>, \<open>Concurrent_Properties\<close>: the theorems, numbered C1 to C40.

  \<^bold>\<open>What is shown.\<close>

  \<^item> Storage: the operations of a shard refine lookup, update and deletion of a map under every outcome
    of the file calls (C5 to C7); compaction keeps the map (C16); flush and restart, start on any files, a
    torn log and an archive give back what they should (C13, C28, C23, C37); logs are emptied only when
    everything else is on disk (C12); an append after a failed one is lost (C24); the cache is an LRU cache
    (C27).
  \<^item> Commands: acknowledged writes survive a crash (C1), a command is logged before its success is
    answered (C10), replay applies the logs (C11), a value that was set is got back (C4), an error changes
    nothing (C9), roles and the read-only mode hold (C17), bulk commands do what their pattern and limit
    say (C29 to C31, C40), the configuration stays acceptable and can be read back (C38, C39), lockout is a
    streak of failures (C32), and the invariant of the database holds in every reachable state (C8).
  \<^item> Threads: under every schedule acknowledged writes survive a crash, unless two writers of one key
    overtake each other or a flush comes between a write and its sync (C2, C3), and these two exceptions
    are real (C25, C26); nothing deadlocks and every call is answered (C14); undisturbed, the steps of a
    call are \<open>execCmd\<close> (C15).
  \<^item> Network: login needs a valid token (C18), unauthenticated batches change nothing (C33), a batch is
    the sequence of its commands (C20), its loop returns unless a length wraps the 32-bit offset (C21,
    C22), answers wait for the logs (C19), connections stay within their limit (C34), the thread pool
    finishes and loses no task (C35, C36).
  \<^item> Beside these: what a session reads and in which order it answers, the limit of \<open>getby\<close> when the
    threads of the shards interleave, when \<open>Shard::set\<close> succeeds, runs that keep the map, and that an entry
    of the log is one line.

  \<^bold>\<open>Conventions.\<close> Counters, offsets and sizes are words of the width the code has, so that
  wrap-around is part of the model; times are natural numbers of nanoseconds. Exceptions and early
  returns are values of option, sum or result types. Loops are total functions with a measure, except
  the loop over a batch, which may not return and is a \<open>partial_function (option)\<close>; no definition uses
  fuel. Hypotheses of the form \<open>ids_left\<close>, \<open>ids_for\<close>, \<open>z_roomy\<close> and \<open>can_go_on\<close> say that the 32-bit numbers
  of segments have not run out, \<open>segsize_ok\<close> that \<open>SegSize + 1\<close> does not wrap, \<open>index_fits\<close> that the entries
  of an index can be counted in 32 bits.

  \<^bold>\<open>Parameters.\<close> The record \<open>Lib\<close> has what the sources call and do not define: \<open>std::hash\<close>,
  \<open>std::nth_element\<close>, writing and accepting JSON, \<open>std::regex\<close> and SHA-256. \<open>lib_ok\<close> names what is relied
  upon: \<open>nth_element\<close> permutes and partitions, and an array is written as its elements between
  brackets. The YAML library is what it answers for each key (\<open>ConfigNode\<close>), the zip library and the
  file system around an archive are an \<open>ArchiveEnv\<close>.

  \<^bold>\<open>Not modelled.\<close> The headers under \<open>src/lib\<close> (JSON, HTTP, YAML), asio and libzip are third-party code.
  Of the locks, \<open>writeMtx\<close> is modelled, the mutex of the thread pool, and the shared counter of \<open>getby\<close>. The
  work of one command under \<open>writeMtx\<close> is one step, bulk commands and the copying of an archive included,
  and compactions come between commands (\<open>db_step\<close>), not into them. Of \<open>main\<close>, signals and the joining of threads are left out, of the logger
  the clock and the output stream. The tests and the benchmark are no part of the program.
\<close>

end
